(* ===== verification/Base.thy ===== *)
theory Base
  imports Main
begin

section \<open>Shared notions: faults, results, machine sizes, C++ sequences\<close>

text \<open>
  What every component theory shares: the faults an operation can end in, the
  result type and its sequencing, \<open>size_t\<close> arithmetic with its wrap-around, and
  the parts of the C++ standard library that the sources use on byte
  sequences (\<open>std::copy\<close>, \<open>std::copy_backward\<close>, \<open>std::vector::resize\<close>).
\<close>

subsection \<open>Faults and results\<close>

text \<open>
  A failed \<open>assert\<close> (checked in a Debug build, compiled out by \<open>-DNDEBUG\<close> in a
  Release build) is the value \<open>Inl Assertion_failed\<close>. A theorem that an
  operation returns \<open>Inr\<close> therefore says that the two builds behave alike on
  that input. \<open>Undefined\<close> is undefined behaviour of the C++ abstract machine
  (an index out of range, a signed overflow), and \<open>Length_error\<close> the exception
  of \<open>std::vector\<close> and \<open>std::string\<close> on an impossible size, \<open>Bad_function\<close> the one of an
  empty \<open>std::function\<close> that is called. \<open>Blocked\<close> is a thread that
  waits for ever, \<open>Aborted\<close> the end of the process by \<open>abort\<close>. \<open>Out_of_fuel\<close> is
  not a behaviour of the program: the model of a loop that may run for ever is cut
  off by it, and the theorems about such a loop show how much fuel is enough.
\<close>

datatype fault = Assertion_failed | Undefined | Length_error | Bad_function | Blocked | Aborted | Out_of_fuel

type_synonym 'a res = "fault + 'a"

fun res_bind :: "'a res \<Rightarrow> ('a \<Rightarrow> 'b res) \<Rightarrow> 'b res" where
  "res_bind (Inl e) f = Inl e"
| "res_bind (Inr x) f = f x"

fun assert_then :: "bool \<Rightarrow> 'a res \<Rightarrow> 'a res" where
  "assert_then b r = (if b then r else Inl Assertion_failed)"

declare assert_then.simps [simp del]

lemma assert_then_True [simp]: "b \<Longrightarrow> assert_then b r = r"
  by (simp add: assert_then.simps)

lemma assert_then_False [simp]: "\<not> b \<Longrightarrow> assert_then b r = Inl Assertion_failed"
  by (simp add: assert_then.simps)

lemma assert_then_Inr_iff: "assert_then b r = Inr x \<longleftrightarrow> b \<and> r = Inr x"
  by (simp add: assert_then.simps)

lemma res_bind_Inr_iff: "res_bind m f = Inr y \<longleftrightarrow> (\<exists>x. m = Inr x \<and> f x = Inr y)"
  by (cases m) auto

lemma res_bind_assoc: "res_bind (res_bind m f) g = res_bind m (\<lambda>x. res_bind (f x) g)"
  by (cases m) auto

lemma res_bind_Inr_right [simp]: "res_bind m Inr = m"
  by (cases m) auto

named_theorems res_iff "when an operation returns: its value as an equivalence"

lemmas [res_iff] = assert_then_Inr_iff res_bind_Inr_iff

subsection \<open>\<open>size_t\<close>\<close>

text \<open>
  \<open>size_t\<close> values are naturals below \<open>2 ^ 64\<close>; its addition and subtraction wrap.
  The invariants of the components exclude the wrap-around, and
  \<open>size_sub_le\<close> and \<open>size_add_less\<close> turn the operations into plain arithmetic.
\<close>

definition size_mod :: nat where
  "size_mod = 18446744073709551616"

definition size_add :: "nat \<Rightarrow> nat \<Rightarrow> nat" where
  "size_add a b = (a + b) mod size_mod"

definition size_sub :: "nat \<Rightarrow> nat \<Rightarrow> nat" where
  "size_sub a b = (a + (size_mod - b)) mod size_mod"

text \<open>\<open>std::vector<char>::max_size()\<close> of the 64-bit implementation, \<open>PTRDIFF_MAX\<close>.\<close>

definition max_size :: nat where
  "max_size = 9223372036854775807"

lemma size_mod_max_size: "size_mod = 2 * max_size + 2"
  by (simp add: size_mod_def max_size_def)

lemma size_sub_le [simp]: "b \<le> a \<Longrightarrow> a < size_mod \<Longrightarrow> size_sub a b = a - b"
proof -
  assume "b \<le> a" "a < size_mod"
  then have "a + (size_mod - b) = (a - b) + size_mod" and "a - b < size_mod" by auto
  then show ?thesis by (simp add: size_sub_def)
qed

lemma size_sub_wraps: "a < b \<Longrightarrow> b \<le> size_mod \<Longrightarrow> size_sub a b = size_mod - (b - a)"
  by (simp add: size_sub_def)

lemma size_add_less [simp]: "a + b < size_mod \<Longrightarrow> size_add a b = a + b"
  by (simp add: size_add_def)

subsection \<open>C++ sequences\<close>

text \<open>\<open>std::copy\<close> and \<open>std::copy_backward\<close> within one array: element by element, in
  the direction the standard fixes, which matters when the ranges overlap.
  \<open>copy_fwd n f t xs\<close> copies \<open>n\<close> elements from index \<open>f\<close> on to index \<open>t\<close> on;
  \<open>copy_bwd n f t xs\<close> copies the \<open>n\<close> elements before index \<open>f\<close> to those before \<open>t\<close>.\<close>

fun copy_fwd :: "nat \<Rightarrow> nat \<Rightarrow> nat \<Rightarrow> 'a list \<Rightarrow> 'a list" where
  "copy_fwd 0 f t xs = xs"
| "copy_fwd (Suc n) f t xs = copy_fwd n (Suc f) (Suc t) (xs[t := xs ! f])"

fun copy_bwd :: "nat \<Rightarrow> nat \<Rightarrow> nat \<Rightarrow> 'a list \<Rightarrow> 'a list" where
  "copy_bwd 0 f t xs = xs"
| "copy_bwd (Suc n) f t xs = copy_bwd n (f - 1) (t - 1) (xs[t - 1 := xs ! (f - 1)])"

text \<open>\<open>std::copy\<close> of an outside range into an array at index \<open>t\<close>.\<close>

definition copy_in :: "'a list \<Rightarrow> nat \<Rightarrow> 'a list \<Rightarrow> 'a list" where
  "copy_in ys t xs = take t xs @ ys @ drop (t + length ys) xs"

text \<open>\<open>std::vector::resize(n)\<close>: cut or pad with the default element.\<close>

definition vec_resize :: "'a \<Rightarrow> nat \<Rightarrow> 'a list \<Rightarrow> 'a list res" where
  "vec_resize d n xs =
     (if n > max_size then Inl Length_error
      else Inr (take n xs @ replicate (n - length xs) d))"

text \<open>The elements of an index range.\<close>

definition slice :: "nat \<Rightarrow> nat \<Rightarrow> 'a list \<Rightarrow> 'a list" where
  "slice i j xs = take (j - i) (drop i xs)"

lemma length_copy_fwd [simp]: "length (copy_fwd n f t xs) = length xs"
  by (induction n f t xs rule: copy_fwd.induct) simp_all

lemma length_copy_bwd [simp]: "length (copy_bwd n f t xs) = length xs"
  by (induction n f t xs rule: copy_bwd.induct) simp_all

lemma length_copy_in [simp]: "t + length ys \<le> length xs \<Longrightarrow> length (copy_in ys t xs) = length xs"
  by (simp add: copy_in_def)

lemma length_slice [simp]: "j \<le> length xs \<Longrightarrow> length (slice i j xs) = j - i"
  by (simp add: slice_def)

lemma slice_empty [simp]: "slice i i xs = []"
  by (simp add: slice_def)

lemma nth_slice: "i + k < j \<Longrightarrow> j \<le> length xs \<Longrightarrow> slice i j xs ! k = xs ! (i + k)"
  by (simp add: slice_def)

lemma slice_eqI:
  assumes "j \<le> length xs" "j' \<le> length ys" "j - i = j' - i'"
    and "\<And>k. k < j - i \<Longrightarrow> xs ! (i + k) = ys ! (i' + k)"
  shows "slice i j xs = slice i' j' ys"
  using assms by (intro nth_equalityI) (simp_all add: nth_slice)

lemma drop_slice: "drop n (slice i j xs) = slice (i + n) j xs"
  by (simp add: slice_def drop_take ac_simps)

lemma take_slice: "i + n \<le> j \<Longrightarrow> take n (slice i j xs) = slice i (i + n) xs"
  by (simp add: slice_def min_def)

lemma slice_append: "i \<le> j \<Longrightarrow> j \<le> k \<Longrightarrow> slice i j xs @ slice j k xs = slice i k xs"
proof -
  assume "i \<le> j" "j \<le> k"
  then have "slice i k xs = take ((j - i) + (k - j)) (drop i xs)" by (simp add: slice_def)
  also have "\<dots> = take (j - i) (drop i xs) @ take (k - j) (drop (j - i) (drop i xs))"
    by (rule take_add)
  finally show ?thesis using \<open>i \<le> j\<close> by (simp add: slice_def)
qed

text \<open>What the two copies leave at each index, for the overlap each is meant for.\<close>

lemma nth_copy_fwd:
  "t \<le> f \<Longrightarrow> f + n \<le> length xs \<Longrightarrow> i < length xs \<Longrightarrow>
   copy_fwd n f t xs ! i = (if t \<le> i \<and> i < t + n then xs ! (f + (i - t)) else xs ! i)"
proof (induction n f t xs rule: copy_fwd.induct)
  case (2 n f t xs)
  from "2.IH" "2.prems" have
    "copy_fwd n (Suc f) (Suc t) (xs[t := xs ! f]) ! i =
       (if Suc t \<le> i \<and> i < Suc t + n then xs[t := xs ! f] ! (Suc f + (i - Suc t))
        else xs[t := xs ! f] ! i)"
    by simp
  with "2.prems" show ?case
    by (auto simp: nth_list_update intro!: arg_cong [where f = "(!) xs"])
qed auto

lemma nth_copy_bwd:
  "n \<le> f \<Longrightarrow> f \<le> t \<Longrightarrow> t \<le> length xs \<Longrightarrow> i < length xs \<Longrightarrow>
   copy_bwd n f t xs ! i = (if t - n \<le> i \<and> i < t then xs ! (f - (t - i)) else xs ! i)"
proof (induction n f t xs rule: copy_bwd.induct)
  case (2 n f t xs)
  from "2.IH" "2.prems" have
    "copy_bwd n (f - 1) (t - 1) (xs[t - 1 := xs ! (f - 1)]) ! i =
       (if t - 1 - n \<le> i \<and> i < t - 1 then xs[t - 1 := xs ! (f - 1)] ! (f - 1 - (t - 1 - i))
        else xs[t - 1 := xs ! (f - 1)] ! i)"
    by simp
  with "2.prems" show ?case
    by (auto simp: nth_list_update)
qed auto

lemma slice_copy_fwd:
  "t \<le> f \<Longrightarrow> f + n \<le> length xs \<Longrightarrow> slice t (t + n) (copy_fwd n f t xs) = slice f (f + n) xs"
  by (rule slice_eqI) (simp_all add: nth_copy_fwd)

lemma slice_copy_bwd:
  "n \<le> f \<Longrightarrow> f \<le> t \<Longrightarrow> t \<le> length xs \<Longrightarrow>
   slice (t - n) t (copy_bwd n f t xs) = slice (f - n) f xs"
  by (rule slice_eqI) (auto simp: nth_copy_bwd intro!: arg_cong [where f = "(!) xs"])

lemma slice_copy_in_after:
  "t + length ys \<le> length xs \<Longrightarrow> slice t (t + length ys) (copy_in ys t xs) = ys"
  by (simp add: slice_def copy_in_def)

lemma slice_append1: "j \<le> length xs \<Longrightarrow> slice i j (xs @ ys) = slice i j xs"
  by (simp add: slice_def)

lemma slice_take: "j \<le> t \<Longrightarrow> slice i j (take t xs) = slice i j xs"
  by (simp add: slice_def drop_take min_def)

lemma slice_copy_in_before:
  "j \<le> t \<Longrightarrow> t \<le> length xs \<Longrightarrow> slice i j (copy_in ys t xs) = slice i j xs"
  by (simp add: copy_in_def slice_append1 slice_take)

lemma slice_copy_in_beyond:
  "t + length ys \<le> i \<Longrightarrow> t + length ys \<le> length xs \<Longrightarrow>
   slice i j (copy_in ys t xs) = slice i j xs"
  by (simp add: copy_in_def slice_def)

lemma slice_vec_resize:
  "j \<le> n \<Longrightarrow> j \<le> length xs \<Longrightarrow> slice i j (take n xs @ replicate (n - length xs) d) = slice i j xs"
  by (simp add: slice_append1 slice_take)

text \<open>
  The same accesses with the bounds check that the C++ abstract machine makes
  implicitly: outside the array they are undefined behaviour.
\<close>

definition mem_read :: "nat \<Rightarrow> nat \<Rightarrow> 'a list \<Rightarrow> 'a list res" where
  "mem_read i n xs = (if i + n \<le> length xs then Inr (slice i (i + n) xs) else Inl Undefined)"

definition mem_write :: "'a list \<Rightarrow> nat \<Rightarrow> 'a list \<Rightarrow> 'a list res" where
  "mem_write ys t xs = (if t + length ys \<le> length xs then Inr (copy_in ys t xs) else Inl Undefined)"

definition mem_copy_fwd :: "nat \<Rightarrow> nat \<Rightarrow> nat \<Rightarrow> 'a list \<Rightarrow> 'a list res" where
  "mem_copy_fwd n f t xs =
     (if f + n \<le> length xs \<and> t + n \<le> length xs then Inr (copy_fwd n f t xs) else Inl Undefined)"

definition mem_copy_bwd :: "nat \<Rightarrow> nat \<Rightarrow> nat \<Rightarrow> 'a list \<Rightarrow> 'a list res" where
  "mem_copy_bwd n f t xs =
     (if n \<le> f \<and> n \<le> t \<and> f \<le> length xs \<and> t \<le> length xs
      then Inr (copy_bwd n f t xs) else Inl Undefined)"

lemmas mem_defs = mem_read_def mem_write_def mem_copy_fwd_def mem_copy_bwd_def

end
