(* ===== verification/TimerHeap.thy ===== *)
theory TimerHeap
  imports Base "HOL-Library.Multiset"
begin

section \<open>The heap of \<open>net/Timer\<close>: \<open>PushInHeap\<close>, \<open>PopInHeap\<close>, \<open>UpInHeap\<close>, \<open>DownInHeap\<close>\<close>

text \<open>
  \<open>TimerManager\<close> keeps its timers in a vector that is a binary heap by expiry
  time. The loops below are those of \<open>Timer.cpp\<close>, over any entry type and any
  \<open>key\<close> (the source's \<open>heap_[i]->when()\<close>). An access outside the vector is
  \<open>Undefined\<close>. Index arithmetic is \<open>size_t\<close> arithmetic where it can wrap, in
  \<open>index - 1\<close> for \<open>index = 0\<close> and \<open>heap_.size() - 1\<close> for an empty heap;
  \<open>index * 2 + 1\<close> is computed for an index of a vector in memory only.
\<close>

definition SwapInHeap :: "nat \<Rightarrow> nat \<Rightarrow> 'a list \<Rightarrow> 'a list res" where
  "SwapInHeap l r xs =
     (if l < length xs \<and> r < length xs then Inr (xs[l := xs ! r, r := xs ! l]) else Inl Undefined)"

lemma size_sub_1_div_less: "0 < (index::nat) \<Longrightarrow> size_sub index 1 div 2 < index"
proof -
  assume "0 < index"
  then have "size_sub index 1 = (index - 1) mod size_mod"
    by (cases index) (simp_all add: size_sub_def size_mod_def)
  then have "size_sub index 1 \<le> index - 1" by simp
  then show ?thesis using \<open>0 < index\<close> by simp
qed

function UpInHeap :: "('a \<Rightarrow> 'k::linorder) \<Rightarrow> nat \<Rightarrow> 'a list \<Rightarrow> 'a list res" where
  "UpInHeap key index xs =
     (let parent = size_sub index 1 div 2 in
      if 0 < index then
        if \<not> (index < length xs \<and> parent < length xs) then Inl Undefined
        else if key (xs ! index) < key (xs ! parent)
        then UpInHeap key parent (xs[index := xs ! parent, parent := xs ! index])
        else Inr xs
      else Inr xs)"
  by pat_completeness auto
termination
  by (relation "measure (\<lambda>(key, index, xs). index)") (auto intro: size_sub_1_div_less [simplified])

function DownInHeap :: "('a \<Rightarrow> 'k::linorder) \<Rightarrow> nat \<Rightarrow> 'a list \<Rightarrow> 'a list" where
  "DownInHeap key index xs =
     (let child = index * 2 + 1 in
      if child < length xs then
        let min_child =
          (if child < length xs - 1
           then (if key (xs ! child) < key (xs ! (child + 1)) then child else child + 1)
           else child) in
        if key (xs ! index) \<le> key (xs ! min_child) then xs
        else DownInHeap key min_child (xs[index := xs ! min_child, min_child := xs ! index])
      else xs)"
  by pat_completeness auto
termination
  by (relation "measure (\<lambda>(key, index, xs). length xs - index)") (auto split: if_splits)

declare UpInHeap.simps [simp del] DownInHeap.simps [simp del]

definition PushInHeap :: "('a \<Rightarrow> 'k::linorder) \<Rightarrow> 'a \<Rightarrow> 'a list \<Rightarrow> 'a list res" where
  "PushInHeap key x xs =
     (let ys = xs @ [x]; index = size_sub (length ys) 1 in UpInHeap key index ys)"

definition PopInHeap :: "('a \<Rightarrow> 'k::linorder) \<Rightarrow> 'a list \<Rightarrow> 'a list res" where
  "PopInHeap key xs =
     res_bind (SwapInHeap 0 (size_sub (length xs) 1) xs) (\<lambda>ys.
     Inr (DownInHeap key 0 (butlast ys)))"

subsection \<open>The heap property, and the property with one defect\<close>

definition heap_at :: "('a \<Rightarrow> 'k::linorder) \<Rightarrow> 'a list \<Rightarrow> nat \<Rightarrow> bool" where
  "heap_at key xs i \<longleftrightarrow> key (xs ! ((i - 1) div 2)) \<le> key (xs ! i)"

definition heap_ok :: "('a \<Rightarrow> 'k::linorder) \<Rightarrow> 'a list \<Rightarrow> bool" where
  "heap_ok key xs \<longleftrightarrow> (\<forall>i. 0 < i \<and> i < length xs \<longrightarrow> heap_at key xs i)"

text \<open>Everything is in order but perhaps index \<open>j\<close> against its parent.\<close>

definition heap_up_defect :: "('a \<Rightarrow> 'k::linorder) \<Rightarrow> 'a list \<Rightarrow> nat \<Rightarrow> bool" where
  "heap_up_defect key xs j \<longleftrightarrow>
     (\<forall>i. 0 < i \<and> i < length xs \<and> i \<noteq> j \<longrightarrow> heap_at key xs i) \<and>
     (\<forall>i. 0 < i \<and> i < length xs \<and> (i - 1) div 2 = j \<and> 0 < j \<longrightarrow>
        key (xs ! ((j - 1) div 2)) \<le> key (xs ! i))"

text \<open>Everything is in order but perhaps index \<open>j\<close> against its children.\<close>

definition heap_down_defect :: "('a \<Rightarrow> 'k::linorder) \<Rightarrow> 'a list \<Rightarrow> nat \<Rightarrow> bool" where
  "heap_down_defect key xs j \<longleftrightarrow>
     (\<forall>i. 0 < i \<and> i < length xs \<and> (i - 1) div 2 \<noteq> j \<longrightarrow> heap_at key xs i) \<and>
     (\<forall>i. 0 < i \<and> i < length xs \<and> (i - 1) div 2 = j \<and> 0 < j \<longrightarrow>
        key (xs ! ((j - 1) div 2)) \<le> key (xs ! i))"

lemma heap_okD: "heap_ok key xs \<Longrightarrow> 0 < i \<Longrightarrow> i < length xs \<Longrightarrow> key (xs ! ((i - 1) div 2)) \<le> key (xs ! i)"
  by (simp add: heap_ok_def heap_at_def)

lemma heap_ok_root:
  assumes "heap_ok key xs" "i < length xs"
  shows "key (xs ! 0) \<le> key (xs ! i)"
  using assms(2)
proof (induction i rule: less_induct)
  case (less i)
  show ?case
  proof (cases "i = 0")
    case False
    then have "key (xs ! 0) \<le> key (xs ! ((i - 1) div 2))"
      using less by (intro less.IH) auto
    with heap_okD [OF assms(1), of i] less.prems False show ?thesis by simp
  qed simp
qed

lemma heap_ok_append:
  assumes "heap_ok key xs"
  shows "heap_up_defect key (xs @ [x]) (length xs)"
  unfolding heap_up_defect_def
proof (intro conjI allI impI; elim conjE)
  fix i assume "0 < i" "i < length (xs @ [x])" "i \<noteq> length xs"
  with assms show "heap_at key (xs @ [x]) i" by (auto simp: heap_ok_def heap_at_def nth_append)
next
  fix i assume "0 < i" "i < length (xs @ [x])" "(i - 1) div 2 = length xs"
  then show "key ((xs @ [x]) ! ((length xs - 1) div 2)) \<le> key ((xs @ [x]) ! i)" by auto
qed

lemma heap_ok_butlast: "heap_ok key xs \<Longrightarrow> heap_ok key (butlast xs)"
  by (auto simp: heap_ok_def heap_at_def nth_butlast)

lemma heap_ok_short: "length xs \<le> 1 \<Longrightarrow> heap_ok key xs"
  by (auto simp: heap_ok_def)

lemma heap_ok_set_root:
  "heap_ok key xs \<Longrightarrow> heap_down_defect key (xs[0 := x]) 0"
  by (auto simp: heap_ok_def heap_down_defect_def heap_at_def nth_list_update)

lemma mset_swap:
  "i < length xs \<Longrightarrow> j < length xs \<Longrightarrow> mset (xs[i := xs ! j, j := xs ! i]) = mset xs"
  by (cases "i = j") (simp_all add: mset_swap)

subsection \<open>Sifting up and down\<close>

lemma swap_nth:
  "i < length xs \<Longrightarrow> j < length xs \<Longrightarrow> k < length xs \<Longrightarrow>
   xs[i := xs ! j, j := xs ! i] ! k = (if k = j then xs ! i else if k = i then xs ! j else xs ! k)"
  by (simp add: nth_list_update)

lemma heap_up_step:
  assumes "heap_up_defect key xs j" "0 < j" "j < length xs" "p = (j - 1) div 2"
    and lt: "key (xs ! j) < key (xs ! p)"
  shows "heap_up_defect key (xs[j := xs ! p, p := xs ! j]) p"
proof -
  let ?ys = "xs[j := xs ! p, p := xs ! j]"
  have p: "p < j" "p < length xs" using assms(2,3,4) by auto
  have at: "key (xs ! ((i - 1) div 2)) \<le> key (xs ! i)" if "0 < i" "i < length xs" "i \<noteq> j" for i
    using assms(1) that by (simp add: heap_up_defect_def heap_at_def)
  have gp: "key (xs ! p) \<le> key (xs ! i)" if "0 < i" "i < length xs" "(i - 1) div 2 = j" for i
    using assms(1,2,4) that by (simp add: heap_up_defect_def)
  have nth: "?ys ! k = (if k = p then xs ! j else if k = j then xs ! p else xs ! k)"
    if "k < length xs" for k
    using that assms(3) p by (simp add: swap_nth)
  show ?thesis unfolding heap_up_defect_def
  proof (intro conjI allI impI; elim conjE)
    fix i assume i: "0 < i" "i < length ?ys" "i \<noteq> p"
    then have q: "(i - 1) div 2 < length xs" "i < length xs" by auto
    show "heap_at key ?ys i"
    proof (cases "i = j")
      case True
      with lt p q assms(4) show ?thesis by (simp add: heap_at_def nth)
    next
      case False
      with at [OF i(1) q(2) False] lt gp [OF i(1) q(2)] i q p show ?thesis
        by (auto simp: heap_at_def nth)
    qed
  next
    fix i assume i: "0 < i" "i < length ?ys" "(i - 1) div 2 = p" "0 < p"
    have g: "(p - 1) div 2 < p" "(p - 1) div 2 < length xs" using i(4) p(2) by auto
    have "key (xs ! ((p - 1) div 2)) \<le> key (xs ! p)" using at [of p] i(4) p by simp
    moreover have "i \<noteq> p" using i by auto
    ultimately show "key (?ys ! ((p - 1) div 2)) \<le> key (?ys ! i)"
      using i g p at [of i] by (cases "i = j") (auto simp: nth intro: order_trans)
  qed
qed

lemma UpInHeap_ok:
  assumes "j < length xs" "length xs < size_mod" "heap_up_defect key xs j"
  shows "\<exists>ys. UpInHeap key j xs = Inr ys \<and> heap_ok key ys \<and> mset ys = mset xs"
  using assms
proof (induction key j xs rule: UpInHeap.induct)
  case (1 key j xs)
  show ?case
  proof (cases "j = 0")
    case True
    with "1.prems" show ?thesis
      by (simp add: UpInHeap.simps [of key 0] heap_ok_def heap_up_defect_def)
  next
    case False
    define p where "p = (j - 1) div 2"
    have p: "size_sub j 1 div 2 = p" "p < length xs"
      using False "1.prems"(1,2) by (simp_all add: p_def)
    show ?thesis
    proof (cases "key (xs ! j) < key (xs ! p)")
      case True
      let ?ys = "xs[j := xs ! p, p := xs ! j]"
      have "\<exists>zs. UpInHeap key p ?ys = Inr zs \<and> heap_ok key zs \<and> mset zs = mset ?ys"
        using "1.IH" [OF p(1) [symmetric]] False True p "1.prems"
          heap_up_step [OF "1.prems"(3) _ "1.prems"(1) p_def True] by simp
      moreover have "mset ?ys = mset xs" using "1.prems"(1) p(2) by (rule mset_swap)
      ultimately show ?thesis
        using True False p "1.prems"(1) UpInHeap.simps [of key j xs] by (simp add: Let_def)
    next
      case ge: False
      have "heap_ok key xs" unfolding heap_ok_def
      proof (intro allI impI)
        fix i assume "0 < i \<and> i < length xs"
        then show "heap_at key xs i"
          using "1.prems"(3) ge p_def
          by (cases "i = j") (auto simp: heap_up_defect_def heap_at_def)
      qed
      then show ?thesis
        using ge False p "1.prems"(1) UpInHeap.simps [of key j xs] by (simp add: Let_def)
    qed
  qed
qed

text \<open>An entry that is not less than the root does not become the root.\<close>

lemma UpInHeap_root:
  "index < length xs \<Longrightarrow> length xs < size_mod \<Longrightarrow> 0 < index \<Longrightarrow> key (xs ! 0) \<le> key (xs ! index) \<Longrightarrow>
   UpInHeap key index xs = Inr ys \<Longrightarrow> ys ! 0 = xs ! 0"
proof (induction key index xs rule: UpInHeap.induct)
  case (1 key j xs)
  define p where "p = (j - 1) div 2"
  have p: "size_sub j 1 div 2 = p" "p < length xs"
    using "1.prems"(1-3) by (simp_all add: p_def)
  show ?case
  proof (cases "key (xs ! j) < key (xs ! p)")
    case True
    then have "0 < p" using "1.prems"(4) by (cases "p = 0") auto
    let ?ys = "xs[j := xs ! p, p := xs ! j]"
    have "ys ! 0 = ?ys ! 0"
    proof (rule "1.IH" [OF p(1) [symmetric]])
      show "UpInHeap key p ?ys = Inr ys"
        using True p "1.prems" UpInHeap.simps [of key j xs] by (simp add: Let_def)
    qed (use True p "1.prems" \<open>0 < p\<close> in simp_all)
    with \<open>0 < p\<close> "1.prems"(3) show ?thesis by simp
  next
    case False
    with p "1.prems" UpInHeap.simps [of key j xs] show ?thesis by (simp add: Let_def)
  qed
qed

lemma heap_down_step:
  assumes "heap_down_defect key xs j" "m < length xs" "(m - 1) div 2 = j" "0 < m"
    and lt: "key (xs ! m) < key (xs ! j)"
    and min: "\<And>i. 0 < i \<Longrightarrow> i < length xs \<Longrightarrow> (i - 1) div 2 = j \<Longrightarrow> key (xs ! m) \<le> key (xs ! i)"
  shows "heap_down_defect key (xs[j := xs ! m, m := xs ! j]) m"
proof -
  let ?ys = "xs[j := xs ! m, m := xs ! j]"
  have j: "j < m" "j < length xs" using assms(2,3,4) by auto
  have at: "key (xs ! ((i - 1) div 2)) \<le> key (xs ! i)"
    if "0 < i" "i < length xs" "(i - 1) div 2 \<noteq> j" for i
    using assms(1) that by (simp add: heap_down_defect_def heap_at_def)
  have gp: "key (xs ! ((j - 1) div 2)) \<le> key (xs ! m)" if "0 < j"
    using assms(1-4) that by (simp add: heap_down_defect_def)
  have nth: "?ys ! k = (if k = m then xs ! j else if k = j then xs ! m else xs ! k)"
    if "k < length xs" for k
    using that assms(2) j by (simp add: swap_nth)
  show ?thesis unfolding heap_down_defect_def
  proof (intro conjI allI impI; elim conjE)
    fix i assume i: "0 < i" "i < length ?ys" "(i - 1) div 2 \<noteq> m"
    then have q: "(i - 1) div 2 < length xs" "i < length xs" "(i - 1) div 2 < i" by auto
    consider "i = m" | "i = j" | "i \<noteq> m" "i \<noteq> j" by blast
    then show "heap_at key ?ys i"
    proof cases
      case 1
      with lt j q assms(3) show ?thesis by (simp add: heap_at_def nth)
    next
      case 2
      with gp i(1) j q show ?thesis by (simp add: heap_at_def nth)
    next
      case 3
      then show ?thesis
        using at [OF i(1) q(2)] min [OF i(1) q(2)] i q nth [OF q(1)] nth [OF q(2)]
        by (cases "(i - 1) div 2 = j") (simp_all add: heap_at_def)
    qed
  next
    fix i assume i: "0 < i" "i < length ?ys" "(i - 1) div 2 = m" "0 < m"
    then have "i \<noteq> m" "i \<noteq> j" using j by auto
    with at [of i] i assms(2,3) j show "key (?ys ! ((m - 1) div 2)) \<le> key (?ys ! i)"
      by (simp add: nth)
  qed
qed

lemma DownInHeap_ok:
  assumes "heap_down_defect key xs j"
  shows "heap_ok key (DownInHeap key j xs) \<and> mset (DownInHeap key j xs) = mset xs"
  using assms
proof (induction key j xs rule: DownInHeap.induct)
  case (1 key j xs)
  define c where "c = j * 2 + 1"
  show ?case
  proof (cases "c < length xs")
    case False
    have "heap_ok key xs" unfolding heap_ok_def
    proof (intro allI impI)
      fix i assume i: "0 < i \<and> i < length xs"
      then have "(i - 1) div 2 \<noteq> j" using False c_def by auto
      with i "1.prems" show "heap_at key xs i" by (simp add: heap_down_defect_def)
    qed
    with False show ?thesis by (simp add: DownInHeap.simps [of key j xs] c_def)
  next
    case True
    define m where "m = (if c < length xs - 1
      then (if key (xs ! c) < key (xs ! (c + 1)) then c else c + 1) else c)"
    have m: "m < length xs" "(m - 1) div 2 = j" "0 < m"
      using True by (auto simp: m_def c_def)
    have min: "key (xs ! m) \<le> key (xs ! i)" if "0 < i" "i < length xs" "(i - 1) div 2 = j" for i
    proof -
      have "i = c \<or> i = c + 1" using that c_def by auto
      with that(2) show ?thesis by (auto simp: m_def)
    qed
    have unfold: "DownInHeap key j xs = (if key (xs ! j) \<le> key (xs ! m) then xs
        else DownInHeap key m (xs[j := xs ! m, m := xs ! j]))"
      using True DownInHeap.simps [of key j xs] unfolding m_def c_def Let_def by simp
    show ?thesis
    proof (cases "key (xs ! j) \<le> key (xs ! m)")
      case le: True
      have "heap_ok key xs" unfolding heap_ok_def
      proof (intro allI impI)
        fix i assume i: "0 < i \<and> i < length xs"
        show "heap_at key xs i"
        proof (cases "(i - 1) div 2 = j")
          case True
          with min [of i] i le show ?thesis by (auto simp: heap_at_def)
        next
          case False
          with i "1.prems" show ?thesis by (simp add: heap_down_defect_def)
        qed
      qed
      with unfold le show ?thesis by simp
    next
      case gt: False
      have "heap_down_defect key (xs[j := xs ! m, m := xs ! j]) m"
        using heap_down_step [OF "1.prems" m _ min] gt by simp
      with "1.IH" [OF c_def True m_def gt] unfold gt mset_swap [of j xs m] m show ?thesis by auto
    qed
  qed
qed

subsection \<open>Push and pop\<close>

lemma PushInHeap_ok:
  assumes "heap_ok key xs" "length xs + 1 < size_mod"
  shows "\<exists>ys. PushInHeap key x xs = Inr ys \<and> heap_ok key ys \<and> mset ys = add_mset x (mset xs)"
  using UpInHeap_ok [of "length xs" "xs @ [x]" key] heap_ok_append [OF assms(1), of x] assms(2)
  by (simp add: PushInHeap_def Let_def)

lemma PushInHeap_root:
  assumes "xs \<noteq> []" "length xs + 1 < size_mod" "key (xs ! 0) \<le> key x" "PushInHeap key x xs = Inr ys"
  shows "ys ! 0 = xs ! 0"
  using UpInHeap_root [of "length xs" "xs @ [x]" key ys] assms
  by (simp add: PushInHeap_def nth_append)

lemma PopInHeap_empty: "PopInHeap key [] = Inl Undefined"
  by (simp add: PopInHeap_def SwapInHeap_def)

lemma PopInHeap_ok:
  assumes "heap_ok key xs" "xs \<noteq> []" "length xs < size_mod"
  shows "\<exists>ys. PopInHeap key xs = Inr ys \<and> heap_ok key ys \<and> mset ys = mset xs - {#xs ! 0#}"
proof -
  define n where "n = length xs - 1"
  define ys where "ys = xs[0 := xs ! n, n := xs ! 0]"
  have n: "n < length xs" "0 < length xs" "size_sub (length xs) 1 = n"
    using assms(2,3) by (simp_all add: n_def Suc_le_eq)
  have mset: "mset ys = mset xs" using mset_swap [of 0 xs n] n by (simp add: ys_def)
  have len: "length ys = length xs" "ys \<noteq> []" using n by (auto simp: ys_def)
  have last: "last ys = xs ! 0"
    using n len n_def by (simp add: last_conv_nth ys_def nth_list_update)
  have "heap_down_defect key (butlast ys) 0"
  proof (cases "n = 0")
    case True
    then have "length (butlast ys) = 0" using len by (simp add: n_def)
    then show ?thesis by (simp add: heap_down_defect_def)
  next
    case False
    have "butlast ys = (butlast xs)[0 := xs ! n]"
      using n False by (intro nth_equalityI) (auto simp: ys_def n_def nth_butlast nth_list_update)
    with heap_ok_set_root [OF heap_ok_butlast [OF assms(1)]] show ?thesis by simp
  qed
  then have "heap_ok key (DownInHeap key 0 (butlast ys))"
    "mset (DownInHeap key 0 (butlast ys)) = mset (butlast ys)"
    using DownInHeap_ok by blast+
  moreover have "mset (butlast ys) = mset xs - {#xs ! 0#}"
    using mset append_butlast_last_id [OF len(2)] last
    by (metis add_diff_cancel_right' mset.simps(1) mset.simps(2) mset_append)
  moreover have "PopInHeap key xs = Inr (DownInHeap key 0 (butlast ys))"
    using n by (simp add: PopInHeap_def SwapInHeap_def ys_def)
  ultimately show ?thesis by auto
qed

text \<open>After the root's key has grown, sifting it down restores the heap.\<close>

lemma DownInHeap_root_raised:
  assumes "heap_ok key xs" "\<And>i. 0 < i \<Longrightarrow> i < length xs \<Longrightarrow> key' (xs ! i) = key (xs ! i)"
  shows "heap_ok key' (DownInHeap key' 0 xs) \<and> mset (DownInHeap key' 0 xs) = mset xs"
proof (rule DownInHeap_ok)
  show "heap_down_defect key' xs 0" unfolding heap_down_defect_def
  proof (intro conjI allI impI; elim conjE)
    fix i assume i: "0 < i" "i < length xs" "(i - 1) div 2 \<noteq> 0"
    then have "key' (xs ! ((i - 1) div 2)) = key (xs ! ((i - 1) div 2))"
      by (intro assms(2)) auto
    with i assms(1) assms(2) [of i] show "heap_at key' xs i"
      by (simp add: heap_ok_def heap_at_def)
  qed simp
qed

subsection \<open>The interface \<open>TimerManager\<close> uses\<close>

text \<open>
  A queue of entries whose root has the least key. The laws say what the manager
  relies on; from them follows that popping yields the entries in the order of
  their keys.
\<close>

locale min_queue =
  fixes key :: "'a \<Rightarrow> 'k::linorder" and ok :: "'h \<Rightarrow> bool" and entries :: "'h \<Rightarrow> 'a multiset"
    and root :: "'h \<Rightarrow> 'a" and push :: "'a \<Rightarrow> 'h \<Rightarrow> 'h res" and pop :: "'h \<Rightarrow> 'h res"
  assumes push_law: "ok h \<Longrightarrow> size (entries h) + 1 < size_mod \<Longrightarrow>
      \<exists>h'. push x h = Inr h' \<and> ok h' \<and> entries h' = add_mset x (entries h)"
    and pop_law: "ok h \<Longrightarrow> entries h \<noteq> {#} \<Longrightarrow> size (entries h) < size_mod \<Longrightarrow>
      \<exists>h'. pop h = Inr h' \<and> ok h' \<and> entries h' = entries h - {#root h#}"
    and root_in: "entries h \<noteq> {#} \<Longrightarrow> root h \<in># entries h"
    and root_min: "ok h \<Longrightarrow> x \<in># entries h \<Longrightarrow> key (root h) \<le> key x"
begin

lemma pop_ascends:
  assumes "ok h" "entries h \<noteq> {#}" "size (entries h) < size_mod" "pop h = Inr h'" "entries h' \<noteq> {#}"
  shows "key (root h) \<le> key (root h')"
proof -
  have "entries h' = entries h - {#root h#}" using pop_law [OF assms(1-3)] assms(4) by auto
  with root_in [OF assms(5)] have "root h' \<in># entries h" by (metis in_diffD)
  with root_min [OF assms(1)] show ?thesis by blast
qed

lemma push_pop:
  assumes "ok h" "size (entries h) + 1 < size_mod" "\<And>y. y \<in># entries h \<Longrightarrow> key x < key y"
  shows "\<exists>h'. res_bind (push x h) pop = Inr h' \<and> ok h' \<and> entries h' = entries h"
proof -
  obtain g where g: "push x h = Inr g" "ok g" "entries g = add_mset x (entries h)"
    using push_law [OF assms(1,2)] by blast
  have "root g = x"
  proof (rule ccontr)
    assume "root g \<noteq> x"
    with root_in [of g] g(3) have "root g \<in># entries h" by auto
    with assms(3) root_min [OF g(2), of x] g(3) show False by fastforce
  qed
  with pop_law [OF g(2)] g assms(2) show ?thesis by auto
qed

end

interpretation timer_heap: min_queue key "heap_ok key" mset "\<lambda>xs. xs ! 0" "PushInHeap key" "PopInHeap key"
  for key :: "'a \<Rightarrow> 'k::linorder"
proof
  show "heap_ok key xs \<Longrightarrow> size (mset xs) + 1 < size_mod \<Longrightarrow>
      \<exists>ys. PushInHeap key x xs = Inr ys \<and> heap_ok key ys \<and> mset ys = add_mset x (mset xs)" for xs x
    using PushInHeap_ok by simp
  show "heap_ok key xs \<Longrightarrow> mset xs \<noteq> {#} \<Longrightarrow> size (mset xs) < size_mod \<Longrightarrow>
      \<exists>ys. PopInHeap key xs = Inr ys \<and> heap_ok key ys \<and> mset ys = mset xs - {#xs ! 0#}" for xs
    using PopInHeap_ok by simp
  show "mset xs \<noteq> {#} \<Longrightarrow> xs ! 0 \<in># mset xs" for xs :: "'a list"
    by simp
  show "heap_ok key xs \<Longrightarrow> x \<in># mset xs \<Longrightarrow> key (xs ! 0) \<le> key x" for xs x
    by (auto simp: in_set_conv_nth intro: heap_ok_root)
qed

end
