(* ===== verification/TimeTypes.thy ===== *)
theory TimeTypes
  imports Base "HOL-Library.Signed_Division" "HOL-Library.Log_Nat"
begin

section \<open>\<open>base/Duration\<close> and \<open>base/Timestamp\<close>: time as 64-bit nanoseconds\<close>

text \<open>
  Both classes wrap one \<open>int64_t\<close>. It is an \<open>int\<close> here, every operation that
  computes a new one checks the range: a signed overflow is undefined behaviour.
  Division and remainder truncate towards zero, as in C++. Of the \<open>double\<close> valued
  conversions the one the timers use, \<open>Milliseconds\<close>, is modelled, with the
  rounding of the IEEE 754 binary64 operations.
\<close>

subsection \<open>\<open>int64_t\<close>\<close>

definition i64_min :: int where "i64_min = -9223372036854775808"

definition i64_max :: int where "i64_max = 9223372036854775807"

definition i64 :: "int \<Rightarrow> bool" where
  "i64 x \<longleftrightarrow> i64_min \<le> x \<and> x \<le> i64_max"

definition i64_res :: "int \<Rightarrow> int res" where
  "i64_res x = (if i64 x then Inr x else Inl Undefined)"

lemma i64_res_Inr_iff [res_iff]: "i64_res x = Inr y \<longleftrightarrow> i64 x \<and> y = x"
  by (auto simp: i64_res_def)

lemma i64_res_ok [simp]: "i64 x \<Longrightarrow> i64_res x = Inr x"
  by (simp add: i64_res_def)

subsection \<open>Durations\<close>

datatype duration = Duration (Nanoseconds: int)

definition kNanosecond :: int where "kNanosecond = 1"

definition kMicrosecond :: int where "kMicrosecond = 1000 * kNanosecond"

definition kMillisecond :: int where "kMillisecond = 1000 * kMicrosecond"

definition kSecond :: int where "kSecond = 1000 * kMillisecond"

definition kMinute :: int where "kMinute = 60 * kSecond"

definition kHour :: int where "kHour = 60 * kMinute"

lemmas time_units = kNanosecond_def kMicrosecond_def kMillisecond_def kSecond_def
  kMinute_def kHour_def

text \<open>\<open>struct timeval\<close>.\<close>

record timeval =
  tv_sec :: int
  tv_usec :: int

definition duration_of_timeval :: "timeval \<Rightarrow> duration res" where
  "duration_of_timeval t =
     res_bind (i64_res (tv_sec t * kSecond)) (\<lambda>s.
     res_bind (i64_res (tv_usec t * kMicrosecond)) (\<lambda>u.
     res_bind (i64_res (s + u)) (\<lambda>n. Inr (Duration n))))"

definition duration_TimeVal :: "duration \<Rightarrow> timeval" where
  "duration_TimeVal d =
     \<lparr>tv_sec = Nanoseconds d sdiv kSecond,
      tv_usec = (Nanoseconds d smod kSecond) sdiv kMicrosecond\<rparr>"

definition IsZero :: "duration \<Rightarrow> bool" where
  "IsZero d \<longleftrightarrow> Nanoseconds d = 0"

definition duration_add :: "duration \<Rightarrow> duration \<Rightarrow> duration res" where
  "duration_add d e = res_bind (i64_res (Nanoseconds d + Nanoseconds e)) (\<lambda>n. Inr (Duration n))"

definition duration_sub :: "duration \<Rightarrow> duration \<Rightarrow> duration res" where
  "duration_sub d e = res_bind (i64_res (Nanoseconds d - Nanoseconds e)) (\<lambda>n. Inr (Duration n))"

definition duration_mul :: "duration \<Rightarrow> int \<Rightarrow> duration res" where
  "duration_mul d k = res_bind (i64_res (Nanoseconds d * k)) (\<lambda>n. Inr (Duration n))"

definition duration_div :: "duration \<Rightarrow> int \<Rightarrow> duration res" where
  "duration_div d k =
     (if k = 0 then Inl Undefined
      else res_bind (i64_res (Nanoseconds d sdiv k)) (\<lambda>n. Inr (Duration n)))"

text \<open>
  \<open>Milliseconds\<close> divides in \<open>double\<close>. A non-negative finite \<open>double\<close> is \<open>m * 2 powi e\<close>,
  given as the pair of integers; \<open>dbl_quot a b\<close> is the one nearest to \<open>a / b\<close>, ties
  to even, with a 53-bit significand (the range of the exponent is never left
  here). \<open>Milliseconds_int\<close> is \<open>static_cast<int64_t>(d.Milliseconds())\<close>.
\<close>

definition round_even :: "int \<Rightarrow> int \<Rightarrow> int" where
  "round_even a b =
     (let q = a div b; r = a mod b in
      if 2 * r < b \<or> (2 * r = b \<and> even q) then q else q + 1)"

fun dbl_scale :: "int \<Rightarrow> int \<Rightarrow> int \<Rightarrow> int \<times> int" where
  "dbl_scale a b e = (if 0 \<le> e then (a, b * 2 ^ nat e) else (a * 2 ^ nat (- e), b))"

definition dbl_quot :: "int \<Rightarrow> int \<Rightarrow> int \<times> int" where
  "dbl_quot a b =
     (if a = 0 then (0, 0)
      else
        let e0 = bitlen a - bitlen b - 53;
            (x0, y0) = dbl_scale a b e0;
            e = (if 2 ^ 53 \<le> x0 div y0 then e0 + 1 else e0);
            (x, y) = dbl_scale a b e
        in (round_even x y, e))"

fun dbl_trunc :: "int \<times> int \<Rightarrow> int" where
  "dbl_trunc (m, e) = (if 0 \<le> e then m * 2 ^ nat e else m div 2 ^ nat (- e))"

definition Milliseconds_int :: "duration \<Rightarrow> int" where
  "Milliseconds_int d =
     sgn (Nanoseconds d) *
     (let (m, e) = dbl_quot \<bar>Nanoseconds d\<bar> 1; (a, b) = dbl_scale m kMillisecond (- e) in
      dbl_trunc (dbl_quot a b))"

text \<open>The comparison operators; they make the type a linear order.\<close>

definition duration_less :: "duration \<Rightarrow> duration \<Rightarrow> bool" where
  "duration_less d e \<longleftrightarrow> Nanoseconds d < Nanoseconds e"

definition duration_less_eq :: "duration \<Rightarrow> duration \<Rightarrow> bool" where
  "duration_less_eq d e \<longleftrightarrow> Nanoseconds d \<le> Nanoseconds e"

definition duration_greater :: "duration \<Rightarrow> duration \<Rightarrow> bool" where
  "duration_greater d e \<longleftrightarrow> Nanoseconds d > Nanoseconds e"

definition duration_greater_eq :: "duration \<Rightarrow> duration \<Rightarrow> bool" where
  "duration_greater_eq d e \<longleftrightarrow> Nanoseconds d \<ge> Nanoseconds e"

definition duration_equal :: "duration \<Rightarrow> duration \<Rightarrow> bool" where
  "duration_equal d e \<longleftrightarrow> Nanoseconds d = Nanoseconds e"

definition duration_not_equal :: "duration \<Rightarrow> duration \<Rightarrow> bool" where
  "duration_not_equal d e \<longleftrightarrow> Nanoseconds d \<noteq> Nanoseconds e"

instantiation duration :: linorder
begin

definition less_eq_duration :: "duration \<Rightarrow> duration \<Rightarrow> bool" where
  "less_eq_duration = duration_less_eq"

definition less_duration :: "duration \<Rightarrow> duration \<Rightarrow> bool" where
  "less_duration = duration_less"

instance
  by standard (auto simp: less_eq_duration_def less_duration_def duration_less_def duration_less_eq_def duration.expand)

end

lemma duration_order: "(d :: duration) \<le> e \<longleftrightarrow> Nanoseconds d \<le> Nanoseconds e" "d < e \<longleftrightarrow> Nanoseconds d < Nanoseconds e"
  by (simp_all add: less_eq_duration_def less_duration_def duration_less_def duration_less_eq_def)

text \<open>The other four operators are those of the same order.\<close>

lemma duration_operators: "duration_greater d e \<longleftrightarrow> e < d" "duration_greater_eq d e \<longleftrightarrow> e \<le> d"
  "duration_equal d e \<longleftrightarrow> d = e" "duration_not_equal d e \<longleftrightarrow> d \<noteq> e"
  by (auto simp: duration_order duration_greater_def duration_greater_eq_def duration_equal_def duration_not_equal_def duration.expand)

subsection \<open>Timestamps\<close>

datatype timestamp = Timestamp (nanosecond: int)

definition timestamp_of_timeval :: "timeval \<Rightarrow> timestamp res" where
  "timestamp_of_timeval t =
     res_bind (i64_res (tv_sec t * kSecond)) (\<lambda>s.
     res_bind (i64_res (tv_usec t * kMicrosecond)) (\<lambda>u.
     res_bind (i64_res (s + u)) (\<lambda>n. Inr (Timestamp n))))"

text \<open>\<open>Now\<close> reads \<open>gettimeofday\<close>, whose answer is the argument.\<close>

definition Now :: "timeval \<Rightarrow> timestamp res" where
  "Now t = timestamp_of_timeval t"

definition timestamp_TimeVal :: "timestamp \<Rightarrow> timeval" where
  "timestamp_TimeVal t =
     \<lparr>tv_sec = nanosecond t sdiv kSecond,
      tv_usec = (nanosecond t smod kSecond) sdiv kMicrosecond\<rparr>"

definition UnixNano :: "timestamp \<Rightarrow> int" where
  "UnixNano t = nanosecond t sdiv kNanosecond"

definition UnixMicro :: "timestamp \<Rightarrow> int" where
  "UnixMicro t = nanosecond t sdiv kMicrosecond"

definition UnixMilli :: "timestamp \<Rightarrow> int" where
  "UnixMilli t = nanosecond t sdiv kMillisecond"

definition Unix :: "timestamp \<Rightarrow> int" where
  "Unix t = nanosecond t sdiv kSecond"

definition timestamp_add :: "timestamp \<Rightarrow> duration \<Rightarrow> timestamp res" where
  "timestamp_add t d = res_bind (i64_res (nanosecond t + Nanoseconds d)) (\<lambda>n. Inr (Timestamp n))"

definition timestamp_sub :: "timestamp \<Rightarrow> duration \<Rightarrow> timestamp res" where
  "timestamp_sub t d = res_bind (i64_res (nanosecond t - Nanoseconds d)) (\<lambda>n. Inr (Timestamp n))"

definition timestamp_diff :: "timestamp \<Rightarrow> timestamp \<Rightarrow> duration res" where
  "timestamp_diff t u = res_bind (i64_res (nanosecond t - nanosecond u)) (\<lambda>n. Inr (Duration n))"

text \<open>The comparison operators.\<close>

definition timestamp_less :: "timestamp \<Rightarrow> timestamp \<Rightarrow> bool" where
  "timestamp_less t u \<longleftrightarrow> nanosecond t < nanosecond u"

definition timestamp_less_eq :: "timestamp \<Rightarrow> timestamp \<Rightarrow> bool" where
  "timestamp_less_eq t u \<longleftrightarrow> nanosecond t \<le> nanosecond u"

definition timestamp_greater :: "timestamp \<Rightarrow> timestamp \<Rightarrow> bool" where
  "timestamp_greater t u \<longleftrightarrow> nanosecond t > nanosecond u"

definition timestamp_greater_eq :: "timestamp \<Rightarrow> timestamp \<Rightarrow> bool" where
  "timestamp_greater_eq t u \<longleftrightarrow> nanosecond t \<ge> nanosecond u"

definition timestamp_equal :: "timestamp \<Rightarrow> timestamp \<Rightarrow> bool" where
  "timestamp_equal t u \<longleftrightarrow> nanosecond t = nanosecond u"

definition timestamp_not_equal :: "timestamp \<Rightarrow> timestamp \<Rightarrow> bool" where
  "timestamp_not_equal t u \<longleftrightarrow> nanosecond t \<noteq> nanosecond u"

instantiation timestamp :: linorder
begin

definition less_eq_timestamp :: "timestamp \<Rightarrow> timestamp \<Rightarrow> bool" where
  "less_eq_timestamp = timestamp_less_eq"

definition less_timestamp :: "timestamp \<Rightarrow> timestamp \<Rightarrow> bool" where
  "less_timestamp = timestamp_less"

instance
  by standard (auto simp: less_eq_timestamp_def less_timestamp_def timestamp_less_def timestamp_less_eq_def timestamp.expand)

end

lemma timestamp_order: "(t :: timestamp) \<le> u \<longleftrightarrow> nanosecond t \<le> nanosecond u" "t < u \<longleftrightarrow> nanosecond t < nanosecond u"
  by (simp_all add: less_eq_timestamp_def less_timestamp_def timestamp_less_def timestamp_less_eq_def)

text \<open>The other four operators are those of the same order.\<close>

lemma timestamp_operators: "timestamp_greater t u \<longleftrightarrow> u < t" "timestamp_greater_eq t u \<longleftrightarrow> u \<le> t"
  "timestamp_equal t u \<longleftrightarrow> t = u" "timestamp_not_equal t u \<longleftrightarrow> t \<noteq> u"
  by (auto simp: timestamp_order timestamp_greater_def timestamp_greater_eq_def timestamp_equal_def timestamp_not_equal_def timestamp.expand)

lemmas time_order = timestamp_order duration_order

lemma timestamp_add_Inr_iff [res_iff]:
  "timestamp_add t d = Inr u \<longleftrightarrow>
     i64 (nanosecond t + Nanoseconds d) \<and> u = Timestamp (nanosecond t + Nanoseconds d)"
  by (auto simp: timestamp_add_def res_iff)

lemma timestamp_diff_Inr_iff [res_iff]:
  "timestamp_diff t u = Inr d \<longleftrightarrow>
     i64 (nanosecond t - nanosecond u) \<and> d = Duration (nanosecond t - nanosecond u)"
  by (auto simp: timestamp_diff_def res_iff)

subsection \<open>Truncating division\<close>

lemma smod_sgn: "(n::int) smod k = sgn n * (\<bar>n\<bar> mod \<bar>k\<bar>)"
  by (fact smod_int_alt_def)

lemma smod_nonneg: "0 \<le> n \<Longrightarrow> 0 < k \<Longrightarrow> (n::int) smod k = n mod k"
  by (auto simp: smod_sgn sgn_if)

lemma smod_nonpos: "n \<le> 0 \<Longrightarrow> 0 < k \<Longrightarrow> (n::int) smod k = - ((- n) mod k)"
  by (auto simp: smod_sgn sgn_if)

lemma smod_smod_dvd: "0 < k \<Longrightarrow> k dvd l \<Longrightarrow> 0 < l \<Longrightarrow> (n::int) smod l smod k = n smod k"
  by (cases "0 \<le> n") (simp_all add: smod_nonneg smod_nonpos mod_mod_cancel)

text \<open>The remainder has the sign of the dividend and is no larger.\<close>

lemma smod_between:
  assumes "0 < (k::int)"
  shows "0 \<le> n \<Longrightarrow> 0 \<le> n smod k \<and> n smod k \<le> n" "n \<le> 0 \<Longrightarrow> n \<le> n smod k \<and> n smod k \<le> 0"
    "\<bar>n smod k\<bar> < k"
proof -
  show "0 \<le> n smod k \<and> n smod k \<le> n" if "0 \<le> n"
    using that assms by (auto simp: smod_sgn sgn_if zmod_le_nonneg_dividend)
  show "n \<le> n smod k \<and> n smod k \<le> 0" if "n \<le> 0"
    using that assms zmod_le_nonneg_dividend [of "- n" k] by (auto simp: smod_sgn sgn_if)
  show "\<bar>n smod k\<bar> < k"
    using assms by (auto simp: smod_sgn abs_mult sgn_if)
qed

subsection \<open>The rounding of \<open>Milliseconds\<close>\<close>

lemma round_even_ge: "0 < b \<Longrightarrow> z * b \<le> a \<Longrightarrow> z \<le> round_even a b"
proof -
  assume "0 < b" "z * b \<le> a"
  then have "z \<le> a div b" using zdiv_mono1 [of "z * b" a b] by simp
  then show ?thesis by (simp add: round_even_def Let_def)
qed

lemma round_even_less: "0 < b \<Longrightarrow> 2 * a + b < 2 * (z * b) \<Longrightarrow> round_even a b < z"
proof -
  assume b: "0 < b" and less: "2 * a + b < 2 * (z * b)"
  define q r where "q = a div b" and "r = a mod b"
  have a: "a = q * b + r" and r: "0 \<le> r" "r < b" using b by (simp_all add: q_def r_def)
  have "q < z"
  proof (rule ccontr)
    assume "\<not> q < z"
    then have "z * b \<le> q * b" using b by simp
    with less a r b show False by linarith
  qed
  moreover have "q + 1 < z" if "b \<le> 2 * r"
  proof (rule ccontr)
    assume "\<not> q + 1 < z"
    then have "z * b \<le> (q + 1) * b" using b by simp
    then have "z * b \<le> q * b + b" by (simp add: algebra_simps)
    with less a that show False by linarith
  qed
  ultimately show ?thesis by (auto simp: round_even_def Let_def q_def [symmetric] r_def [symmetric])
qed

lemma bitlen_pos: "0 < a \<Longrightarrow> 2 ^ (nat (bitlen a) - 1) \<le> a \<and> a < 2 ^ nat (bitlen a) \<and> 0 < bitlen a"
  using bitlen_bounds [of a] bitlen_eq_zero_iff [of a] bitlen_nonneg [of a]
  by (simp add: nat_diff_distrib less_le)

lemma bitlen_unique:
  assumes "2 ^ c \<le> (a::int)" "a < 2 ^ Suc c"
  shows "bitlen a = int (Suc c)"
proof -
  have "0 < a" using assms(1) by (rule less_le_trans [rotated]) simp
  note b = bitlen_pos [OF this]
  have "(2::int) ^ (nat (bitlen a) - 1) < 2 ^ Suc c" "(2::int) ^ c < 2 ^ nat (bitlen a)"
    using b assms by linarith+
  then have "nat (bitlen a) - 1 < Suc c" "c < nat (bitlen a)"
    by (auto dest: power_less_imp_less_exp [rotated] simp del: power_Suc)
  with b show ?thesis by linarith
qed

lemma dbl_quot_small:
  assumes "0 < a" "a < 2 ^ 53"
  shows "\<exists>k. 0 \<le> k \<and> dbl_quot a 1 = (a * 2 ^ k, - int k) \<and> 2 ^ 52 \<le> a * 2 ^ k \<and> a * 2 ^ k < 2 ^ 53"
proof -
  define b where "b = nat (bitlen a)"
  have b: "2 ^ (b - 1) \<le> a" "a < 2 ^ b" "0 < b" "bitlen a = int b"
    using bitlen_pos [OF assms(1)] by (simp_all add: b_def)
  have "b \<le> 53"
  proof (rule ccontr)
    assume "\<not> b \<le> 53"
    then have "(2::int) ^ 53 \<le> 2 ^ (b - 1)" by (intro power_increasing) auto
    with b(1) assms(2) show False by simp
  qed
  define k where "k = 53 - b"
  have k: "b = 53 - k" "k \<le> 52" using \<open>b \<le> 53\<close> b(3) by (simp_all add: k_def)
  have lo: "(2::int) ^ 52 \<le> a * 2 ^ k"
    using mult_right_mono [OF b(1), of "2 ^ k"] k by (simp flip: power_add)
  have hi: "a * 2 ^ k < 2 ^ 53"
    using mult_strict_right_mono [OF b(2), of "2 ^ k"] k by (simp flip: power_add)
  have one: "bitlen 1 = 1" by (subst compute_bitlen) simp
  have e0: "bitlen a - bitlen 1 - 53 = - int (Suc k)" "nat (1 + int k) = Suc k" "nat (int k + 1) = Suc k"
    using b(4) k one by simp_all
  have "2 ^ 53 \<le> a * 2 ^ Suc k" using lo by simp
  then have "dbl_quot a 1 = (a * 2 ^ k, - int k)"
    using assms(1) e0 by (simp add: dbl_quot_def Let_def round_even_def)
  with lo hi show ?thesis by blast
qed

lemma Milliseconds_exact:
  assumes "0 \<le> n" "n < 2 ^ 53"
  shows "Milliseconds_int (Duration n) = n div kMillisecond"
proof (cases "n = 0")
  case False
  with assms obtain k where k: "dbl_quot n 1 = (n * 2 ^ k, - int k)"
      "2 ^ 52 \<le> n * 2 ^ k" "n * 2 ^ k < 2 ^ 53"
    using dbl_quot_small [of n] by auto
  define a where "a = n * 2 ^ k"
  define b :: int where "b = 1000000 * 2 ^ k"
  have ab: "0 < a" "0 < b" using k(2) by (simp_all add: a_def b_def)
  have "bitlen a = 53" using bitlen_unique [of 52 a] k(2,3) by (simp add: a_def)
  moreover have "bitlen b = 20 + int k"
    using bitlen_unique [of 19 1000000] by (simp add: b_def)
  ultimately have e0: "bitlen a - bitlen b - 53 = - int (20 + k)" by simp
  define e :: nat where "e = (if 2 ^ 53 \<le> a * 2 ^ (20 + k) div b then 19 + k else 20 + k)"
  have shift: "- int (20 + k) + 1 = - int (19 + k)" "nat (int (20 + k) - 1) = 19 + k" by simp_all
  have "dbl_quot a b = (round_even (a * 2 ^ e) b, - int e)" "19 \<le> e"
    using ab e0 shift by (auto simp: dbl_quot_def Let_def e_def nat_add_distrib simp del: of_nat_add)
  note e = this
  define q where "q = n div 1000000"
  have q: "q * 1000000 \<le> n" "n < (q + 1) * 1000000" by (simp_all add: q_def)
  have "q * 2 ^ e \<le> round_even (a * 2 ^ e) b"
  proof (rule round_even_ge [OF ab(2)])
    show "q * 2 ^ e * b \<le> a * 2 ^ e"
      using mult_right_mono [OF q(1), of "2 ^ e * 2 ^ k"] by (simp add: a_def b_def ac_simps)
  qed
  moreover have "round_even (a * 2 ^ e) b < (q + 1) * 2 ^ e"
  proof (rule round_even_less [OF ab(2)])
    have "(2::int) ^ 19 \<le> 2 ^ e" using e(2) by (intro power_increasing) auto
    then have half: "1000000 < 2 * (2::int) ^ e" by simp
    have "n + 1 \<le> (q + 1) * 1000000" using q(2) by simp
    then have "(n + 1) * (2 * 2 ^ e) \<le> (q + 1) * 1000000 * (2 * 2 ^ e)"
      by (intro mult_right_mono) auto
    with half have "2 * n * 2 ^ e + 1000000 < 2 * (q + 1) * 1000000 * 2 ^ e"
      by (simp add: algebra_simps)
    then have "(2 * n * 2 ^ e + 1000000) * 2 ^ k < 2 * (q + 1) * 1000000 * 2 ^ e * 2 ^ k" by simp
    then show "2 * (a * 2 ^ e) + b < 2 * ((q + 1) * 2 ^ e * b)"
      by (simp add: a_def b_def algebra_simps)
  qed
  ultimately have "round_even (a * 2 ^ e) b div 2 ^ e = q"
    by (intro int_div_pos_eq [of _ _ _ "round_even (a * 2 ^ e) b - q * 2 ^ e"]) (auto simp: algebra_simps)
  with k(1) e False assms(1) show ?thesis
    by (simp add: Milliseconds_int_def a_def [symmetric] b_def [symmetric] q_def time_units)
qed (simp add: Milliseconds_int_def dbl_quot_def kMillisecond_def)

subsection \<open>Properties\<close>

text \<open>
  Converting a timestamp to a \<open>timeval\<close> and back never overflows and loses only
  what is below a microsecond, rounding towards the epoch: the result differs by
  less than a microsecond, is never farther from the epoch, and is the timestamp
  itself when that is a whole number of microseconds.
\<close>

lemma timestamp_timeval_roundtrip:
  assumes "i64 (nanosecond t)"
  shows "timestamp_of_timeval (timestamp_TimeVal t) =
           Inr (Timestamp (nanosecond t - nanosecond t smod kMicrosecond)) \<and>
         \<bar>nanosecond t smod kMicrosecond\<bar> < kMicrosecond"
proof -
  define n where "n = nanosecond t"
  define m where "m = n smod 1000000000"
  have sec: "n sdiv 1000000000 * 1000000000 = n - m"
    and usec: "m sdiv 1000 * 1000 = m - m smod 1000"
    by (simp_all only: m_def minus_smod_eq_sdiv_mult)
  have cancel: "m smod 1000 = n smod 1000" by (simp add: m_def smod_smod_dvd)
  have "i64 (n - m)" "i64 (m - n smod 1000)" "i64 (n - n smod 1000)"
    using assms smod_between [of 1000000000 n] smod_between [of 1000 m] smod_between [of 1000 n] cancel
    by (cases "0 \<le> n"; simp add: n_def [symmetric] m_def [symmetric] i64_def i64_min_def i64_max_def)+
  with sec usec cancel smod_between(3) [of 1000 n] show ?thesis
    by (simp add: timestamp_of_timeval_def timestamp_TimeVal_def time_units
        n_def [symmetric] m_def [symmetric])
qed

end
