(* ===== verification/Timers.thy ===== *)
theory Timers
  imports TimerHeap TimeTypes
begin

section \<open>\<open>net/Timer\<close>: timers and the timer manager of an event loop\<close>

text \<open>
  A \<open>Timer\<close> is a shared object, held by the heap of the manager (and, before it
  gets there, by the functor that will push it) and observed by \<open>TimerId\<close>s through
  weak pointers. Objects live in an explicit store, a map from addresses: an
  address outside its domain is an expired weak pointer, and popping a timer from
  the heap frees it. Callbacks are user code; \<open>'f\<close> is the type of their closures,
  and what running one does to the manager is a parameter.
\<close>

subsection \<open>Timers\<close>

record 'f timer =
  timer_cb :: 'f
  timer_when :: timestamp
  timer_interval :: duration
  timer_repeat :: bool
  timer_canceled :: bool

definition new_timer :: "'f \<Rightarrow> timestamp \<Rightarrow> duration \<Rightarrow> 'f timer" where
  "new_timer cb when interval =
     \<lparr>timer_cb = cb, timer_when = when, timer_interval = interval,
      timer_repeat = (\<not> IsZero interval), timer_canceled = False\<rparr>"

definition Restart :: "timestamp \<Rightarrow> 'f timer \<Rightarrow> 'f timer res" where
  "Restart when t =
     (if timer_repeat t then
        res_bind (timestamp_add when (timer_interval t)) (\<lambda>w. Inr (t\<lparr>timer_when := w\<rparr>))
      else Inr (t\<lparr>timer_when := Timestamp 0\<rparr>))"

definition timer_Cancel :: "'f timer \<Rightarrow> 'f timer res" where
  "timer_Cancel t = assert_then (\<not> timer_canceled t) (Inr (t\<lparr>timer_canceled := True\<rparr>))"

record timer_id =
  id_when :: timestamp
  id_timer :: nat

subsection \<open>The manager\<close>

text \<open>\<open>mgr_timer_num\<close> is the static counter of live timers, \<open>mgr_next\<close> the next free address.\<close>

record 'f timer_mgr =
  mgr_heap :: "nat list"
  mgr_timers :: "nat \<rightharpoonup> 'f timer"
  mgr_next :: nat
  mgr_timer_num :: int

definition new_mgr :: "'f timer_mgr" where
  "new_mgr = \<lparr>mgr_heap = [], mgr_timers = Map.empty, mgr_next = 0, mgr_timer_num = 0\<rparr>"

definition when_of :: "('f, 'z) timer_mgr_scheme \<Rightarrow> nat \<Rightarrow> timestamp" where
  "when_of m a = (case mgr_timers m a of Some t \<Rightarrow> timer_when t | None \<Rightarrow> Timestamp 0)"

definition Expired :: "timer_id \<Rightarrow> ('f, 'z) timer_mgr_scheme \<Rightarrow> bool" where
  "Expired i m \<longleftrightarrow> mgr_timers m (id_timer i) = None"

definition make_timer :: "'f timer \<Rightarrow> ('f, 'z) timer_mgr_scheme \<Rightarrow> nat \<times> ('f, 'z) timer_mgr_scheme" where
  "make_timer t m =
     (mgr_next m, m\<lparr>mgr_timers := (mgr_timers m)(mgr_next m \<mapsto> t), mgr_next := Suc (mgr_next m),
                    mgr_timer_num := mgr_timer_num m + 1\<rparr>)"

definition PushTimer :: "nat \<Rightarrow> ('f, 'z) timer_mgr_scheme \<Rightarrow> ('f, 'z) timer_mgr_scheme res" where
  "PushTimer a m =
     res_bind (PushInHeap (when_of m) a (mgr_heap m)) (\<lambda>h. Inr (m\<lparr>mgr_heap := h\<rparr>))"

definition PopTimer :: "('f, 'z) timer_mgr_scheme \<Rightarrow> ('f, 'z) timer_mgr_scheme res" where
  "PopTimer m =
     res_bind (PopInHeap (when_of m) (mgr_heap m)) (\<lambda>h.
     Inr (m\<lparr>mgr_heap := h, mgr_timers := (mgr_timers m)(mgr_heap m ! 0 := None),
            mgr_timer_num := mgr_timer_num m - 1\<rparr>))"

text \<open>
  \<open>AddTimer\<close> and \<open>Cancel\<close> hand a functor to \<open>RunInLoop\<close>: in the loop's own thread it
  runs at once, from another thread it is queued for the loop.
\<close>

datatype timer_task = Push_task nat | Cancel_task timer_id

fun run_timer_task :: "timer_task \<Rightarrow> ('f, 'z) timer_mgr_scheme \<Rightarrow> ('f, 'z) timer_mgr_scheme res" where
  "run_timer_task (Push_task a) m = PushTimer a m"
| "run_timer_task (Cancel_task i) m =
     (if Expired i m then Inr m
      else case mgr_timers m (id_timer i) of
             None \<Rightarrow> Inl Undefined
           | Some t \<Rightarrow> res_bind (timer_Cancel t) (\<lambda>t'.
               Inr (m\<lparr>mgr_timers := (mgr_timers m)(id_timer i \<mapsto> t')\<rparr>)))"

definition timer_RunInLoop ::
  "bool \<Rightarrow> timer_task \<Rightarrow> ('f, 'z) timer_mgr_scheme \<Rightarrow> (timer_task list \<times> ('f, 'z) timer_mgr_scheme) res" where
  "timer_RunInLoop in_loop x m =
     (if in_loop then res_bind (run_timer_task x m) (\<lambda>m'. Inr ([], m')) else Inr ([x], m))"

definition AddTimer :: "bool \<Rightarrow> 'f \<Rightarrow> timestamp \<Rightarrow> duration \<Rightarrow> ('f, 'z) timer_mgr_scheme \<Rightarrow>
    (timer_id \<times> timer_task list \<times> ('f, 'z) timer_mgr_scheme) res" where
  "AddTimer in_loop cb when interval m =
     (let (a, m1) = make_timer (new_timer cb when interval) m in
      res_bind (timer_RunInLoop in_loop (Push_task a) m1) (\<lambda>(queued, m2).
      Inr (\<lparr>id_when = when, id_timer = a\<rparr>, queued, m2)))"

definition Cancel :: "bool \<Rightarrow> timer_id \<Rightarrow> ('f, 'z) timer_mgr_scheme \<Rightarrow> (timer_task list \<times> ('f, 'z) timer_mgr_scheme) res" where
  "Cancel in_loop i m = timer_RunInLoop in_loop (Cancel_task i) m"

text \<open>
  \<open>HandleExpired\<close>. \<open>now\<close> is read once, before the loop. \<open>env cb m\<close> is the callback
  \<open>cb\<close> run on the manager and the clock read after it; the addresses whose
  callbacks ran are returned in order. The loop has no bound in the source (a
  callback may always add a timer that is due), so it takes fuel.
\<close>

type_synonym ('f, 'z) timer_env =
  "'f \<Rightarrow> ('f, 'z) timer_mgr_scheme \<Rightarrow> (('f, 'z) timer_mgr_scheme \<times> timestamp) res"

definition RestartTimer :: "nat \<Rightarrow> timestamp \<Rightarrow> ('f, 'z) timer_mgr_scheme \<Rightarrow> ('f, 'z) timer_mgr_scheme res" where
  "RestartTimer a when m =
     (case mgr_timers m a of
        None \<Rightarrow> Inl Undefined
      | Some t \<Rightarrow>
          res_bind (Restart when t) (\<lambda>t'.
          let m' = m\<lparr>mgr_timers := (mgr_timers m)(a \<mapsto> t')\<rparr> in
          Inr (m'\<lparr>mgr_heap := DownInHeap (when_of m') 0 (mgr_heap m')\<rparr>)))"

fun HandleExpired :: "nat \<Rightarrow> ('f, 'z) timer_env \<Rightarrow> timestamp \<Rightarrow> ('f, 'z) timer_mgr_scheme \<Rightarrow>
    (nat list \<times> ('f, 'z) timer_mgr_scheme) res" where
  "HandleExpired 0 env now m = Inl Out_of_fuel"
| "HandleExpired (Suc fuel) env now m =
     (if mgr_heap m = [] then Inr ([], m)
      else
        let a = mgr_heap m ! 0 in
        case mgr_timers m a of
          None \<Rightarrow> Inl Undefined
        | Some t \<Rightarrow>
            if timer_canceled t then
              res_bind (PopTimer m) (HandleExpired fuel env now)
            else if timer_when t \<le> now then
              res_bind (env (timer_cb t) m) (\<lambda>(m1, clock).
              res_bind (if timer_repeat t then RestartTimer a clock m1 else PopTimer m1) (\<lambda>m2.
              res_bind (HandleExpired fuel env now m2) (\<lambda>(ran, m3). Inr (a # ran, m3))))
            else Inr ([], m))"

text \<open>
  \<open>NextTimeout\<close>: the time in milliseconds until the root expires, 0 when it is past,
  \<open>INT64_MAX\<close> when there is none. The quotient is that of the source's \<open>double\<close>.
\<close>

definition NextTimeout :: "timestamp \<Rightarrow> ('f, 'z) timer_mgr_scheme \<Rightarrow> int res" where
  "NextTimeout now m =
     (if mgr_heap m = [] then Inr i64_max
      else
        res_bind (timestamp_diff (when_of m (mgr_heap m ! 0)) now) (\<lambda>timeout.
        Inr (if timeout < Duration 0 then 0 else Milliseconds_int timeout)))"

subsection \<open>The invariant\<close>

definition mgr_ok :: "('f, 'z) timer_mgr_scheme \<Rightarrow> bool" where
  "mgr_ok m \<longleftrightarrow>
     heap_ok (when_of m) (mgr_heap m) \<and> distinct (mgr_heap m) \<and>
     set (mgr_heap m) \<subseteq> dom (mgr_timers m) \<and> dom (mgr_timers m) \<subseteq> {..<mgr_next m} \<and>
     mgr_next m < size_mod \<and> mgr_timer_num m = int (card (dom (mgr_timers m)))"

definition due :: "timestamp \<Rightarrow> ('f, 'z) timer_mgr_scheme \<Rightarrow> nat set" where
  "due now m = {a \<in> set (mgr_heap m). when_of m a \<le> now}"

lemma heap_ok_cong:
  assumes "\<And>x. x \<in> set xs \<Longrightarrow> key x = key' x"
  shows "heap_ok key xs = heap_ok key' xs"
proof -
  have "heap_at key xs i = heap_at key' xs i" if "0 < i" "i < length xs" for i
    using that assms [of "xs ! ((i - 1) div 2)"] assms [of "xs ! i"] by (simp add: heap_at_def)
  then show ?thesis by (auto simp: heap_ok_def)
qed

lemma mgr_okD:
  assumes "mgr_ok m"
  shows "heap_ok (when_of m) (mgr_heap m)" "distinct (mgr_heap m)"
    "set (mgr_heap m) \<subseteq> dom (mgr_timers m)" "dom (mgr_timers m) \<subseteq> {..<mgr_next m}"
    "mgr_next m < size_mod" "mgr_timer_num m = int (card (dom (mgr_timers m)))"
    "finite (dom (mgr_timers m))"
  using assms finite_subset [of "dom (mgr_timers m)" "{..<mgr_next m}"] by (auto simp: mgr_ok_def)

lemma mgr_ok_length: "mgr_ok m \<Longrightarrow> length (mgr_heap m) \<le> mgr_next m"
proof -
  assume "mgr_ok m"
  note ok = mgr_okD [OF this]
  have "card (set (mgr_heap m)) \<le> card {..<mgr_next m}"
    using ok(3,4) by (intro card_mono) auto
  with ok(2) show ?thesis by (simp add: distinct_card)
qed

lemma new_mgr_ok: "mgr_ok new_mgr"
  by (simp add: mgr_ok_def new_mgr_def heap_ok_def size_mod_def)

lemma mgr_ok_root:
  assumes "mgr_ok m" "mgr_heap m \<noteq> []"
  shows "\<exists>t. mgr_timers m (mgr_heap m ! 0) = Some t" "mgr_heap m ! 0 \<in> set (mgr_heap m)"
    "\<And>a. a \<in> set (mgr_heap m) \<Longrightarrow> when_of m (mgr_heap m ! 0) \<le> when_of m a"
proof -
  show "mgr_heap m ! 0 \<in> set (mgr_heap m)" using assms(2) by simp
  then show "\<exists>t. mgr_timers m (mgr_heap m ! 0) = Some t" using mgr_okD(3) [OF assms(1)] by blast
  show "when_of m (mgr_heap m ! 0) \<le> when_of m a" if "a \<in> set (mgr_heap m)" for a
    using that heap_ok_root [OF mgr_okD(1) [OF assms(1)]] by (auto simp: in_set_conv_nth)
qed

lemma mset_distinct_iff:
  "mset ys = add_mset x (mset xs) \<Longrightarrow> x \<notin> set xs \<Longrightarrow> distinct xs \<Longrightarrow> distinct ys \<and> set ys = insert x (set xs)"
proof -
  assume h: "mset ys = add_mset x (mset xs)" "x \<notin> set xs" "distinct xs"
  then have "mset ys = mset (x # xs)" by simp
  then show ?thesis using h mset_eq_setD [of ys "x # xs"] mset_eq_imp_distinct_iff [of ys "x # xs"] by simp
qed

lemma mset_distinct_minus:
  "mset ys = mset xs - {#x#} \<Longrightarrow> x \<in> set xs \<Longrightarrow> distinct xs \<Longrightarrow>
   distinct ys \<and> set ys = set xs - {x} \<and> length ys = length xs - 1"
proof -
  assume h: "mset ys = mset xs - {#x#}" "x \<in> set xs" "distinct xs"
  then have "mset ys = mset (remove1 x xs)" by simp
  then show ?thesis
    using h mset_eq_setD [of ys "remove1 x xs"] mset_eq_imp_distinct_iff [of ys "remove1 x xs"]
      mset_eq_length [of ys "remove1 x xs"] by (simp add: length_remove1)
qed

lemma PopTimer_ok:
  assumes "mgr_ok m" "mgr_heap m \<noteq> []"
  shows "\<exists>m'. PopTimer m = Inr m' \<and> mgr_ok m' \<and> length (mgr_heap m') < length (mgr_heap m) \<and>
    set (mgr_heap m') = set (mgr_heap m) - {mgr_heap m ! 0} \<and>
    mgr_timers m' = (mgr_timers m)(mgr_heap m ! 0 := None) \<and> mgr_next m' = mgr_next m"
proof -
  note ok = mgr_okD [OF assms(1)] and root = mgr_ok_root [OF assms]
  define a where "a = mgr_heap m ! 0"
  have a: "a \<in> set (mgr_heap m)" "a \<in> dom (mgr_timers m)" using root(1,2) by (auto simp: a_def)
  obtain h where h: "PopInHeap (when_of m) (mgr_heap m) = Inr h" "heap_ok (when_of m) h"
      "mset h = mset (mgr_heap m) - {#a#}"
    using timer_heap.pop_law [OF ok(1)] assms(2) mgr_ok_length [OF assms(1)] ok(5)
    by (auto simp: a_def)
  note set = mset_distinct_minus [OF h(3) a(1) ok(2)]
  define m' where "m' = m\<lparr>mgr_heap := h, mgr_timers := (mgr_timers m)(a := None),
    mgr_timer_num := mgr_timer_num m - 1\<rparr>"
  have "heap_ok (when_of m') h"
    using h(2) set by (subst heap_ok_cong [of _ _ "when_of m"]) (auto simp: when_of_def m'_def)
  moreover have "card (dom (mgr_timers m) - {a}) = card (dom (mgr_timers m)) - 1"
    "card (dom (mgr_timers m)) > 0"
    using ok(7) a(2) by (auto simp: card_gt_0_iff)
  ultimately have "mgr_ok m'"
    using ok set by (auto simp: mgr_ok_def m'_def)
  with h(1) set assms(2) show ?thesis
    by (auto simp: PopTimer_def m'_def a_def)
qed

lemma when_of_upd: "when_of (m\<lparr>mgr_timers := (mgr_timers m)(a \<mapsto> t)\<rparr>) b =
    (if b = a then timer_when t else when_of m b)"
  by (simp add: when_of_def)

lemma RestartTimer_ok:
  assumes "mgr_ok m" "mgr_heap m \<noteq> []" "mgr_timers m (mgr_heap m ! 0) = Some t" "Restart clk t = Inr t'"
  shows "\<exists>m'. RestartTimer (mgr_heap m ! 0) clk m = Inr m' \<and> mgr_ok m' \<and>
    set (mgr_heap m') = set (mgr_heap m) \<and>
    mgr_timers m' = (mgr_timers m)(mgr_heap m ! 0 \<mapsto> t') \<and> mgr_next m' = mgr_next m"
proof -
  note ok = mgr_okD [OF assms(1)]
  define a where "a = mgr_heap m ! 0"
  define m1 where "m1 = m\<lparr>mgr_timers := (mgr_timers m)(a \<mapsto> t')\<rparr>"
  define h where "h = DownInHeap (when_of m1) 0 (mgr_heap m)"
  have "mgr_heap m ! i \<noteq> a" if "0 < i" "i < length (mgr_heap m)" for i
    using that ok(2) assms(2) nth_eq_iff_index_eq [of "mgr_heap m" i 0] by (auto simp: a_def)
  then have h: "heap_ok (when_of m1) h" "mset h = mset (mgr_heap m)"
    using DownInHeap_root_raised [OF ok(1), of "when_of m1"]
    by (auto simp: h_def m1_def when_of_upd)
  have "a \<in> dom (mgr_timers m)" using assms(3) by (auto simp: a_def)
  then have dom: "dom ((mgr_timers m)(a \<mapsto> t')) = dom (mgr_timers m)" by auto
  have "when_of (m1\<lparr>mgr_heap := h\<rparr>) = when_of m1" by (simp add: when_of_def fun_eq_iff)
  then have "mgr_ok (m1\<lparr>mgr_heap := h\<rparr>)"
    using ok h mset_eq_setD [OF h(2)] mset_eq_imp_distinct_iff [OF h(2)] dom
    by (simp add: mgr_ok_def m1_def)
  then show ?thesis
    using assms(3,4) mset_eq_setD [OF h(2)]
    by (auto simp: RestartTimer_def a_def [symmetric] m1_def h_def Let_def)
qed

text \<open>A timer that is not yet in the heap: one just made, or made by another thread.\<close>

lemma PushTimer_ok:
  assumes "mgr_ok m" "a \<in> dom (mgr_timers m)" "a \<notin> set (mgr_heap m)"
  shows "\<exists>m'. PushTimer a m = Inr m' \<and> mgr_ok m' \<and>
    set (mgr_heap m') = insert a (set (mgr_heap m)) \<and>
    mgr_timers m' = mgr_timers m \<and> mgr_next m' = mgr_next m"
proof -
  note ok = mgr_okD [OF assms(1)]
  have "length (mgr_heap m) < card (dom (mgr_timers m))"
    using psubset_card_mono [of "dom (mgr_timers m)" "set (mgr_heap m)"] ok(2,3,7) assms(2,3)
    by (auto simp: distinct_card)
  also have "\<dots> \<le> card {..<mgr_next m}" using ok(4) by (intro card_mono) auto
  finally have "size (mset (mgr_heap m)) + 1 < size_mod" using ok(5) by simp
  then obtain h where h: "PushInHeap (when_of m) a (mgr_heap m) = Inr h" "heap_ok (when_of m) h"
      "mset h = add_mset a (mset (mgr_heap m))"
    using timer_heap.push_law [OF ok(1)] by blast
  note set = mset_distinct_iff [OF h(3) assms(3) ok(2)]
  have "when_of (m\<lparr>mgr_heap := h\<rparr>) = when_of m" by (simp add: when_of_def fun_eq_iff)
  then show ?thesis
    using h set ok assms(2) by (auto simp: PushTimer_def mgr_ok_def)
qed

lemma make_timer_ok:
  assumes "mgr_ok m" "mgr_next m + 1 < size_mod" "make_timer t m = (a, m')"
  shows "mgr_ok m'" "a = mgr_next m" "mgr_timers m' = (mgr_timers m)(a \<mapsto> t)"
    "mgr_heap m' = mgr_heap m" "a \<notin> dom (mgr_timers m)" "mgr_next m' = Suc (mgr_next m)"
proof -
  note ok = mgr_okD [OF assms(1)]
  have fresh: "mgr_next m \<notin> dom (mgr_timers m)" using ok(4) by auto
  then have "mgr_next m \<notin> set (mgr_heap m)" using ok(3) by blast
  then have "heap_ok (when_of m') (mgr_heap m)"
    using assms(3) ok(1) by (subst heap_ok_cong [of _ _ "when_of m"]) (auto simp: make_timer_def when_of_def)
  moreover have "dom (mgr_timers m') = insert (mgr_next m) (dom (mgr_timers m))"
    using assms(3) by (auto simp: make_timer_def)
  moreover have "card (insert (mgr_next m) (dom (mgr_timers m))) = Suc (card (dom (mgr_timers m)))"
    using ok(7) fresh by (rule card_insert_disjoint)
  moreover have "insert (mgr_next m) (dom (mgr_timers m)) \<subseteq> {..<Suc (mgr_next m)}"
    using ok(4) by fastforce
  ultimately show "mgr_ok m'"
    using assms(2,3) ok by (auto simp: mgr_ok_def make_timer_def)
qed (use assms in \<open>auto simp: make_timer_def mgr_ok_def\<close>)

subsection \<open>Expiry\<close>

text \<open>
  What a callback may do to the manager when it runs at time \<open>now\<close>: it keeps the
  invariant, and so the root; it removes no timer and may cancel only the ones in
  \<open>C\<close>; the timers it adds expire later than \<open>now\<close>; and a repeating timer has an
  interval that is positive and does not take the clock out of range.
\<close>

definition intervals_ok :: "timestamp \<Rightarrow> ('f, 'z) timer_mgr_scheme \<Rightarrow> bool" where
  "intervals_ok clk m \<longleftrightarrow>
     (\<forall>a t. mgr_timers m a = Some t \<longrightarrow> timer_repeat t \<longrightarrow>
        Duration 0 < timer_interval t \<and> i64 (nanosecond clk + Nanoseconds (timer_interval t)))"

definition callback_step :: "timestamp \<Rightarrow> nat set \<Rightarrow> ('f, 'z) timer_mgr_scheme \<Rightarrow> ('f, 'z) timer_mgr_scheme \<Rightarrow> bool" where
  "callback_step now C m m' \<longleftrightarrow>
     mgr_ok m' \<and> mgr_next m \<le> mgr_next m' \<and> mgr_heap m' ! 0 = mgr_heap m ! 0 \<and>
     set (mgr_heap m) \<subseteq> set (mgr_heap m') \<and>
     (\<forall>a t. mgr_timers m a = Some t \<longrightarrow>
        mgr_timers m' a = Some t \<or> a \<in> C \<and> mgr_timers m' a = Some (t\<lparr>timer_canceled := True\<rparr>)) \<and>
     (\<forall>a \<in> set (mgr_heap m') - set (mgr_heap m). now < when_of m' a)"

definition polite :: "('f, 'z) timer_env \<Rightarrow> timestamp \<Rightarrow> nat set \<Rightarrow> bool" where
  "polite env now C \<longleftrightarrow>
     (\<forall>cb m. mgr_ok m \<longrightarrow> mgr_heap m \<noteq> [] \<longrightarrow> when_of m (mgr_heap m ! 0) \<le> now \<longrightarrow>
        intervals_ok now m \<longrightarrow>
        (\<exists>m' clk. env cb m = Inr (m', clk) \<and> callback_step now C m m' \<and>
           now \<le> clk \<and> intervals_ok now m' \<and> intervals_ok clk m'))"

lemma callback_timer:
  "callback_step now C m m' \<Longrightarrow> mgr_timers m a = Some t \<Longrightarrow>
   mgr_timers m' a = Some t \<or> a \<in> C \<and> mgr_timers m' a = Some (t\<lparr>timer_canceled := True\<rparr>)"
  unfolding callback_step_def by blast

lemma callback_when:
  "callback_step now C m m' \<Longrightarrow> a \<in> dom (mgr_timers m) \<Longrightarrow> when_of m' a = when_of m a"
proof -
  assume "callback_step now C m m'" "a \<in> dom (mgr_timers m)"
  then obtain t where t: "mgr_timers m a = Some t" by blast
  note callback_timer [OF \<open>callback_step now C m m'\<close> t]
  with t show ?thesis by (auto simp: when_of_def)
qed

lemma callback_due:
  assumes "mgr_ok m" "callback_step now C m m'"
  shows "due now m' = due now m"
proof -
  have "when_of m' a = when_of m a" if "a \<in> set (mgr_heap m)" for a
    using that callback_when [OF assms(2)] mgr_okD(3) [OF assms(1)] by blast
  moreover have "set (mgr_heap m) \<subseteq> set (mgr_heap m')"
    "\<And>a. a \<in> set (mgr_heap m') \<Longrightarrow> a \<notin> set (mgr_heap m) \<Longrightarrow> \<not> when_of m' a \<le> now"
    using assms(2) by (simp_all add: callback_step_def not_le)
  ultimately have "a \<in> due now m' \<longleftrightarrow> a \<in> due now m" for a
    by (cases "a \<in> set (mgr_heap m)") (auto simp: due_def)
  then show ?thesis by blast
qed

text \<open>One turn of the loop: the three things it does with the root.\<close>

lemma due_subset: "finite (due now m)" "due now m \<subseteq> set (mgr_heap m)"
  by (auto simp: due_def)

lemma due_root:
  assumes "mgr_ok m" "mgr_heap m \<noteq> []"
  shows "mgr_heap m ! 0 \<in> due now m \<longleftrightarrow> when_of m (mgr_heap m ! 0) \<le> now"
    "\<not> when_of m (mgr_heap m ! 0) \<le> now \<Longrightarrow> a \<in> set (mgr_heap m) \<Longrightarrow> now < when_of m a"
  using mgr_ok_root(2,3) [OF assms] by (force simp: due_def)+

lemma PopTimer_due:
  assumes "mgr_ok m" "mgr_heap m \<noteq> []" "PopTimer m = Inr m'"
  shows "due now m' = due now m - {mgr_heap m ! 0}"
  using PopTimer_ok [OF assms(1,2)] assms(3) by (auto simp: due_def when_of_def)

lemma RestartTimer_due:
  assumes "mgr_ok m" "mgr_heap m \<noteq> []" "mgr_timers m (mgr_heap m ! 0) = Some t"
    "timer_repeat t" "intervals_ok clk m" "now \<le> clk" "intervals_ok now m"
  shows "\<exists>m'. RestartTimer (mgr_heap m ! 0) clk m = Inr m' \<and> mgr_ok m' \<and> intervals_ok now m' \<and>
    due now m' = due now m - {mgr_heap m ! 0} \<and> set (mgr_heap m') = set (mgr_heap m) \<and>
    (\<forall>a. a \<noteq> mgr_heap m ! 0 \<longrightarrow> mgr_timers m' a = mgr_timers m a)"
proof -
  have iv: "Duration 0 < timer_interval t" "i64 (nanosecond clk + Nanoseconds (timer_interval t))"
    using assms(3-5) by (auto simp: intervals_ok_def)
  define t' where "t' = t\<lparr>timer_when := Timestamp (nanosecond clk + Nanoseconds (timer_interval t))\<rparr>"
  have t': "Restart clk t = Inr t'" "\<not> timer_when t' \<le> now"
    "timer_repeat t' = timer_repeat t" "timer_interval t' = timer_interval t"
    using iv assms(4,6) by (simp_all add: Restart_def t'_def res_iff time_order)
  show ?thesis
    using RestartTimer_ok [OF assms(1-3) t'(1)] t'(2-4) assms(3,7)
    by (auto simp: due_def when_of_def intervals_ok_def split: if_splits)
qed

definition runnable :: "timestamp \<Rightarrow> ('f, 'z) timer_mgr_scheme \<Rightarrow> nat set" where
  "runnable now m = {a \<in> due now m. \<exists>t. mgr_timers m a = Some t \<and> \<not> timer_canceled t}"

definition expiry_result :: "timestamp \<Rightarrow> nat set \<Rightarrow> ('f, 'z) timer_mgr_scheme \<Rightarrow> nat list \<Rightarrow> ('f, 'z) timer_mgr_scheme \<Rightarrow> bool" where
  "expiry_result now C m rs m' \<longleftrightarrow>
     mgr_ok m' \<and> (\<forall>a \<in> set (mgr_heap m'). now < when_of m' a) \<and>
     distinct rs \<and> sorted (map (when_of m) rs) \<and>
     set rs \<subseteq> runnable now m \<and> runnable now m - C \<subseteq> set rs"

lemma expiry_result_stop:
  assumes "mgr_ok m" "due now m = {}"
  shows "expiry_result now C m [] m"
  using assms by (auto simp: expiry_result_def runnable_def due_def not_le)

lemma expiry_result_skip:
  assumes "expiry_result now C m1 rs m'" "runnable now m1 = runnable now m"
    and "\<And>a. a \<in> due now m1 \<Longrightarrow> when_of m1 a = when_of m a"
  shows "expiry_result now C m rs m'"
proof -
  have "when_of m a = when_of m1 a" if "a \<in> set rs" for a
    using that assms(1) assms(3) [of a] by (auto simp: expiry_result_def runnable_def)
  then have eq: "map (when_of m) rs = map (when_of m1) rs" by simp
  have "sorted (map (when_of m) rs) = sorted (map (when_of m1) rs)" by (simp only: eq)
  with assms(1,2) show ?thesis by (simp add: expiry_result_def)
qed

lemma expiry_result_run:
  assumes "expiry_result now C m1 rs m'" "runnable now m1 \<subseteq> runnable now m - {a}"
    and "runnable now m - {a} - C \<subseteq> runnable now m1" "a \<in> runnable now m"
    and "\<And>b. b \<in> due now m1 \<Longrightarrow> when_of m1 b = when_of m b"
    and "\<And>b. b \<in> due now m \<Longrightarrow> when_of m a \<le> when_of m b"
  shows "expiry_result now C m (a # rs) m'"
proof -
  have rs: "set rs \<subseteq> runnable now m1" using assms(1) by (simp add: expiry_result_def)
  then have "set rs \<subseteq> due now m1" by (auto simp: runnable_def)
  then have eq: "map (when_of m) rs = map (when_of m1) rs" using assms(5) by auto
  have "sorted (map (when_of m) rs) = sorted (map (when_of m1) rs)" by (simp only: eq)
  moreover have "when_of m a \<le> when_of m b" if "b \<in> set rs" for b
    using that rs assms(2,6) by (auto simp: runnable_def)
  ultimately show ?thesis using assms rs by (auto simp: expiry_result_def)
qed

lemma callback_runnable:
  assumes "mgr_ok m" "callback_step now C m m'"
  shows "runnable now m' \<subseteq> runnable now m" "runnable now m - C \<subseteq> runnable now m'"
proof -
  have old: "\<exists>t. mgr_timers m a = Some t \<and> (mgr_timers m' a = Some t \<or>
      a \<in> C \<and> mgr_timers m' a = Some (t\<lparr>timer_canceled := True\<rparr>))" if "a \<in> due now m" for a
    using that mgr_okD(3) [OF assms(1)] assms(2) by (fastforce simp: due_def callback_step_def)
  show "runnable now m' \<subseteq> runnable now m" "runnable now m - C \<subseteq> runnable now m'"
    using old by (fastforce simp: runnable_def callback_due [OF assms])+
qed

text \<open>A callback and what follows it: the state the loop goes on with.\<close>

lemma run_root:
  assumes "mgr_ok m" "mgr_heap m \<noteq> []" "intervals_ok now m" "polite env now C"
    and "mgr_timers m (mgr_heap m ! 0) = Some t" "\<not> timer_canceled t" "timer_when t \<le> now"
  shows "\<exists>m1 clk m2. env (timer_cb t) m = Inr (m1, clk) \<and>
    (if timer_repeat t then RestartTimer (mgr_heap m ! 0) clk m1 else PopTimer m1) = Inr m2 \<and>
    mgr_ok m2 \<and> intervals_ok now m2 \<and> card (due now m2) < card (due now m) \<and>
    (\<forall>rs m'. expiry_result now C m2 rs m' \<longrightarrow> expiry_result now C m (mgr_heap m ! 0 # rs) m')"
proof -
  define a where "a = mgr_heap m ! 0"
  have expired: "when_of m a \<le> now" using assms(5,7) by (simp add: a_def when_of_def)
  then obtain m1 clk where env: "env (timer_cb t) m = Inr (m1, clk)" and
      step: "callback_step now C m m1" and clk: "now \<le> clk" "intervals_ok now m1" "intervals_ok clk m1"
    using assms(1-4) by (force simp: polite_def a_def)
  have a1: "mgr_heap m1 ! 0 = a" "mgr_ok m1" "mgr_heap m1 \<noteq> []"
    using step assms(2) by (auto simp: callback_step_def a_def)
  have t1: "\<exists>t1. mgr_timers m1 a = Some t1 \<and> timer_repeat t1 = timer_repeat t"
    using callback_timer [OF step assms(5)] by (auto simp: a_def)
  have due1: "due now m1 = due now m" using callback_due [OF assms(1) step] .
  have "\<exists>m2. (if timer_repeat t then RestartTimer a clk m1 else PopTimer m1) = Inr m2 \<and>
      mgr_ok m2 \<and> intervals_ok now m2 \<and> due now m2 = due now m1 - {a} \<and>
      (\<forall>b. b \<noteq> a \<longrightarrow> mgr_timers m2 b = mgr_timers m1 b)"
  proof (cases "timer_repeat t")
    case True
    with RestartTimer_due [OF a1(2,3) _ _ clk(3,1,2)] a1(1) t1 show ?thesis by auto
  next
    case False
    with PopTimer_ok [OF a1(2,3)] PopTimer_due [OF a1(2,3), of _ now] a1(1) clk(2) show ?thesis
      by (auto simp: intervals_ok_def)
  qed
  then obtain m2 where m2: "(if timer_repeat t then RestartTimer a clk m1 else PopTimer m1) = Inr m2"
      "mgr_ok m2" "intervals_ok now m2" "due now m2 = due now m - {a}"
      "\<And>b. b \<noteq> a \<Longrightarrow> mgr_timers m2 b = mgr_timers m1 b"
    by (auto simp: due1)
  have a: "a \<in> due now m" using due_root(1) [OF assms(1,2)] expired by (simp add: a_def)
  have run: "runnable now m2 = runnable now m1 - {a}"
    using m2(4,5) due1 by (auto simp: runnable_def)
  have "when_of m2 b = when_of m b" if "b \<in> due now m2" for b
  proof -
    have "b \<in> dom (mgr_timers m)" using that m2(4) mgr_okD(3) [OF assms(1)] by (auto simp: due_def)
    with callback_when [OF step] m2(4,5) that show ?thesis by (simp add: when_of_def)
  qed
  moreover have "when_of m a \<le> when_of m b" if "b \<in> due now m" for b
    using that mgr_ok_root(3) [OF assms(1,2)] by (auto simp: due_def a_def)
  moreover have ra: "a \<in> runnable now m" using a assms(5,6) by (simp add: runnable_def a_def)
  moreover have "runnable now m2 \<subseteq> runnable now m - {a}" "runnable now m - {a} - C \<subseteq> runnable now m2"
    using run callback_runnable [OF assms(1) step] by blast+
  ultimately have "expiry_result now C m (a # rs) m'" if "expiry_result now C m2 rs m'" for rs m'
    using expiry_result_run [OF that] by blast
  moreover have "card (due now m2) < card (due now m)"
    using a m2(4) due_subset(1) by (metis card_Diff1_less)
  ultimately show ?thesis using env m2 by (auto simp: a_def)
qed

definition expires where
  "expires env now C m \<longleftrightarrow>
     (\<exists>N. \<forall>fuel \<ge> N. \<exists>rs m'. HandleExpired fuel env now m = Inr (rs, m') \<and> expiry_result now C m rs m')"

lemma expires_stop:
  assumes "\<And>fuel. HandleExpired (Suc fuel) env now m = Inr ([], m)" "expiry_result now C m [] m"
  shows "expires env now C m"
  unfolding expires_def
proof (intro exI allI impI)
  fix fuel :: nat assume "1 \<le> fuel"
  then obtain f where "fuel = Suc f" by (cases fuel) auto
  with assms show "HandleExpired fuel env now m = Inr ([], m) \<and> expiry_result now C m [] m" by simp
qed

lemma expires_step:
  assumes "expires env now C m2"
    and "\<And>fuel. HandleExpired (Suc fuel) env now m =
           res_bind (HandleExpired fuel env now m2) (\<lambda>(rs, m'). Inr (xs @ rs, m'))"
    and "\<And>rs m'. expiry_result now C m2 rs m' \<Longrightarrow> expiry_result now C m (xs @ rs) m'"
  shows "expires env now C m"
proof -
  obtain N where N: "\<And>fuel. N \<le> fuel \<Longrightarrow>
      \<exists>rs m'. HandleExpired fuel env now m2 = Inr (rs, m') \<and> expiry_result now C m2 rs m'"
    using assms(1) by (auto simp: expires_def)
  have "\<exists>rs m'. HandleExpired fuel env now m = Inr (rs, m') \<and> expiry_result now C m rs m'"
    if fuel: "Suc N \<le> fuel" for fuel
  proof -
    obtain f where "fuel = Suc f" "N \<le> f" using fuel by (cases fuel) auto
    with N [of f] assms(2) [of f] assms(3) show ?thesis by fastforce
  qed
  then show ?thesis unfolding expires_def by blast
qed

lemma HandleExpired_expires:
  assumes "polite env now C"
  shows "mgr_ok m \<Longrightarrow> intervals_ok now m \<Longrightarrow> expires env now C m"
proof (induction m rule: wf_induct_rule [OF wf_measures
      [of "[\<lambda>m. card (due now m), \<lambda>m. length (mgr_heap m)]"]])
  case (1 m)
  show ?case
  proof (cases "mgr_heap m = []")
    case True
    then show ?thesis
      by (intro expires_stop expiry_result_stop) (simp_all add: 1 due_def)
  next
    case False
    define a where "a = mgr_heap m ! 0"
    obtain t where t: "mgr_timers m a = Some t" using mgr_ok_root(1) [OF 1(2) False] by (auto simp: a_def)
    consider "timer_canceled t" | "\<not> timer_canceled t" "timer_when t \<le> now"
      | "\<not> timer_canceled t" "\<not> timer_when t \<le> now" by blast
    then show ?thesis
    proof cases
      case canceled: 1
      obtain m2 where m2: "PopTimer m = Inr m2" "mgr_ok m2" "length (mgr_heap m2) < length (mgr_heap m)"
          "mgr_timers m2 = (mgr_timers m)(a := None)"
        using PopTimer_ok [OF 1(2) False] by (auto simp: a_def)
      have due2: "due now m2 = due now m - {a}"
        using PopTimer_due [OF 1(2) False m2(1)] by (simp add: a_def)
      then have "card (due now m2) \<le> card (due now m)"
        using due_subset(1) [of now m] by (auto intro: card_mono)
      moreover have "intervals_ok now m2" using 1(3) m2(4) by (simp add: intervals_ok_def)
      ultimately have "expires env now C m2"
      proof (intro 1(1))
        show "(m2, m) \<in> measures [\<lambda>m. card (due now m), \<lambda>m. length (mgr_heap m)]"
          using \<open>card (due now m2) \<le> card (due now m)\<close> m2(3) by (simp add: le_less)
      qed (use m2(2) in simp_all)
      moreover have same: "runnable now m2 = runnable now m"
      proof (rule set_eqI)
        show "b \<in> runnable now m2 \<longleftrightarrow> b \<in> runnable now m" for b
          using due2 m2(4) t canceled by (cases "b = a") (simp_all add: runnable_def)
      qed
      moreover have "when_of m2 b = when_of m b" if "b \<in> due now m2" for b
        using that due2 m2(4) by (simp add: when_of_def)
      then have "expiry_result now C m rs m'" if "expiry_result now C m2 rs m'" for rs m'
        using expiry_result_skip [OF that same] by blast
      ultimately show ?thesis
        using False m2(1) t canceled
        by (intro expires_step [of env now C m2 m "[]"]) (simp_all add: a_def)
    next
      case run: 2
      obtain m1 clk m2 where m2: "env (timer_cb t) m = Inr (m1, clk)"
          "(if timer_repeat t then RestartTimer a clk m1 else PopTimer m1) = Inr m2"
          "mgr_ok m2" "intervals_ok now m2" "card (due now m2) < card (due now m)"
          "\<And>rs m'. expiry_result now C m2 rs m' \<Longrightarrow> expiry_result now C m (a # rs) m'"
        using run_root [OF 1(2) False 1(3) assms, folded a_def, OF t run] by blast
      then have "expires env now C m2" using 1(1) by simp
      then show ?thesis
        using False m2(1,2,6) t run
        by (intro expires_step [of env now C m2 m "[a]"]) (simp_all add: a_def [symmetric] Let_def)
    next
      case 3
      then have "due now m = {}"
        using due_root(2) [OF 1(2) False, of now] t by (fastforce simp: due_def when_of_def a_def)
      with 3 t False show ?thesis
        by (intro expires_stop expiry_result_stop) (simp_all add: 1 a_def)
    qed
  qed
qed

subsection \<open>\<open>AddTimer\<close> and \<open>Cancel\<close>\<close>

subsection \<open>\<open>AddTimer\<close> and \<open>Cancel\<close>\<close>

lemma PushTimer_root:
  assumes "mgr_ok m" "mgr_heap m \<noteq> []" "length (mgr_heap m) + 1 < size_mod"
    "when_of m (mgr_heap m ! 0) \<le> when_of m a" "PushTimer a m = Inr m'"
  shows "mgr_heap m' ! 0 = mgr_heap m ! 0"
  using PushInHeap_root [OF assms(2,3), of "when_of m" a] assms(4,5) by (auto simp: PushTimer_def res_iff)

lemma AddTimer_ok:
  assumes "mgr_ok m" "mgr_next m + 1 < size_mod"
  shows "\<exists>i m'. AddTimer True cb when interval m = Inr (i, [], m') \<and> mgr_ok m' \<and>
    i = \<lparr>id_when = when, id_timer = mgr_next m\<rparr> \<and> mgr_next m \<notin> dom (mgr_timers m) \<and>
    mgr_timers m' = (mgr_timers m)(mgr_next m \<mapsto> new_timer cb when interval) \<and>
    set (mgr_heap m') = insert (mgr_next m) (set (mgr_heap m)) \<and> mgr_next m' = Suc (mgr_next m) \<and>
    (mgr_heap m \<noteq> [] \<longrightarrow> when_of m (mgr_heap m ! 0) \<le> when \<longrightarrow> mgr_heap m' ! 0 = mgr_heap m ! 0)"
proof -
  obtain a m1 where make: "make_timer (new_timer cb when interval) m = (a, m1)" by fastforce
  note m1 = make_timer_ok [OF assms make]
  have fresh: "a \<in> dom (mgr_timers m1)" "a \<notin> set (mgr_heap m1)"
    using m1 mgr_okD(3) [OF assms(1)] by auto
  obtain m2 where m2: "PushTimer a m1 = Inr m2" "mgr_ok m2" "set (mgr_heap m2) = insert a (set (mgr_heap m1))"
      "mgr_timers m2 = mgr_timers m1" "mgr_next m2 = mgr_next m1"
    using PushTimer_ok [OF m1(1) fresh] by blast
  have "mgr_heap m2 ! 0 = mgr_heap m ! 0" if "mgr_heap m \<noteq> []" "when_of m (mgr_heap m ! 0) \<le> when"
  proof -
    have "mgr_heap m ! 0 \<noteq> a" using fresh(2) m1(4) that(1) by (metis mgr_ok_root(2) m1(1))
    then have "when_of m1 (mgr_heap m1 ! 0) \<le> when_of m1 a"
      using that(2) m1(3,4) by (simp add: when_of_def new_timer_def)
    with PushTimer_root [OF m1(1) _ _ _ m2(1)] that(1) m1(4) mgr_ok_length [OF assms(1)] assms(2)
    show ?thesis by simp
  qed
  with make m1 m2 show ?thesis
    by (auto simp: AddTimer_def timer_RunInLoop_def)
qed

lemma Cancel_ok:
  assumes "mgr_ok m" "mgr_timers m (id_timer i) = Some t" "\<not> timer_canceled t"
  shows "\<exists>m'. Cancel True i m = Inr ([], m') \<and> mgr_ok m' \<and> mgr_heap m' = mgr_heap m \<and>
    mgr_timers m' = (mgr_timers m)(id_timer i \<mapsto> t\<lparr>timer_canceled := True\<rparr>) \<and> mgr_next m' = mgr_next m"
proof -
  note ok = mgr_okD [OF assms(1)]
  define m' where "m' = m\<lparr>mgr_timers := (mgr_timers m)(id_timer i \<mapsto> t\<lparr>timer_canceled := True\<rparr>)\<rparr>"
  have "when_of m' = when_of m" using assms(2) by (auto simp: when_of_def m'_def)
  moreover have "dom (mgr_timers m') = dom (mgr_timers m)" using assms(2) by (auto simp: m'_def)
  ultimately have "mgr_ok m'" using ok by (simp add: mgr_ok_def m'_def)
  then show ?thesis
    using assms(2,3)
    by (simp add: Cancel_def timer_RunInLoop_def Expired_def timer_Cancel_def m'_def)
qed

text \<open>A callback that adds a later timer, or cancels one, or does nothing, obeys the contract.\<close>

lemma AddTimer_callback_step:
  assumes "mgr_ok m" "mgr_heap m \<noteq> []" "mgr_next m + 1 < size_mod"
    "when_of m (mgr_heap m ! 0) \<le> now" "now < when"
  shows "\<exists>i m'. AddTimer True cb when interval m = Inr (i, [], m') \<and> callback_step now C m m' \<and>
    mgr_timers m' = (mgr_timers m)(mgr_next m \<mapsto> new_timer cb when interval)"
proof -
  obtain i m' where m': "AddTimer True cb when interval m = Inr (i, [], m')" "mgr_ok m'"
      "mgr_next m \<notin> dom (mgr_timers m)"
      "mgr_timers m' = (mgr_timers m)(mgr_next m \<mapsto> new_timer cb when interval)"
      "set (mgr_heap m') = insert (mgr_next m) (set (mgr_heap m))" "mgr_next m' = Suc (mgr_next m)"
      "when_of m (mgr_heap m ! 0) \<le> when \<longrightarrow> mgr_heap m' ! 0 = mgr_heap m ! 0"
    using AddTimer_ok [OF assms(1,3), of cb "when" interval] assms(2) by blast
  have "now < when_of m' (mgr_next m)" using m'(4) assms(5) by (simp add: when_of_def new_timer_def)
  with m' assms(4,5) have "callback_step now C m m'" by (auto simp: callback_step_def)
  with m'(1,4) show ?thesis by blast
qed

lemma callback_step_refl: "mgr_ok m \<Longrightarrow> callback_step now C m m"
  by (simp add: callback_step_def)

subsection \<open>Properties\<close>

text \<open>
  C6: \<open>TimerManager::HandleExpired\<close> returns, whatever the callbacks do within their
  contract (they may add later timers and cancel timers of \<open>C\<close>). It runs each due
  timer at most once, in the order of the expiry times; it runs only timers that
  were due and not cancelled when it started, and every such timer that no callback
  cancels. Afterwards the heap is in order again and holds only timers that expire
  later than \<open>now\<close>.
\<close>

theorem HandleExpired_runs_due:
  assumes "mgr_ok m" "intervals_ok now m" "polite env now C"
  shows "\<exists>N. \<forall>fuel \<ge> N. \<exists>rs m'. HandleExpired fuel env now m = Inr (rs, m') \<and> expiry_result now C m rs m'"
  using HandleExpired_expires [OF assms(3,1,2)] by (simp add: expires_def)

text \<open>A manager with a one-shot, a repeating, a cancelled and a later timer; every callback adds a timer.\<close>

definition demo_mgr :: "nat timer_mgr" where
  "demo_mgr =
     \<lparr>mgr_heap = [1, 0, 2, 3],
      mgr_timers = [0 \<mapsto> new_timer 10 (Timestamp 5) (Duration 0),
                    1 \<mapsto> new_timer 11 (Timestamp 3) (Duration 4),
                    2 \<mapsto> (new_timer 12 (Timestamp 3) (Duration 0))\<lparr>timer_canceled := True\<rparr>,
                    3 \<mapsto> new_timer 13 (Timestamp 90) (Duration 0)],
      mgr_next = 4, mgr_timer_num = 4\<rparr>"

definition demo_env :: "(nat, unit) timer_env" where
  "demo_env cb m =
     (if mgr_next m + 1 < size_mod then
        res_bind (AddTimer True cb (Timestamp 50) (Duration 7) m) (\<lambda>(i, queued, m'). Inr (m', Timestamp 7))
      else Inr (m, Timestamp 7))"

lemma demo_polite: "polite demo_env (Timestamp 7) {}"
  unfolding polite_def
proof (intro allI impI)
  fix cb and m :: "nat timer_mgr"
  assume h: "mgr_ok m" "mgr_heap m \<noteq> []" "when_of m (mgr_heap m ! 0) \<le> Timestamp 7"
    "intervals_ok (Timestamp 7) m"
  show "\<exists>m' clk. demo_env cb m = Inr (m', clk) \<and> callback_step (Timestamp 7) {} m m' \<and>
      Timestamp 7 \<le> clk \<and> intervals_ok (Timestamp 7) m' \<and> intervals_ok clk m'"
  proof (cases "mgr_next m + 1 < size_mod")
    case True
    have "Timestamp 7 < Timestamp 50" by (simp add: time_order)
    from AddTimer_callback_step [OF h(1,2) True h(3) this] obtain i m' where
      "AddTimer True cb (Timestamp 50) (Duration 7) m = Inr (i, [], m')"
      "callback_step (Timestamp 7) {} m m'"
      "mgr_timers m' = (mgr_timers m)(mgr_next m \<mapsto> new_timer cb (Timestamp 50) (Duration 7))" by blast
    with True h(4) show ?thesis
      by (auto simp: demo_env_def intervals_ok_def new_timer_def i64_def i64_min_def i64_max_def time_order)
  next
    case False
    with h callback_step_refl show ?thesis by (auto simp: demo_env_def)
  qed
qed

lemma demo_mgr_ok: "mgr_ok demo_mgr" "intervals_ok (Timestamp 7) demo_mgr"
proof -
  have "dom (mgr_timers demo_mgr) = {0, 1, 2, 3}" by (auto simp: demo_mgr_def)
  moreover have "heap_ok (when_of demo_mgr) (mgr_heap demo_mgr)"
    by (auto simp: heap_ok_def heap_at_def demo_mgr_def when_of_def new_timer_def time_order
        less_Suc_eq nth_Cons' numeral_eq_Suc)
  ultimately show "mgr_ok demo_mgr" by (simp add: mgr_ok_def) (simp add: demo_mgr_def size_mod_def)
  show "intervals_ok (Timestamp 7) demo_mgr"
    by (auto simp: intervals_ok_def demo_mgr_def new_timer_def time_order i64_def i64_min_def i64_max_def
        IsZero_def split: if_splits)
qed

theorem HandleExpired_runs_due_witness:
  "\<exists>fuel rs m'. HandleExpired fuel demo_env (Timestamp 7) demo_mgr = Inr (rs, m') \<and>
     set rs = {0, 1} \<and> (\<forall>a \<in> set (mgr_heap m'). Timestamp 7 < when_of m' a)"
proof -
  have run: "runnable (Timestamp 7) demo_mgr = {0, 1}"
    by (auto simp: runnable_def due_def demo_mgr_def when_of_def new_timer_def time_order)
  obtain N rs m' where r: "HandleExpired N demo_env (Timestamp 7) demo_mgr = Inr (rs, m')"
      "expiry_result (Timestamp 7) {} demo_mgr rs m'"
    using HandleExpired_runs_due [OF demo_mgr_ok demo_polite] by (meson le_refl)
  from r(2) have "set rs = {0, 1}" by (auto simp: expiry_result_def run)
  with r show ?thesis by (auto simp: expiry_result_def)
qed



definition early_mgr :: "nat timer_mgr" where
  "early_mgr =
     \<lparr>mgr_heap = [0], mgr_timers = [0 \<mapsto> new_timer 10 (Timestamp 5) (Duration 0)],
      mgr_next = 1, mgr_timer_num = 1\<rparr>"

definition early_env :: "(nat, unit) timer_env" where
  "early_env cb m =
     (if mgr_next m = 1 then
        res_bind (AddTimer True 11 (Timestamp 3) (Duration 0) m) (\<lambda>(i, queued, m'). Inr (m', Timestamp 7))
      else Inr (m, Timestamp 7))"

text \<open>
  The contract of the callbacks is needed. If a callback adds a timer that
  expires before the one that is running, the new timer becomes the root of the
  heap, and \<open>HandleExpired\<close> pops it in place of the running one: the new timer is
  freed without having run, and the one-shot timer runs a second time.
\<close>

lemma HandleExpired_earlier_timer_lost:
  "case HandleExpired (Suc (Suc (Suc (Suc 0)))) early_env (Timestamp 7) early_mgr of
     Inl e \<Rightarrow> False
   | Inr (rs, m') \<Rightarrow> rs = [0, 0] \<and> mgr_heap m' = [] \<and> mgr_next m' = 2"
  by (simp add: early_mgr_def early_env_def new_timer_def time_order size_mod_def AddTimer_def make_timer_def
      timer_RunInLoop_def PushTimer_def PushInHeap_def PopTimer_def PopInHeap_def SwapInHeap_def
      UpInHeap.simps DownInHeap.simps when_of_def IsZero_def Let_def)

end
