(* ===== verification/EventLoop.thy ===== *)
theory EventLoop
  imports Timers "HOL-Library.Word"
begin

section \<open>\<open>net/EventLoop\<close>, \<open>net/Channel\<close> and \<open>net/Epoller\<close>: the reactor\<close>

text \<open>
  One loop per thread. Its state extends the timer manager it owns. Channels are
  shared objects in a store; the loop holds a set of them, their owners (a
  connection, an acceptor, a connector) hold them too. The interest list of
  \<open>epoll\<close> is part of the state, with the documented effect of \<open>epoll_ctl\<close>; what
  \<open>epoll_wait\<close> answers is an input. A closure is a value of the type \<open>'f\<close>, and what
  running it does to the loop is a parameter of the operations that run closures.
  A thread is its id; operations take the id of the thread that calls them.
\<close>

unbundle bit_operations_syntax

subsection \<open>State\<close>

text \<open>The bits of \<open>struct epoll_event\<close>'s \<open>events\<close>.\<close>

definition EPOLLIN :: "32 word" where "EPOLLIN = 1"

definition EPOLLPRI :: "32 word" where "EPOLLPRI = 2"

definition EPOLLOUT :: "32 word" where "EPOLLOUT = 4"

definition EPOLLERR :: "32 word" where "EPOLLERR = 8"

definition EPOLLRDHUP :: "32 word" where "EPOLLRDHUP = 8192"

lemmas epoll_bits = EPOLLIN_def EPOLLPRI_def EPOLLOUT_def EPOLLERR_def EPOLLRDHUP_def

record 'f channel =
  ch_fd :: int
  ch_events :: "32 word"
  ch_revents :: "32 word"
  ch_event_handling :: bool
  ch_read_cb :: "'f option"
  ch_write_cb :: "'f option"
  ch_error_cb :: "'f option"
  ch_tie :: "nat option"
  ch_owned :: bool

text \<open>\<open>ch_tie\<close> is \<open>Some\<close> address when \<open>tied_\<close>; \<open>ch_owned\<close> says that an owner outside the
  loop still holds a \<open>shared_ptr\<close>. A functor is a task of the timer manager or a closure.\<close>

datatype 'f loop_functor = Timer_functor timer_task | Closure 'f

record 'f eventloop = "'f timer_mgr" +
  looping :: bool
  quit :: bool
  pending_functors_calling :: bool
  loop_tid :: int
  epoll_interest :: "int \<rightharpoonup> 32 word \<times> nat"
  chan_store :: "nat \<rightharpoonup> 'f channel"
  chan_next :: nat
  channels :: "nat set"
  active_channels :: "nat list"
  wakeup_fd :: int
  wakeup_channel :: nat
  wakeup_count :: nat
  pending_functors :: "'f loop_functor list"
  alive_ties :: "nat set"

type_synonym ('f, 'z) loop = "('f, 'z) eventloop_scheme"

type_synonym ('f, 'z) closure_env = "'f \<Rightarrow> ('f, 'z) eventloop_scheme \<Rightarrow> ('f, 'z) eventloop_scheme res"

definition IsInLoopThread :: "int \<Rightarrow> ('f, 'z) loop \<Rightarrow> bool" where
  "IsInLoopThread tid s \<longleftrightarrow> loop_tid s = tid"

subsection \<open>\<open>Epoller\<close>\<close>

text \<open>
  \<open>epoll_ctl\<close> as documented: \<open>ADD\<close> fails for a descriptor that is registered
  (\<open>EEXIST\<close>) or not a descriptor, \<open>MOD\<close> and \<open>DEL\<close> for one that is not (\<open>ENOENT\<close>). The
  \<open>Epoller\<close> logs a failure and goes on.
\<close>

definition Epoller_AddChannel :: "int \<Rightarrow> nat \<Rightarrow> 'f channel \<Rightarrow> ('f, 'z) loop \<Rightarrow> ('f, 'z) loop res" where
  "Epoller_AddChannel tid a c s =
     assert_then (IsInLoopThread tid s)
       (Inr (if ch_fd c < 0 \<or> epoll_interest s (ch_fd c) \<noteq> None then s
             else s\<lparr>epoll_interest := (epoll_interest s)(ch_fd c \<mapsto> (ch_events c, a))\<rparr>))"

definition Epoller_UpdateChannel :: "int \<Rightarrow> nat \<Rightarrow> 'f channel \<Rightarrow> ('f, 'z) loop \<Rightarrow> ('f, 'z) loop res" where
  "Epoller_UpdateChannel tid a c s =
     assert_then (IsInLoopThread tid s)
       (Inr (if epoll_interest s (ch_fd c) = None then s
             else s\<lparr>epoll_interest := (epoll_interest s)(ch_fd c \<mapsto> (ch_events c, a))\<rparr>))"

definition Epoller_RemoveChannel :: "int \<Rightarrow> 'f channel \<Rightarrow> ('f, 'z) loop \<Rightarrow> ('f, 'z) loop res" where
  "Epoller_RemoveChannel tid c s =
     assert_then (IsInLoopThread tid s)
       (Inr (s\<lparr>epoll_interest := (epoll_interest s)(ch_fd c := None)\<rparr>))"

definition kMaxEvents :: nat where "kMaxEvents = 2000"

definition set_chan :: "nat \<Rightarrow> 'f channel \<Rightarrow> ('f, 'z) loop \<Rightarrow> ('f, 'z) loop" where
  "set_chan a c s = s\<lparr>chan_store := (chan_store s)(a \<mapsto> c)\<rparr>"

text \<open>An access through a pointer to a channel: undefined when the channel is gone.\<close>

definition with_chan :: "nat \<Rightarrow> ('f, 'z) loop \<Rightarrow> ('f channel \<Rightarrow> 'r res) \<Rightarrow> 'r res" where
  "with_chan a s k = (case chan_store s a of None \<Rightarrow> Inl Undefined | Some c \<Rightarrow> k c)"

text \<open>\<open>LoopOnce\<close> on the events \<open>epoll_wait\<close> wrote, each with its \<open>data.ptr\<close>.\<close>

fun LoopOnce :: "(32 word \<times> nat) list \<Rightarrow> ('f, 'z) loop \<Rightarrow> ('f, 'z) loop res" where
  "LoopOnce [] s = Inr s"
| "LoopOnce ((events, a) # es) s =
     with_chan a s (\<lambda>c.
     let s' = set_chan a (c\<lparr>ch_revents := events\<rparr>) s in
     LoopOnce es (s'\<lparr>active_channels := active_channels s' @ [a]\<rparr>))"

subsection \<open>\<open>EventLoop\<close>: channels\<close>

definition HasChannel :: "nat \<Rightarrow> ('f, 'z) loop \<Rightarrow> bool" where
  "HasChannel a s \<longleftrightarrow> a \<in> channels s"

definition AddChannel :: "int \<Rightarrow> nat \<Rightarrow> ('f, 'z) loop \<Rightarrow> ('f, 'z) loop res" where
  "AddChannel tid a s =
     assert_then (IsInLoopThread tid s)
       (with_chan a s (\<lambda>c. Epoller_AddChannel tid a c (s\<lparr>channels := insert a (channels s)\<rparr>)))"

definition UpdateChannel :: "int \<Rightarrow> nat \<Rightarrow> ('f, 'z) loop \<Rightarrow> ('f, 'z) loop res" where
  "UpdateChannel tid a s =
     assert_then (IsInLoopThread tid s)
       (if HasChannel a s then with_chan a s (\<lambda>c. Epoller_UpdateChannel tid a c s)
        else AddChannel tid a s)"

text \<open>Once it is in no set and has no owner a channel is destroyed (\<open>~Channel\<close>).\<close>

definition release_channel :: "nat \<Rightarrow> ('f, 'z) loop \<Rightarrow> ('f, 'z) loop res" where
  "release_channel a s =
     with_chan a s (\<lambda>c.
     if a \<in> channels s \<or> ch_owned c then Inr s
     else assert_then (\<not> ch_event_handling c) (Inr (s\<lparr>chan_store := (chan_store s)(a := None)\<rparr>)))"

definition RemoveChannel :: "int \<Rightarrow> nat \<Rightarrow> ('f, 'z) loop \<Rightarrow> ('f, 'z) loop res" where
  "RemoveChannel tid a s =
     assert_then (IsInLoopThread tid s)
       (with_chan a s (\<lambda>c.
        res_bind (Epoller_RemoveChannel tid c (s\<lparr>channels := channels s - {a}\<rparr>)) (release_channel a)))"

subsection \<open>\<open>Channel\<close>\<close>

definition new_channel :: "int \<Rightarrow> ('f, 'z) loop \<Rightarrow> nat \<times> ('f, 'z) loop" where
  "new_channel fd s =
     (chan_next s,
      s\<lparr>chan_store := (chan_store s)(chan_next s \<mapsto>
          \<lparr>ch_fd = fd, ch_events = 0, ch_revents = 0, ch_event_handling = False, ch_read_cb = None,
           ch_write_cb = None, ch_error_cb = None, ch_tie = None, ch_owned = True\<rparr>),
        chan_next := Suc (chan_next s)\<rparr>)"

definition upd_chan :: "('f channel \<Rightarrow> 'f channel) \<Rightarrow> nat \<Rightarrow> ('f, 'z) loop \<Rightarrow> ('f, 'z) loop res" where
  "upd_chan g a s = with_chan a s (\<lambda>c. Inr (set_chan a (g c) s))"

definition SetReadHandler :: "'f \<Rightarrow> nat \<Rightarrow> ('f, 'z) loop \<Rightarrow> ('f, 'z) loop res" where
  "SetReadHandler f = upd_chan (\<lambda>c. c\<lparr>ch_read_cb := Some f\<rparr>)"

definition SetWriteHandler :: "'f \<Rightarrow> nat \<Rightarrow> ('f, 'z) loop \<Rightarrow> ('f, 'z) loop res" where
  "SetWriteHandler f = upd_chan (\<lambda>c. c\<lparr>ch_write_cb := Some f\<rparr>)"

definition SetErrorHandler :: "'f \<Rightarrow> nat \<Rightarrow> ('f, 'z) loop \<Rightarrow> ('f, 'z) loop res" where
  "SetErrorHandler f = upd_chan (\<lambda>c. c\<lparr>ch_error_cb := Some f\<rparr>)"

definition Tie :: "nat \<Rightarrow> nat \<Rightarrow> ('f, 'z) loop \<Rightarrow> ('f, 'z) loop res" where
  "Tie p = upd_chan (\<lambda>c. c\<lparr>ch_tie := Some p\<rparr>)"

definition set_events ::
  "(32 word \<Rightarrow> 32 word) \<Rightarrow> int \<Rightarrow> nat \<Rightarrow> ('f, 'z) loop \<Rightarrow> ('f, 'z) loop res" where
  "set_events g tid a s =
     res_bind (upd_chan (\<lambda>c. c\<lparr>ch_events := g (ch_events c)\<rparr>) a s) (UpdateChannel tid a)"

definition EnableRead :: "int \<Rightarrow> nat \<Rightarrow> ('f, 'z) loop \<Rightarrow> ('f, 'z) loop res" where
  "EnableRead = set_events (\<lambda>e. e OR EPOLLIN)"

definition DisableRead :: "int \<Rightarrow> nat \<Rightarrow> ('f, 'z) loop \<Rightarrow> ('f, 'z) loop res" where
  "DisableRead = set_events (\<lambda>e. e AND NOT EPOLLIN)"

definition EnableWrite :: "int \<Rightarrow> nat \<Rightarrow> ('f, 'z) loop \<Rightarrow> ('f, 'z) loop res" where
  "EnableWrite = set_events (\<lambda>e. e OR EPOLLOUT)"

definition DisableWrite :: "int \<Rightarrow> nat \<Rightarrow> ('f, 'z) loop \<Rightarrow> ('f, 'z) loop res" where
  "DisableWrite = set_events (\<lambda>e. e AND NOT EPOLLOUT)"

definition EnableReadWrite :: "int \<Rightarrow> nat \<Rightarrow> ('f, 'z) loop \<Rightarrow> ('f, 'z) loop res" where
  "EnableReadWrite = set_events (\<lambda>e. e OR (EPOLLIN OR EPOLLOUT))"

definition DisableReadWrite :: "int \<Rightarrow> nat \<Rightarrow> ('f, 'z) loop \<Rightarrow> ('f, 'z) loop res" where
  "DisableReadWrite = set_events (\<lambda>e. e AND NOT (EPOLLIN OR EPOLLOUT))"

definition ReadEnabled :: "'f channel \<Rightarrow> bool" where
  "ReadEnabled c \<longleftrightarrow> ch_events c AND EPOLLIN \<noteq> 0"

definition WriteEnabled :: "'f channel \<Rightarrow> bool" where
  "WriteEnabled c \<longleftrightarrow> ch_events c AND EPOLLOUT \<noteq> 0"

definition Channel_Close :: "int \<Rightarrow> nat \<Rightarrow> ('f, 'z) loop \<Rightarrow> ('f, 'z) loop res" where
  "Channel_Close tid a s =
     with_chan a s (\<lambda>c.
     assert_then (ch_events c = 0)
       (RemoveChannel tid a
          (set_chan a (c\<lparr>ch_read_cb := None, ch_write_cb := None, ch_error_cb := None\<rparr>) s)))"

text \<open>The owner lets its \<open>shared_ptr\<close> go.\<close>

definition drop_channel :: "nat \<Rightarrow> ('f, 'z) loop \<Rightarrow> ('f, 'z) loop res" where
  "drop_channel a s = res_bind (upd_chan (\<lambda>c. c\<lparr>ch_owned := False\<rparr>) a s) (release_channel a)"

text \<open>One of the three dispatches of \<open>HandleEvents\<close>: mask, handler, closure.\<close>

definition dispatch ::
  "32 word \<Rightarrow> ('f channel \<Rightarrow> 'f option) \<Rightarrow> ('f, 'z) closure_env \<Rightarrow> nat \<Rightarrow> ('f, 'z) loop \<Rightarrow> ('f, 'z) loop res" where
  "dispatch bits handler env a s =
     with_chan a s (\<lambda>c.
     if ch_revents c AND bits = 0 then Inr s
     else case handler c of None \<Rightarrow> Inr s | Some f \<Rightarrow> env f s)"

definition HandleEvents :: "('f, 'z) closure_env \<Rightarrow> nat \<Rightarrow> ('f, 'z) loop \<Rightarrow> ('f, 'z) loop res" where
  "HandleEvents env a s =
     with_chan a s (\<lambda>c.
     if (case ch_tie c of None \<Rightarrow> False | Some p \<Rightarrow> p \<notin> alive_ties s) then Inr s
     else
       res_bind (upd_chan (\<lambda>c. c\<lparr>ch_event_handling := True\<rparr>) a s) (\<lambda>s1.
       res_bind (dispatch EPOLLERR ch_error_cb env a s1) (\<lambda>s2.
       res_bind (dispatch (EPOLLIN OR EPOLLPRI OR EPOLLRDHUP) ch_read_cb env a s2) (\<lambda>s3.
       res_bind (dispatch EPOLLOUT ch_write_cb env a s3)
         (upd_chan (\<lambda>c. c\<lparr>ch_event_handling := False\<rparr>) a)))))"

subsection \<open>\<open>EventLoop\<close>: functors and the wake-up descriptor\<close>

text \<open>\<open>eventfd\<close> as documented: a 64-bit counter; a write that would take it to its
  maximum fails (the descriptor is non-blocking), a read takes it to 0.\<close>

definition WakeUp :: "('f, 'z) loop \<Rightarrow> ('f, 'z) loop" where
  "WakeUp s = (if wakeup_count s + 1 < size_mod - 1 then s\<lparr>wakeup_count := wakeup_count s + 1\<rparr> else s)"

definition HandleRead :: "('f, 'z) loop \<Rightarrow> ('f, 'z) loop" where
  "HandleRead s = s\<lparr>wakeup_count := 0\<rparr>"

definition Push_functor :: "'f loop_functor \<Rightarrow> ('f, 'z) loop \<Rightarrow> ('f, 'z) loop" where
  "Push_functor f s = s\<lparr>pending_functors := pending_functors s @ [f]\<rparr>"

definition QueueInLoop :: "int \<Rightarrow> 'f loop_functor \<Rightarrow> ('f, 'z) loop \<Rightarrow> ('f, 'z) loop" where
  "QueueInLoop tid f s =
     (let s' = Push_functor f s in
      if \<not> IsInLoopThread tid s' \<or> pending_functors_calling s' then WakeUp s' else s')"

fun run_functor :: "('f, 'z) closure_env \<Rightarrow> 'f loop_functor \<Rightarrow> ('f, 'z) loop \<Rightarrow> ('f, 'z) loop res" where
  "run_functor env (Timer_functor x) s = run_timer_task x s"
| "run_functor env (Closure f) s = env f s"

definition RunInLoop ::
  "('f, 'z) closure_env \<Rightarrow> int \<Rightarrow> 'f loop_functor \<Rightarrow> ('f, 'z) loop \<Rightarrow> ('f, 'z) loop res" where
  "RunInLoop env tid f s = (if IsInLoopThread tid s then run_functor env f s else Inr (QueueInLoop tid f s))"

definition Quit :: "int \<Rightarrow> ('f, 'z) loop \<Rightarrow> ('f, 'z) loop" where
  "Quit tid s = (let s' = s\<lparr>quit := True\<rparr> in if IsInLoopThread tid s' then s' else WakeUp s')"

text \<open>\<open>BlockingQueue::Pop\<close> on an empty queue waits for ever when nobody pushes. The
  functors that ran are returned in order.\<close>

fun run_functors ::
  "('f, 'z) closure_env \<Rightarrow> nat \<Rightarrow> ('f, 'z) loop \<Rightarrow> ('f loop_functor list \<times> ('f, 'z) loop) res" where
  "run_functors env 0 s = Inr ([], s)"
| "run_functors env (Suc n) s =
     (case pending_functors s of
        [] \<Rightarrow> Inl Blocked
      | f # fs \<Rightarrow>
          res_bind (run_functor env f (s\<lparr>pending_functors := fs\<rparr>)) (\<lambda>s'.
          res_bind (run_functors env n s') (\<lambda>(rs, s''). Inr (f # rs, s''))))"

definition CallPendingFunctors ::
  "('f, 'z) closure_env \<Rightarrow> ('f, 'z) loop \<Rightarrow> ('f loop_functor list \<times> ('f, 'z) loop) res" where
  "CallPendingFunctors env s =
     (let s1 = s\<lparr>pending_functors_calling := True\<rparr> in
      res_bind (run_functors env (length (pending_functors s1)) s1) (\<lambda>(rs, s2).
      Inr (rs, s2\<lparr>pending_functors_calling := False\<rparr>)))"

subsection \<open>\<open>EventLoop\<close>: timers\<close>

text \<open>\<open>AddTimer\<close> and \<open>Cancel\<close> with the queueing left open in \<open>Timers\<close> closed by
  \<open>QueueInLoop\<close>. \<open>clock\<close> is what \<open>Timestamp::Now()\<close> reads.\<close>

definition queue_tasks :: "int \<Rightarrow> timer_task list \<Rightarrow> ('f, 'z) loop \<Rightarrow> ('f, 'z) loop" where
  "queue_tasks tid xs s = fold (\<lambda>x. QueueInLoop tid (Timer_functor x)) xs s"

definition add_timer ::
  "int \<Rightarrow> 'f \<Rightarrow> timestamp \<Rightarrow> duration \<Rightarrow> ('f, 'z) loop \<Rightarrow> (timer_id \<times> ('f, 'z) loop) res" where
  "add_timer tid f w interval s =
     res_bind (AddTimer (IsInLoopThread tid s) f w interval s) (\<lambda>(i, queued, s').
     Inr (i, queue_tasks tid queued s'))"

definition RunAt :: "int \<Rightarrow> timestamp \<Rightarrow> 'f \<Rightarrow> ('f, 'z) loop \<Rightarrow> (timer_id \<times> ('f, 'z) loop) res" where
  "RunAt tid w f = add_timer tid f w (Duration 0)"

definition RunAfter ::
  "int \<Rightarrow> timestamp \<Rightarrow> duration \<Rightarrow> 'f \<Rightarrow> ('f, 'z) loop \<Rightarrow> (timer_id \<times> ('f, 'z) loop) res" where
  "RunAfter tid clock delay f s =
     res_bind (timestamp_add clock delay) (\<lambda>w. add_timer tid f w (Duration 0) s)"

definition RunEvery ::
  "int \<Rightarrow> timestamp \<Rightarrow> duration \<Rightarrow> 'f \<Rightarrow> ('f, 'z) loop \<Rightarrow> (timer_id \<times> ('f, 'z) loop) res" where
  "RunEvery tid clock interval f s =
     res_bind (timestamp_add clock interval) (\<lambda>w. add_timer tid f w interval s)"

definition CancelTimer :: "int \<Rightarrow> timer_id \<Rightarrow> ('f, 'z) loop \<Rightarrow> ('f, 'z) loop res" where
  "CancelTimer tid i s =
     res_bind (Cancel (IsInLoopThread tid s) i s) (\<lambda>(queued, s'). Inr (queue_tasks tid queued s'))"

subsection \<open>\<open>EventLoop\<close>: construction, the loop, destruction\<close>

text \<open>
  The constructor, with the loop this thread already has, if any, and the answer of
  \<open>eventfd\<close>. The closure of the wake-up channel is \<open>wake\<close>; running it is \<open>HandleRead\<close>.
\<close>

definition new_eventloop :: "bool \<Rightarrow> int \<Rightarrow> int \<Rightarrow> 'f \<Rightarrow> 'f eventloop res" where
  "new_eventloop other_loop tid efd wake =
     (if other_loop then Inl Aborted
      else if efd < 0 then Inl Aborted
      else
        let s = timer_mgr.extend new_mgr
              \<lparr>looping = False, quit = False, pending_functors_calling = False, loop_tid = tid,
               epoll_interest = Map.empty, chan_store = Map.empty, chan_next = 0, channels = {},
               active_channels = [], wakeup_fd = efd, wakeup_channel = 0, wakeup_count = 0,
               pending_functors = [], alive_ties = {}\<rparr>;
            (a, s1) = new_channel efd s in
        res_bind (SetReadHandler wake a (s1\<lparr>wakeup_channel := a\<rparr>)) (EnableRead tid a))"

text \<open>What one turn of the loop gets from outside: the clock at its three reads
  (\<open>NextTimeout\<close>, \<open>HandleExpired\<close>, each restart in \<open>timer_env\<close>) and the events.\<close>

record turn_input =
  turn_now :: timestamp
  turn_events :: "(32 word \<times> nat) list"
  turn_expiry_now :: timestamp

fun HandleAll :: "('f, 'z) closure_env \<Rightarrow> nat list \<Rightarrow> ('f, 'z) loop \<Rightarrow> ('f, 'z) loop res" where
  "HandleAll env [] s = Inr s"
| "HandleAll env (a # as) s = res_bind (HandleEvents env a s) (HandleAll env as)"

text \<open>A closure run by a timer, and the clock read after it.\<close>

type_synonym ('f, 'z) clock = "'f \<Rightarrow> ('f, 'z) eventloop_scheme \<Rightarrow> timestamp"

definition timer_closures ::
  "('f, 'z) closure_env \<Rightarrow> ('f, 'z) clock \<Rightarrow> 'f \<Rightarrow> ('f, 'z) loop \<Rightarrow> (('f, 'z) loop \<times> timestamp) res" where
  "timer_closures env clock f s = res_bind (env f s) (\<lambda>s'. Inr (s', clock f s'))"

definition loop_turn ::
  "nat \<Rightarrow> ('f, 'z) closure_env \<Rightarrow> ('f, 'z) clock \<Rightarrow> turn_input \<Rightarrow> ('f, 'z) loop \<Rightarrow> (int \<times> ('f, 'z) loop) res" where
  "loop_turn fuel env clock x s =
     (let s1 = s\<lparr>active_channels := []\<rparr> in
      res_bind (NextTimeout (turn_now x) s1) (\<lambda>t.
      let waitms = min 10000 t in
      res_bind (LoopOnce (take kMaxEvents (turn_events x)) s1) (\<lambda>s2.
      res_bind (HandleAll env (active_channels s2) s2) (\<lambda>s3.
      res_bind (HandleExpired fuel (timer_closures env clock) (turn_expiry_now x) s3) (\<lambda>(ran, s4).
      res_bind (CallPendingFunctors env s4) (\<lambda>(rs, s5). Inr (waitms, s5)))))))"

text \<open>The loop on as many turns as there are inputs; it returns when \<open>quit_\<close> is set.\<close>

fun loop_turns ::
  "nat \<Rightarrow> ('f, 'z) closure_env \<Rightarrow> ('f, 'z) clock \<Rightarrow> turn_input list \<Rightarrow> ('f, 'z) loop \<Rightarrow> ('f, 'z) loop res" where
  "loop_turns fuel env clock xs s =
     (if quit s then Inr s
      else case xs of
             [] \<Rightarrow> Inl Out_of_fuel
           | x # xs' \<Rightarrow> res_bind (loop_turn fuel env clock x s) (\<lambda>(waitms, s'). loop_turns fuel env clock xs' s'))"

definition Loop ::
  "int \<Rightarrow> nat \<Rightarrow> ('f, 'z) closure_env \<Rightarrow> ('f, 'z) clock \<Rightarrow> turn_input list \<Rightarrow> ('f, 'z) loop \<Rightarrow> ('f, 'z) loop res" where
  "Loop tid fuel env clock xs s =
     assert_then (\<not> looping s) (assert_then (IsInLoopThread tid s)
       (res_bind (loop_turns fuel env clock xs (s\<lparr>looping := True, quit := False\<rparr>)) (\<lambda>s'.
        Inr (s'\<lparr>looping := False\<rparr>))))"

text \<open>The destructor closes the channels that are left, from the least address on.\<close>

fun close_channels :: "int \<Rightarrow> nat \<Rightarrow> ('f, 'z) loop \<Rightarrow> ('f, 'z) loop res" where
  "close_channels tid 0 s = (if channels s = {} then Inr s else Inl Out_of_fuel)"
| "close_channels tid (Suc n) s =
     (if channels s = {} then Inr s
      else
        let a = Min (channels s) in
        res_bind (DisableReadWrite tid a s) (\<lambda>s1.
        res_bind (Channel_Close tid a s1) (close_channels tid n)))"

definition delete_eventloop :: "int \<Rightarrow> ('f, 'z) loop \<Rightarrow> ('f, 'z) loop res" where
  "delete_eventloop tid s =
     assert_then (\<not> looping s) (close_channels tid (card (channels s)) s)"

subsection \<open>The set of channels and the interest list agree\<close>

definition chan_inv :: "('f, 'z) loop \<Rightarrow> bool" where
  "chan_inv s \<longleftrightarrow>
     finite (channels s) \<and>
     (\<forall>a \<in> channels s. \<exists>c. chan_store s a = Some c \<and> epoll_interest s (ch_fd c) = Some (ch_events c, a)) \<and>
     (\<forall>fd e a. epoll_interest s fd = Some (e, a) \<longrightarrow>
        a \<in> channels s \<and> (\<exists>c. chan_store s a = Some c \<and> ch_fd c = fd))"

text \<open>A channel that may be enabled: in the loop's set, or on a descriptor that nobody uses.\<close>

definition can_register :: "nat \<Rightarrow> 'f channel \<Rightarrow> ('f, 'z) loop \<Rightarrow> bool" where
  "can_register a c s \<longleftrightarrow>
     chan_store s a = Some c \<and> 0 \<le> ch_fd c \<and> (a \<in> channels s \<or> epoll_interest s (ch_fd c) = None)"

lemmas loop_op_defs = assert_then.simps with_chan_def upd_chan_def set_chan_def
  UpdateChannel_def AddChannel_def HasChannel_def
  Epoller_AddChannel_def Epoller_UpdateChannel_def Epoller_RemoveChannel_def IsInLoopThread_def

lemma chan_invD:
  assumes "chan_inv s"
  shows "finite (channels s)"
    "a \<in> channels s \<Longrightarrow> chan_store s a = Some c \<Longrightarrow> epoll_interest s (ch_fd c) = Some (ch_events c, a)"
    "a \<in> channels s \<Longrightarrow> \<exists>c. chan_store s a = Some c"
    "epoll_interest s fd = Some (e, a) \<Longrightarrow> a \<in> channels s"
    "epoll_interest s fd = Some (e, a) \<Longrightarrow> chan_store s a = Some c \<Longrightarrow> ch_fd c = fd"
  using assms unfolding chan_inv_def by (blast, force, blast, blast, force)

lemma set_events_eq:
  assumes "chan_inv s" "can_register a c s"
  shows "set_events g (loop_tid s) a s =
    Inr (s\<lparr>chan_store := (chan_store s)(a \<mapsto> c\<lparr>ch_events := g (ch_events c)\<rparr>),
           channels := insert a (channels s),
           epoll_interest := (epoll_interest s)(ch_fd c \<mapsto> (g (ch_events c), a))\<rparr>)"
proof (cases "a \<in> channels s")
  case True
  with assms chan_invD(2) [OF assms(1) True] show ?thesis
    by (auto simp: set_events_def can_register_def loop_op_defs insert_absorb)
next
  case False
  with assms show ?thesis
    by (auto simp: set_events_def can_register_def loop_op_defs)
qed

lemma chan_fd_unique:
  assumes "chan_inv s" "chan_store s a = Some c" "a \<in> channels s \<or> epoll_interest s (ch_fd c) = None"
    and "b \<in> channels s" "chan_store s b = Some d" "b \<noteq> a"
  shows "ch_fd d \<noteq> ch_fd c"
proof
  assume eq: "ch_fd d = ch_fd c"
  have "epoll_interest s (ch_fd c) = Some (ch_events d, b)"
    using chan_invD(2) [OF assms(1,4,5)] eq by simp
  with chan_invD(2) [OF assms(1) _ assms(2)] assms(3,6) show False by auto
qed

lemma chan_invI:
  assumes "finite (channels s)"
    and "\<And>a. a \<in> channels s \<Longrightarrow> \<exists>c. chan_store s a = Some c \<and> epoll_interest s (ch_fd c) = Some (ch_events c, a)"
    and "\<And>fd e a. epoll_interest s fd = Some (e, a) \<Longrightarrow> a \<in> channels s \<and> (\<exists>c. chan_store s a = Some c \<and> ch_fd c = fd)"
  shows "chan_inv s"
  using assms unfolding chan_inv_def by blast

lemma chan_inv_cong:
  "channels t = channels s \<Longrightarrow> chan_store t = chan_store s \<Longrightarrow> epoll_interest t = epoll_interest s \<Longrightarrow>
   chan_inv t = chan_inv s"
  by (simp add: chan_inv_def)

lemma chan_inv_register:
  assumes "chan_inv s" "can_register a c s" "ch_fd c' = ch_fd c"
  shows "chan_inv (s\<lparr>chan_store := (chan_store s)(a \<mapsto> c'),
           channels := insert a (channels s),
           epoll_interest := (epoll_interest s)(ch_fd c \<mapsto> (ch_events c', a))\<rparr>)" (is "chan_inv ?t")
proof (rule chan_invI)
  have c: "chan_store s a = Some c" "a \<in> channels s \<or> epoll_interest s (ch_fd c) = None"
    using assms(2) by (auto simp: can_register_def)
  show "finite (channels ?t)" using chan_invD(1) [OF assms(1)] by simp
  show "\<exists>d. chan_store ?t b = Some d \<and> epoll_interest ?t (ch_fd d) = Some (ch_events d, b)"
    if "b \<in> channels ?t" for b
  proof (cases "b = a")
    case False
    with that obtain d where "b \<in> channels s" "chan_store s b = Some d"
      using chan_invD(3) [OF assms(1)] by auto
    with chan_fd_unique [OF assms(1) c _ _ False] chan_invD(2) [OF assms(1)] False show ?thesis by simp
  qed (use assms(3) in simp)
  show "b \<in> channels ?t \<and> (\<exists>d. chan_store ?t b = Some d \<and> ch_fd d = fd)"
    if "epoll_interest ?t fd = Some (e, b)" for fd e b
  proof (cases "fd = ch_fd c")
    case False
    with that have s: "epoll_interest s fd = Some (e, b)" by simp
    with chan_invD(5) [OF assms(1) s] c(1) False have "b \<noteq> a" by auto
    with chan_invD(3,4,5) [OF assms(1)] s show ?thesis by fastforce
  qed (use that assms(3) in auto)
qed

lemma chan_inv_unregister:
  assumes "chan_inv s" "chan_store s a = Some c" "a \<in> channels s"
  shows "chan_inv (s\<lparr>chan_store := (chan_store s)(a := x), channels := channels s - {a},
           epoll_interest := (epoll_interest s)(ch_fd c := None)\<rparr>)" (is "chan_inv ?t")
proof (rule chan_invI)
  show "finite (channels ?t)" using chan_invD(1) [OF assms(1)] by simp
  show "\<exists>d. chan_store ?t b = Some d \<and> epoll_interest ?t (ch_fd d) = Some (ch_events d, b)"
    if "b \<in> channels ?t" for b
  proof -
    from that obtain d where "b \<noteq> a" "b \<in> channels s" "chan_store s b = Some d"
      using chan_invD(3) [OF assms(1)] by auto
    with chan_fd_unique [OF assms(1,2) _ _ _ \<open>b \<noteq> a\<close>] assms(3) chan_invD(2) [OF assms(1)]
    show ?thesis by simp
  qed
  show "b \<in> channels ?t \<and> (\<exists>d. chan_store ?t b = Some d \<and> ch_fd d = fd)"
    if "epoll_interest ?t fd = Some (e, b)" for fd e b
  proof -
    from that have s: "epoll_interest s fd = Some (e, b)" "fd \<noteq> ch_fd c" by (auto split: if_splits)
    with chan_invD(5) [OF assms(1) s(1)] assms(2) have "b \<noteq> a" by auto
    with chan_invD(3,4,5) [OF assms(1)] s(1) show ?thesis by fastforce
  qed
qed

lemma set_events_ok:
  assumes "chan_inv s" "can_register a c s"
  shows "\<exists>s'. set_events g (loop_tid s) a s = Inr s' \<and> chan_inv s' \<and> channels s' = insert a (channels s) \<and>
    chan_store s' = (chan_store s)(a \<mapsto> c\<lparr>ch_events := g (ch_events c)\<rparr>) \<and>
    epoll_interest s' = (epoll_interest s)(ch_fd c \<mapsto> (g (ch_events c), a)) \<and>
    loop_tid s' = loop_tid s \<and> pending_functors s' = pending_functors s \<and> looping s' = looping s"
  using set_events_eq [OF assms, of g] chan_inv_register [OF assms, of "c\<lparr>ch_events := g (ch_events c)\<rparr>"]
  by simp

lemma set_events_other_thread: "tid \<noteq> loop_tid s \<Longrightarrow> chan_store s a \<noteq> None \<Longrightarrow>
    set_events g tid a s = Inl Assertion_failed"
  by (auto simp: set_events_def loop_op_defs)

lemma Channel_Close_ok:
  assumes "chan_inv s" "chan_store s a = Some c" "a \<in> channels s" "ch_events c = 0"
    "ch_owned c \<or> \<not> ch_event_handling c"
  shows "\<exists>s'. Channel_Close (loop_tid s) a s = Inr s' \<and> chan_inv s' \<and> channels s' = channels s - {a} \<and>
    chan_store s' = (chan_store s)(a := if ch_owned c
      then Some (c\<lparr>ch_read_cb := None, ch_write_cb := None, ch_error_cb := None\<rparr>) else None) \<and>
    epoll_interest s' = (epoll_interest s)(ch_fd c := None) \<and>
    loop_tid s' = loop_tid s \<and> looping s' = looping s"
proof -
  note inv = chan_inv_unregister [OF assms(1-3)]
  show ?thesis
  proof (cases "ch_owned c")
    case True
    with inv [of "Some (c\<lparr>ch_read_cb := None, ch_write_cb := None, ch_error_cb := None\<rparr>)"] assms(2-4)
    show ?thesis
      by (simp add: Channel_Close_def RemoveChannel_def release_channel_def loop_op_defs)
  next
    case False
    with inv [of None] assms(2-5) show ?thesis
      by (auto simp: Channel_Close_def RemoveChannel_def release_channel_def loop_op_defs
          elim: chan_inv_cong [THEN iffD1, rotated -1])
  qed
qed

lemma new_channel_ok:
  assumes "chan_inv s" "chan_store s (chan_next s) = None" "new_channel fd s = (a, s')"
  shows "chan_inv s'" "a = chan_next s" "channels s' = channels s" "epoll_interest s' = epoll_interest s"
    "chan_store s' a = Some \<lparr>ch_fd = fd, ch_events = 0, ch_revents = 0, ch_event_handling = False,
      ch_read_cb = None, ch_write_cb = None, ch_error_cb = None, ch_tie = None, ch_owned = True\<rparr>"
proof -
  show "a = chan_next s" "channels s' = channels s" "epoll_interest s' = epoll_interest s"
    "chan_store s' a = Some \<lparr>ch_fd = fd, ch_events = 0, ch_revents = 0, ch_event_handling = False,
      ch_read_cb = None, ch_write_cb = None, ch_error_cb = None, ch_tie = None, ch_owned = True\<rparr>"
    using assms(3) by (auto simp: new_channel_def)
  have "chan_store s' b = chan_store s b" if "b \<in> channels s" for b
    using that assms chan_invD(3) [OF assms(1) that] by (auto simp: new_channel_def)
  then show "chan_inv s'"
    using assms(1,3) chan_invD [OF assms(1)] unfolding chan_inv_def
    by (auto simp: new_channel_def) (metis+)?
qed

text \<open>The constructor leaves the wake-up descriptor registered for reading.\<close>

lemma new_eventloop_ok:
  assumes "0 \<le> efd"
  shows "\<exists>s. new_eventloop False tid efd wake = Inr s \<and> chan_inv s \<and> mgr_ok s \<and> loop_tid s = tid \<and>
    pending_functors s = [] \<and> \<not> looping s \<and> channels s = {wakeup_channel s} \<and>
    epoll_interest s efd = Some (EPOLLIN, wakeup_channel s)"
  using assms
  by (simp add: new_eventloop_def new_channel_def SetReadHandler_def EnableRead_def set_events_def
      loop_op_defs chan_inv_def mgr_ok_def heap_ok_def new_mgr_def timer_mgr.defs size_mod_def Let_def)

lemma chan_inv_no_channels: "chan_inv s \<Longrightarrow> channels s = {} \<Longrightarrow> epoll_interest s = Map.empty"
proof
  show "epoll_interest s fd = None" if "chan_inv s" "channels s = {}" for fd
    using chan_invD(4) [OF that(1), of fd] that(2) by (cases "epoll_interest s fd") auto
qed

text \<open>The events a channel asks for are only those that its operations set.\<close>

definition rw_events :: "'f channel \<Rightarrow> bool" where
  "rw_events c \<longleftrightarrow> ch_events c AND NOT (EPOLLIN OR EPOLLOUT) = 0"

lemma close_channels_ok:
  assumes "chan_inv s" "card (channels s) \<le> n"
    and "\<And>a c. a \<in> channels s \<Longrightarrow> chan_store s a = Some c \<Longrightarrow>
           \<not> ch_event_handling c \<and> 0 \<le> ch_fd c \<and> rw_events c"
  shows "\<exists>s'. close_channels (loop_tid s) n s = Inr s' \<and> chan_inv s' \<and> channels s' = {} \<and>
    epoll_interest s' = Map.empty"
  using assms
proof (induction n arbitrary: s)
  case 0
  then have "channels s = {}" using chan_invD(1) [OF 0(1)] by simp
  with 0(1) chan_inv_no_channels show ?case by simp
next
  case (Suc n)
  show ?case
  proof (cases "channels s = {}")
    case True
    with Suc.prems(1) chan_inv_no_channels show ?thesis by simp
  next
    case False
    define a where "a = Min (channels s)"
    note fin = chan_invD(1) [OF Suc.prems(1)]
    have a: "a \<in> channels s" using fin False by (simp add: a_def)
    then obtain c where c: "chan_store s a = Some c" using chan_invD(3) [OF Suc.prems(1)] by blast
    then have reg: "can_register a c s" using a Suc.prems(3) by (simp add: can_register_def)
    define c1 where "c1 = c\<lparr>ch_events := 0\<rparr>"
    obtain s1 where s1: "DisableReadWrite (loop_tid s) a s = Inr s1" "chan_inv s1" "channels s1 = channels s"
        "chan_store s1 = (chan_store s)(a \<mapsto> c1)" "loop_tid s1 = loop_tid s"
      using set_events_ok [OF Suc.prems(1) reg, of "\<lambda>e. e AND NOT (EPOLLIN OR EPOLLOUT)"] a Suc.prems(3) [OF a c]
      by (auto simp: DisableReadWrite_def insert_absorb c1_def rw_events_def)
    obtain s2 where s2: "Channel_Close (loop_tid s1) a s1 = Inr s2" "chan_inv s2" "channels s2 = channels s - {a}"
        "\<And>b. b \<noteq> a \<Longrightarrow> chan_store s2 b = chan_store s b" "loop_tid s2 = loop_tid s"
      using Channel_Close_ok [OF s1(2), of a c1] s1(3-5) a Suc.prems(3) [OF a c] by (auto simp: c1_def)
    have "\<exists>s'. close_channels (loop_tid s2) n s2 = Inr s' \<and> chan_inv s' \<and> channels s' = {} \<and>
        epoll_interest s' = Map.empty"
    proof (rule Suc.IH [OF s2(2)])
      show "card (channels s2) \<le> n" using Suc.prems(2) fin a by (simp add: s2(3))
      show "\<not> ch_event_handling d \<and> 0 \<le> ch_fd d \<and> rw_events d"
        if "b \<in> channels s2" "chan_store s2 b = Some d" for b d
        using that s2(3,4) Suc.prems(3) [of b d] by auto
    qed
    with False s1(1,5) s2(1,5) show ?thesis by (simp add: a_def [symmetric] Let_def)
  qed
qed

subsection \<open>Pending functors\<close>

text \<open>Closures that return, and what each appends to the queue.\<close>

definition appends :: "('f \<Rightarrow> 'f loop_functor list) \<Rightarrow> ('f, 'z) closure_env \<Rightarrow> bool" where
  "appends q env \<longleftrightarrow>
     (\<forall>f s. \<exists>s'. env f s = Inr s' \<and> pending_functors s' = pending_functors s @ q f)"

lemma run_functors_prefix:
  assumes "appends q env"
  shows "pending_functors s = map Closure fs @ gs \<Longrightarrow>
    \<exists>s'. run_functors env (length fs) s = Inr (map Closure fs, s') \<and>
      pending_functors s' = gs @ concat (map q fs)"
proof (induction fs arbitrary: s gs)
  case (Cons f fs)
  let ?t = "s\<lparr>pending_functors := map Closure fs @ gs\<rparr>"
  have "\<exists>s1. env f ?t = Inr s1 \<and> pending_functors s1 = pending_functors ?t @ q f"
    using assms unfolding appends_def by blast
  then obtain s1 where s1: "env f ?t = Inr s1" "pending_functors s1 = (map Closure fs @ gs) @ q f"
    by auto
  from Cons.IH [of s1 "gs @ q f"] s1(2) obtain s' where
    "run_functors env (length fs) s1 = Inr (map Closure fs, s')"
    "pending_functors s' = gs @ q f @ concat (map q fs)" by auto
  with Cons.prems s1(1) show ?case by simp
qed simp

text \<open>
  The loop and the other threads, as steps on the phase of the loop, the number of
  threads that have pushed a functor and not yet written to the wake-up descriptor,
  and the loop: \<open>QueueInLoop\<close> in another thread is two steps with anything between them.
\<close>

datatype phase = Polling | Dispatching | Calling nat

inductive reactor_step ::
  "phase \<times> nat \<times> ('f, 'z) loop \<Rightarrow> phase \<times> nat \<times> ('f, 'z) loop \<Rightarrow> bool" where
  other_push: "reactor_step (ph, w, s) (ph, Suc w, Push_functor f s)"
| other_wake: "reactor_step (ph, Suc w, s) (ph, w, WakeUp s)"
| poll_returns: "reactor_step (Polling, w, s) (Dispatching, w, s)"
| wake_read: "reactor_step (Dispatching, w, s) (Dispatching, w, HandleRead s)"
| own_queue: "ph \<noteq> Polling \<Longrightarrow> reactor_step (ph, w, s) (ph, w, QueueInLoop (loop_tid s) f s)"
| call_begins: "reactor_step (Dispatching, w, s)
    (Calling (length (pending_functors s)), w, s\<lparr>pending_functors_calling := True\<rparr>)"
| call_one: "pending_functors s = f # fs \<Longrightarrow>
    reactor_step (Calling (Suc n), w, s) (Calling n, w, s\<lparr>pending_functors := fs\<rparr>)"
| call_ends: "reactor_step (Calling 0, w, s) (Polling, w, s\<lparr>pending_functors_calling := False\<rparr>)"

inductive_simps reactor_step_simps: "reactor_step (ph, w, s) (ph', w', s')"

text \<open>What is queued in another thread is the two steps.\<close>

lemma QueueInLoop_other_thread: "tid \<noteq> loop_tid s \<Longrightarrow> QueueInLoop tid f s = WakeUp (Push_functor f s)"
  by (simp add: QueueInLoop_def IsInLoopThread_def Push_functor_def)

fun unserved :: "phase \<Rightarrow> ('f, 'z) loop \<Rightarrow> nat" where
  "unserved Polling s = length (pending_functors s)"
| "unserved Dispatching s = 0"
| "unserved (Calling n) s = length (pending_functors s) - n"

definition reactor_inv :: "phase \<times> nat \<times> ('f, 'z) loop \<Rightarrow> bool" where
  "reactor_inv = (\<lambda>(ph, w, s).
     pending_functors_calling s = (\<exists>n. ph = Calling n) \<and>
     (\<forall>n. ph = Calling n \<longrightarrow> n \<le> length (pending_functors s)) \<and>
     (0 < unserved ph s \<longrightarrow> 0 < w \<or> 0 < wakeup_count s))"

lemma WakeUp_count: "0 < wakeup_count (WakeUp s)" "pending_functors (WakeUp s) = pending_functors s"
  "pending_functors_calling (WakeUp s) = pending_functors_calling s"
  by (simp_all add: WakeUp_def size_mod_def)

lemma Push_functor_simps [simp]: "pending_functors (Push_functor f s) = pending_functors s @ [f]"
  "pending_functors_calling (Push_functor f s) = pending_functors_calling s"
  "wakeup_count (Push_functor f s) = wakeup_count s" "loop_tid (Push_functor f s) = loop_tid s"
  by (simp_all add: Push_functor_def)

lemma unserved_WakeUp [simp]: "unserved ph (WakeUp s) = unserved ph s"
  by (cases ph) (simp_all add: WakeUp_count)

lemma reactor_step_inv:
  assumes "reactor_step x y" "reactor_inv x"
  shows "reactor_inv y"
  using assms
proof (induction rule: reactor_step.induct)
  case (own_queue ph w s f)
  then show ?case
    by (cases ph) (auto simp: reactor_inv_def QueueInLoop_def IsInLoopThread_def WakeUp_count Let_def)
next
  case (call_one s f fs n w)
  then show ?case by (auto simp: reactor_inv_def)
qed (auto simp: reactor_inv_def WakeUp_count HandleRead_def)

subsection \<open>Event bits\<close>

lemma ReadEnabled_bit: "ReadEnabled c \<longleftrightarrow> bit (ch_events c) 0"
  using and_exp_eq_0_iff_not_bit [of "ch_events c" 0] by (simp add: ReadEnabled_def EPOLLIN_def)

lemma WriteEnabled_bit: "WriteEnabled c \<longleftrightarrow> bit (ch_events c) 2"
  using and_exp_eq_0_iff_not_bit [of "ch_events c" 2] by (simp add: WriteEnabled_def EPOLLOUT_def)

lemma bit_EPOLLIN: "bit EPOLLIN n \<longleftrightarrow> n = 0"
  by (simp add: EPOLLIN_def bit_1_iff)

lemma bit_EPOLLOUT: "bit EPOLLOUT n \<longleftrightarrow> n = 2"
  using bit_exp_iff [of 2 n, where ?'a = "32 word"] by (auto simp: EPOLLOUT_def possible_bit_def)

lemma rw_events_bit: "rw_events c \<longleftrightarrow> (\<forall>n < 32. bit (ch_events c) n \<longrightarrow> n = 0 \<or> n = 2)"
  by (auto simp: rw_events_def bit_eq_iff bit_and_iff bit_or_iff bit_not_iff bit_EPOLLIN bit_EPOLLOUT
      possible_bit_def)

lemmas event_bits = ReadEnabled_bit WriteEnabled_bit rw_events_bit bit_and_iff bit_or_iff bit_not_iff
  bit_EPOLLIN bit_EPOLLOUT possible_bit_def

subsection \<open>Properties\<close>

text \<open>
  What an operation of a channel leaves: the set and the interest list agree, the
  channel is in both, asks for reading and writing as given, and the rest is as before.
\<close>

definition channel_updated :: "nat \<Rightarrow> 'f channel \<Rightarrow> bool \<Rightarrow> bool \<Rightarrow> ('f, 'z) loop \<Rightarrow> ('f, 'z) loop res \<Rightarrow> bool" where
  "channel_updated a c r w s x \<longleftrightarrow>
     (\<exists>s' c'. x = Inr s' \<and> chan_inv s' \<and> channels s' = insert a (channels s) \<and>
        c' = c\<lparr>ch_events := ch_events c'\<rparr> \<and> ReadEnabled c' = r \<and> WriteEnabled c' = w \<and> rw_events c' \<and>
        chan_store s' = (chan_store s)(a \<mapsto> c') \<and>
        epoll_interest s' = (epoll_interest s)(ch_fd c \<mapsto> (ch_events c', a)) \<and>
        pending_functors s' = pending_functors s)"

lemma set_events_updated:
  assumes "chan_inv s" "can_register a c s"
    and "rw_events (c\<lparr>ch_events := g (ch_events c)\<rparr>)"
    and "ReadEnabled (c\<lparr>ch_events := g (ch_events c)\<rparr>) = r"
    and "WriteEnabled (c\<lparr>ch_events := g (ch_events c)\<rparr>) = w"
  shows "channel_updated a c r w s (set_events g (loop_tid s) a s)"
proof -
  obtain s' where "set_events g (loop_tid s) a s = Inr s'" "chan_inv s'" "channels s' = insert a (channels s)"
    "chan_store s' = (chan_store s)(a \<mapsto> c\<lparr>ch_events := g (ch_events c)\<rparr>)"
    "epoll_interest s' = (epoll_interest s)(ch_fd c \<mapsto> (g (ch_events c), a))"
    "pending_functors s' = pending_functors s"
    using set_events_ok [OF assms(1,2)] by blast
  with assms(3-5) show ?thesis unfolding channel_updated_def
    by (intro exI [of _ s'] exI [of _ "c\<lparr>ch_events := g (ch_events c)\<rparr>"]) simp
qed

text \<open>
  C10: Each operation of \<open>Channel\<close> that enables or disables reading or writing,
  called in the thread of the loop, changes just that and registers the channel:
  the first one adds it to the loop and to \<open>epoll\<close>, later ones modify the interest,
  and the set of channels and the interest list agree afterwards.
\<close>

theorem channel_update_spec:
  assumes "chan_inv s" "can_register a c s" "rw_events c"
  shows "channel_updated a c True (WriteEnabled c) s (EnableRead (loop_tid s) a s) \<and>
    channel_updated a c False (WriteEnabled c) s (DisableRead (loop_tid s) a s) \<and>
    channel_updated a c (ReadEnabled c) True s (EnableWrite (loop_tid s) a s) \<and>
    channel_updated a c (ReadEnabled c) False s (DisableWrite (loop_tid s) a s) \<and>
    channel_updated a c True True s (EnableReadWrite (loop_tid s) a s) \<and>
    channel_updated a c False False s (DisableReadWrite (loop_tid s) a s)"
  unfolding EnableRead_def DisableRead_def EnableWrite_def DisableWrite_def EnableReadWrite_def DisableReadWrite_def
  using assms(3) by (intro conjI set_events_updated [OF assms(1,2)]) (auto simp: event_bits)

text \<open>A loop as constructed, with one more channel, on descriptor 9.\<close>

definition demo_channel :: "nat channel" where
  "demo_channel = \<lparr>ch_fd = 9, ch_events = 0, ch_revents = 0, ch_event_handling = False, ch_read_cb = Some 1,
     ch_write_cb = None, ch_error_cb = None, ch_tie = None, ch_owned = True\<rparr>"

definition demo_loop :: "nat eventloop" where
  "demo_loop = timer_mgr.extend new_mgr
     \<lparr>looping = False, quit = False, pending_functors_calling = False, loop_tid = 7,
      epoll_interest = [3 \<mapsto> (EPOLLIN, 0)],
      chan_store = [0 \<mapsto> demo_channel\<lparr>ch_fd := 3, ch_events := EPOLLIN\<rparr>, 1 \<mapsto> demo_channel],
      chan_next = 2, channels = {0}, active_channels = [], wakeup_fd = 3, wakeup_channel = 0,
      wakeup_count = 0, pending_functors = [], alive_ties = {}\<rparr>"

lemma demo_loop_ok: "chan_inv demo_loop" "can_register 1 demo_channel demo_loop" "rw_events demo_channel"
  by (auto simp: chan_inv_def can_register_def rw_events_def demo_loop_def demo_channel_def timer_mgr.defs
      split: if_splits)

theorem channel_update_spec_witness:
  "channel_updated 1 demo_channel False True demo_loop (EnableWrite 7 1 demo_loop)"
  using channel_update_spec [OF demo_loop_ok]
  by (simp add: demo_loop_def timer_mgr.defs demo_channel_def ReadEnabled_def)

text \<open>
  The destructor of an event loop whose channels are not being handled closes
  them all: the set of channels and the interest list end empty.
\<close>

lemma delete_eventloop_spec:
  assumes "chan_inv s" "\<not> looping s"
    and "\<forall>a \<in> channels s. \<forall>c. chan_store s a = Some c \<longrightarrow>
           \<not> ch_event_handling c \<and> 0 \<le> ch_fd c \<and> rw_events c"
  shows "\<exists>s'. delete_eventloop (loop_tid s) s = Inr s' \<and> chan_inv s' \<and> channels s' = {} \<and>
    epoll_interest s' = Map.empty"
  using close_channels_ok [OF assms(1) order_refl] assms(2,3) by (simp add: delete_eventloop_def)


text \<open>Closure 1 queues closure 2 in the loop that runs it; the others do nothing.\<close>

definition demo_queue_env :: "(nat, unit) closure_env" where
  "demo_queue_env f s = Inr (if f = 1 then QueueInLoop (loop_tid s) (Closure 2) s else s)"

lemma demo_queue_env_appends: "appends (\<lambda>f. if f = 1 then [Closure 2] else []) demo_queue_env"
  by (auto simp: appends_def demo_queue_env_def QueueInLoop_def WakeUp_count Let_def)


lemma reactor_steps_inv: "reactor_step\<^sup>*\<^sup>* x y \<Longrightarrow> reactor_inv x \<Longrightarrow> reactor_inv y"
  by (induction rule: rtranclp_induct) (auto intro: reactor_step_inv)

text \<open>
  C8: No wake-up is lost between the loop and any number of threads that queue
  functors, under every interleaving: when the loop is about to sleep in
  \<open>epoll_wait\<close> with a functor pending, the wake-up descriptor is readable or a thread
  is just about to write to it. And \<open>CallPendingFunctors\<close>, which pops as many functors
  as it counted, never waits on an empty queue.
\<close>

theorem reactor_no_lost_wakeup:
  assumes "reactor_step\<^sup>*\<^sup>* (Polling, 0, s) (ph, w, s')"
    and "pending_functors s = []" "\<not> pending_functors_calling s"
  shows "(ph = Polling \<and> pending_functors s' \<noteq> [] \<longrightarrow> 0 < w \<or> 0 < wakeup_count s') \<and>
    (\<forall>n. ph = Calling n \<longrightarrow> n \<le> length (pending_functors s'))"
proof -
  have "reactor_inv (Polling, 0, s)" using assms(2,3) by (simp add: reactor_inv_def)
  from reactor_steps_inv [OF assms(1) this]
  show ?thesis by (cases ph) (auto simp: reactor_inv_def)
qed

theorem reactor_no_lost_wakeup_witness:
  "0 < wakeup_count (QueueInLoop 7 (Closure 5) (demo_loop\<lparr>pending_functors_calling := True\<rparr>))"
proof -
  define s where "s = demo_loop\<lparr>pending_functors_calling := True\<rparr>"
  define s' where "s' = QueueInLoop 7 (Closure 5) s"
  have demo: "pending_functors demo_loop = []" "loop_tid s = 7" "\<not> pending_functors_calling demo_loop"
    by (simp_all add: s_def demo_loop_def timer_mgr.defs)
  have "reactor_step (Polling, 0, demo_loop) (Dispatching, 0, demo_loop)" by (rule poll_returns)
  moreover have "reactor_step (Dispatching, 0, demo_loop) (Calling 0, 0, s)"
    using call_begins [of 0 demo_loop] demo(1) by (simp add: s_def)
  moreover have "reactor_step (Calling 0, 0, s) (Calling 0, 0, s')"
    using own_queue [of "Calling 0" 0 s "Closure 5"] demo(2) by (simp add: s'_def)
  moreover have "reactor_step (Calling 0, 0, s') (Polling, 0, s'\<lparr>pending_functors_calling := False\<rparr>)"
    by (rule call_ends)
  ultimately have "reactor_step\<^sup>*\<^sup>* (Polling, 0, demo_loop) (Polling, 0, s'\<lparr>pending_functors_calling := False\<rparr>)"
    by (meson rtranclp.rtrancl_into_rtrancl rtranclp.rtrancl_refl)
  from reactor_no_lost_wakeup [OF this demo(1,3)] show ?thesis
    by (simp add: s'_def s_def QueueInLoop_def WakeUp_count Let_def)
qed

end
