(* ===== verification/NetBuffer.thy ===== *)
theory NetBuffer
  imports Base
begin

section \<open>\<open>net/Buffer\<close>: the byte buffer of a connection\<close>

text \<open>
  A \<open>Buffer\<close> is a \<open>std::vector<char>\<close> with two indices: the bytes between
  \<open>read_index_\<close> and \<open>write_index_\<close> are readable, the \<open>kPrependSize\<close> bytes in front
  are kept free for headers. Every operation of \<open>Buffer.h\<close> and \<open>Buffer.cpp\<close> is a
  definition below, with its assertions and array accesses checked. The
  abstraction is the string of readable bytes, and a buffer is a queue over it.
\<close>

subsection \<open>State and operations\<close>

record buffer =
  buf_bytes :: string
  read_index :: nat
  write_index :: nat

definition kPrependSize :: nat where "kPrependSize = 8"

definition kInitSize :: nat where "kInitSize = 1024"

definition new_buffer :: "nat \<Rightarrow> buffer res" where
  "new_buffer init_size =
     res_bind (vec_resize (CHR 0x00) (size_add kPrependSize init_size) []) (\<lambda>xs.
     Inr \<lparr>buf_bytes = xs, read_index = kPrependSize, write_index = kPrependSize\<rparr>)"

definition Swap :: "buffer \<Rightarrow> buffer \<Rightarrow> buffer \<times> buffer" where
  "Swap b other =
     (b\<lparr>buf_bytes := buf_bytes other, read_index := read_index other,
        write_index := write_index other\<rparr>,
      other\<lparr>buf_bytes := buf_bytes b, read_index := read_index b, write_index := write_index b\<rparr>)"

definition ReadableBytes :: "buffer \<Rightarrow> nat" where
  "ReadableBytes b = size_sub (write_index b) (read_index b)"

definition WritableBytes :: "buffer \<Rightarrow> nat" where
  "WritableBytes b = size_sub (length (buf_bytes b)) (write_index b)"

definition PrependableBytes :: "buffer \<Rightarrow> nat" where
  "PrependableBytes b = read_index b"

definition Release :: "nat \<Rightarrow> buffer \<Rightarrow> buffer res" where
  "Release len b =
     assert_then (len \<le> ReadableBytes b)
       (Inr (if len < ReadableBytes b then b\<lparr>read_index := size_add (read_index b) len\<rparr>
             else b\<lparr>read_index := kPrependSize, write_index := kPrependSize\<rparr>))"

text \<open>\<open>c\<close> is the pointer argument, as an index into the buffer's array.\<close>

definition ReleaseUntil :: "nat \<Rightarrow> buffer \<Rightarrow> buffer res" where
  "ReleaseUntil c b = assert_then (read_index b \<le> c) (Release (c - read_index b) b)"

definition ReleaseAll :: "buffer \<Rightarrow> buffer res" where
  "ReleaseAll b = Release (ReadableBytes b) b"

definition Read :: "nat \<Rightarrow> buffer \<Rightarrow> (string \<times> buffer) res" where
  "Read len b =
     assert_then (len \<le> ReadableBytes b)
       (res_bind (mem_read (read_index b) len (buf_bytes b)) (\<lambda>s.
        res_bind (Release len b) (\<lambda>b'. Inr (s, b'))))"

definition ReadAll :: "buffer \<Rightarrow> (string \<times> buffer) res" where
  "ReadAll b = Read (ReadableBytes b) b"

definition AlignPrepend :: "buffer \<Rightarrow> buffer res" where
  "AlignPrepend b =
     (let read_byte = ReadableBytes b in
      if read_index b = kPrependSize then Inr b
      else
        res_bind
          (if read_index b < kPrependSize then
             res_bind
               (if length (buf_bytes b) < size_add read_byte kPrependSize
                then vec_resize (CHR 0x00) (size_add read_byte kPrependSize) (buf_bytes b)
                else Inr (buf_bytes b)) (\<lambda>xs.
             mem_copy_bwd read_byte (write_index b) (size_add read_byte kPrependSize) xs)
           else mem_copy_fwd read_byte (read_index b) kPrependSize (buf_bytes b)) (\<lambda>xs.
        Inr (b\<lparr>buf_bytes := xs, read_index := kPrependSize,
               write_index := size_add kPrependSize read_byte\<rparr>)))"

definition ExtendSpace :: "nat \<Rightarrow> buffer \<Rightarrow> buffer res" where
  "ExtendSpace len b =
     res_bind (AlignPrepend b) (\<lambda>b.
     if WritableBytes b < len then
       res_bind (vec_resize (CHR 0x00) (size_add (write_index b) len) (buf_bytes b)) (\<lambda>xs.
       Inr (b\<lparr>buf_bytes := xs\<rparr>))
     else Inr b)"

definition Write :: "string \<Rightarrow> buffer \<Rightarrow> buffer res" where
  "Write data b =
     res_bind (if WritableBytes b < length data then ExtendSpace (length data) b else Inr b) (\<lambda>b.
     assert_then (length data \<le> WritableBytes b)
       (res_bind (mem_write data (write_index b) (buf_bytes b)) (\<lambda>xs.
        Inr (b\<lparr>buf_bytes := xs, write_index := size_add (write_index b) (length data)\<rparr>))))"

definition UnWrite :: "nat \<Rightarrow> buffer \<Rightarrow> buffer res" where
  "UnWrite len b =
     assert_then (len \<le> ReadableBytes b)
       (Inr (b\<lparr>write_index := size_sub (write_index b) len\<rparr>))"

definition Prepend :: "string \<Rightarrow> buffer \<Rightarrow> buffer res" where
  "Prepend data b =
     assert_then (length data \<le> PrependableBytes b)
       (let r = size_sub (read_index b) (length data) in
        res_bind (mem_write data r (buf_bytes b)) (\<lambda>xs.
        Inr (b\<lparr>read_index := r, buf_bytes := xs\<rparr>)))"

definition Shrink :: "nat \<Rightarrow> buffer \<Rightarrow> buffer res" where
  "Shrink reserve b =
     res_bind (AlignPrepend b) (\<lambda>b.
     res_bind (vec_resize (CHR 0x00)
                 (size_add (size_add kPrependSize (ReadableBytes b)) reserve) (buf_bytes b)) (\<lambda>xs.
     Inr (b\<lparr>buf_bytes := xs\<rparr>)))"

text \<open>
  \<open>ReadFd\<close>: \<open>readv\<close> fills the writable space first and then a 65536-byte stack
  buffer, whose part is then written behind. Its answer is an input of the
  model: an error, or the bytes the kernel delivered.
\<close>

datatype read_answer = Read_error | Read_data string

definition extra_size :: nat where "extra_size = 65536"

fun ReadFd :: "read_answer \<Rightarrow> buffer \<Rightarrow> (int \<times> buffer) res" where
  "ReadFd Read_error b = Inr (-1, b)"
| "ReadFd (Read_data d) b =
     (let write_byte = WritableBytes b; n = length d in
      res_bind (mem_write (take write_byte d) (write_index b) (buf_bytes b)) (\<lambda>xs.
      if n \<le> write_byte then
        Inr (int n, b\<lparr>buf_bytes := xs, write_index := size_add (write_index b) n\<rparr>)
      else
        res_bind (Write (drop write_byte d)
                    (b\<lparr>buf_bytes := xs, write_index := length (buf_bytes b)\<rparr>)) (\<lambda>b'.
        Inr (int n, b'))))"

text \<open>What \<open>readv\<close> can deliver: no more than the space the two vectors offer.\<close>

fun readv_answer :: "read_answer \<Rightarrow> buffer \<Rightarrow> bool" where
  "readv_answer Read_error b = True"
| "readv_answer (Read_data d) b = (length d \<le> WritableBytes b + extra_size)"

subsection \<open>Abstraction and invariant\<close>

definition buf_inv :: "buffer \<Rightarrow> bool" where
  "buf_inv b \<longleftrightarrow>
     read_index b \<le> write_index b \<and> write_index b \<le> length (buf_bytes b) \<and>
     kPrependSize \<le> length (buf_bytes b) \<and> length (buf_bytes b) \<le> max_size"

definition contents :: "buffer \<Rightarrow> string" where
  "contents b = slice (read_index b) (write_index b) (buf_bytes b)"

text \<open>Room for \<open>n\<close> readable bytes in a vector of the largest size.\<close>

definition buf_room :: "nat \<Rightarrow> bool" where
  "buf_room n \<longleftrightarrow> kPrependSize + n \<le> max_size"

lemma size_mod_bounds:
  "max_size < size_mod" "kPrependSize + max_size < size_mod" "max_size + max_size < size_mod"
  by (simp_all add: size_mod_def max_size_def kPrependSize_def)

lemma buf_invD:
  assumes "buf_inv b"
  shows "read_index b \<le> write_index b" "write_index b \<le> length (buf_bytes b)"
    "kPrependSize \<le> length (buf_bytes b)" "length (buf_bytes b) \<le> max_size"
    "write_index b < size_mod" "length (buf_bytes b) < size_mod"
  using assms size_mod_bounds by (simp_all add: buf_inv_def)

lemma ReadableBytes_eq: "buf_inv b \<Longrightarrow> ReadableBytes b = write_index b - read_index b"
  by (simp add: ReadableBytes_def buf_invD)

lemma WritableBytes_eq: "buf_inv b \<Longrightarrow> WritableBytes b = length (buf_bytes b) - write_index b"
  by (simp add: WritableBytes_def buf_invD)

lemma length_contents: "buf_inv b \<Longrightarrow> length (contents b) = ReadableBytes b"
  by (simp add: contents_def ReadableBytes_eq buf_invD)

lemma buf_room_less: "buf_room n \<Longrightarrow> kPrependSize + n < size_mod"
  using size_mod_bounds by (simp add: buf_room_def)

subsection \<open>Each operation on a valid buffer\<close>

lemma new_buffer_ok:
  assumes "buf_room n"
  shows "\<exists>b. new_buffer n = Inr b \<and> buf_inv b \<and> contents b = [] \<and>
           WritableBytes b = n \<and> PrependableBytes b = kPrependSize"
  using assms buf_room_less [OF assms]
  by (auto simp: new_buffer_def vec_resize_def buf_room_def buf_inv_def contents_def
      WritableBytes_def PrependableBytes_def)

lemma Swap_swaps: "Swap b other = (other, b)"
  by (simp add: Swap_def)

lemma Release_ok:
  assumes "buf_inv b" "n \<le> length (contents b)"
  shows "\<exists>b'. Release n b = Inr b' \<and> buf_inv b' \<and> contents b' = drop n (contents b) \<and>
           buf_bytes b' = buf_bytes b"
proof (cases "n < ReadableBytes b")
  case True
  with assms have "n < write_index b - read_index b" by (simp add: ReadableBytes_eq)
  moreover from this buf_invD [OF assms(1)] have "size_add (read_index b) n = read_index b + n"
    by simp
  ultimately show ?thesis using True buf_invD [OF assms(1)]
    by (simp add: Release_def buf_inv_def contents_def drop_slice)
next
  case False
  with assms have "n = ReadableBytes b" by (simp add: length_contents)
  with assms show ?thesis
    by (simp add: Release_def length_contents buf_inv_def) (simp add: contents_def)
qed

lemma Release_fails:
  "buf_inv b \<Longrightarrow> length (contents b) < n \<Longrightarrow> Release n b = Inl Assertion_failed"
  by (simp add: Release_def length_contents)

lemma Read_ok:
  assumes "buf_inv b" "n \<le> length (contents b)"
  shows "\<exists>b'. Read n b = Inr (take n (contents b), b') \<and> buf_inv b' \<and>
           contents b' = drop n (contents b)"
proof -
  note D = buf_invD [OF assms(1)]
  have n: "n \<le> write_index b - read_index b"
    using assms by (simp add: length_contents ReadableBytes_eq)
  then have "mem_read (read_index b) n (buf_bytes b) = Inr (take n (contents b))"
    using D by (simp add: mem_read_def contents_def take_slice)
  moreover obtain b' where "Release n b = Inr b'" "buf_inv b'" "contents b' = drop n (contents b)"
    using Release_ok [OF assms] by blast
  ultimately show ?thesis using n assms(1) by (simp add: Read_def ReadableBytes_eq)
qed

lemma Read_fails:
  "buf_inv b \<Longrightarrow> length (contents b) < n \<Longrightarrow> Read n b = Inl Assertion_failed"
  by (simp add: Read_def length_contents)

lemma ReadAll_ok:
  assumes "buf_inv b"
  shows "\<exists>b'. ReadAll b = Inr (contents b, b') \<and> buf_inv b' \<and> contents b' = []"
  using Read_ok [OF assms order_refl] by (simp add: ReadAll_def length_contents [OF assms])

text \<open>
  Moving the readable bytes to their place behind the prepend space keeps them,
  in both directions of overlap, and grows the vector only where it must.
\<close>

lemma AlignPrepend_ok:
  assumes "buf_inv b" "buf_room (length (contents b))"
  shows "\<exists>b'. AlignPrepend b = Inr b' \<and> buf_inv b' \<and> contents b' = contents b \<and>
           read_index b' = kPrependSize \<and>
           length (buf_bytes b') = max (length (buf_bytes b)) (kPrependSize + length (contents b))"
proof -
  note D = buf_invD [OF assms(1)]
  define n where "n = ReadableBytes b"
  have n: "n = write_index b - read_index b" "n \<le> write_index b" "length (contents b) = n"
    using assms(1) by (simp_all add: n_def ReadableBytes_eq length_contents)
  have add: "size_add n kPrependSize = n + kPrependSize" "size_add kPrependSize n = kPrependSize + n"
    and room: "kPrependSize + n \<le> max_size"
    using buf_room_less [OF assms(2)] assms(2) n by (simp_all add: ac_simps buf_room_def)
  consider (at) "read_index b = kPrependSize" | (left) "read_index b < kPrependSize"
    | (right) "kPrependSize < read_index b" by linarith
  then show ?thesis
  proof cases
    case at
    with D n assms(1) show ?thesis by (simp add: AlignPrepend_def)
  next
    case left
    define ys where "ys =
      (if length (buf_bytes b) < n + kPrependSize
       then take (n + kPrependSize) (buf_bytes b) @
              replicate (n + kPrependSize - length (buf_bytes b)) (CHR 0x00)
       else buf_bytes b)"
    have ys: "length ys = max (length (buf_bytes b)) (n + kPrependSize)"
      "slice (write_index b - n) (write_index b) ys = contents b"
      using D n left by (auto simp: ys_def contents_def slice_append1)
    have w: "write_index b \<le> n + kPrependSize" using n left by linarith
    let ?zs = "copy_bwd n (write_index b) (n + kPrependSize) ys"
    have eq: "AlignPrepend b = Inr (b\<lparr>buf_bytes := ?zs, read_index := kPrependSize,
                                     write_index := kPrependSize + n\<rparr>)"
    proof -
      have "mem_copy_bwd n (write_index b) (n + kPrependSize) ys = Inr ?zs"
        using D(2) n(2) ys(1) w by (simp add: mem_copy_bwd_def)
      moreover have "vec_resize (CHR 0x00) (n + kPrependSize) (buf_bytes b) = Inr ys"
        if "length (buf_bytes b) < n + kPrependSize"
        using that room by (simp add: ys_def vec_resize_def)
      moreover have "ys = buf_bytes b" if "\<not> length (buf_bytes b) < n + kPrependSize"
        using that by (simp add: ys_def)
      ultimately show ?thesis
        using left by (cases "length (buf_bytes b) < n + kPrependSize")
          (simp_all add: AlignPrepend_def Let_def n_def [symmetric] add)
    qed
    have "slice kPrependSize (n + kPrependSize) ?zs = contents b"
      using slice_copy_bwd [of n "write_index b" "n + kPrependSize" ys] n(2) w ys by simp
    with eq ys(1) D(3,4) room n(3) show ?thesis
      by (simp add: buf_inv_def contents_def add.commute [of n])
  next
    case right
    let ?zs = "copy_fwd n (read_index b) kPrependSize (buf_bytes b)"
    have le: "read_index b + n \<le> length (buf_bytes b)" "kPrependSize + n \<le> length (buf_bytes b)"
      using right D(1,2) n(1) by linarith+
    then have "AlignPrepend b = Inr (b\<lparr>buf_bytes := ?zs, read_index := kPrependSize,
                                       write_index := kPrependSize + n\<rparr>)"
      using right by (simp add: AlignPrepend_def Let_def n_def [symmetric] add mem_copy_fwd_def)
    moreover have "slice kPrependSize (kPrependSize + n) ?zs = contents b"
      using right D(1) n(1) le(1) slice_copy_fwd [of kPrependSize "read_index b" n "buf_bytes b"]
      by (simp add: contents_def)
    ultimately show ?thesis using le D(3,4) n(3) by (simp add: buf_inv_def contents_def)
  qed
qed

lemma AlignPrepend_at: "read_index b = kPrependSize \<Longrightarrow> AlignPrepend b = Inr b"
  by (simp add: AlignPrepend_def)

lemma ExtendSpace_ok:
  assumes "buf_inv b" "buf_room (length (contents b) + len)"
  shows "\<exists>b'. ExtendSpace len b = Inr b' \<and> buf_inv b' \<and> contents b' = contents b \<and>
           read_index b' = kPrependSize \<and> len \<le> WritableBytes b' \<and>
           length (buf_bytes b') =
             max (length (buf_bytes b)) (kPrependSize + length (contents b) + len)"
proof -
  from assms(2) have "buf_room (length (contents b))" by (simp add: buf_room_def)
  with AlignPrepend_ok [OF assms(1)] obtain c where c: "AlignPrepend b = Inr c" "buf_inv c"
    "contents c = contents b" "read_index c = kPrependSize"
    "length (buf_bytes c) = max (length (buf_bytes b)) (kPrependSize + length (contents b))"
    by blast
  note D = buf_invD [OF c(2)]
  have w: "write_index c = kPrependSize + length (contents b)"
    using length_contents [OF c(2)] c(3,4) D(1) by (simp add: ReadableBytes_eq [OF c(2)])
  have add: "size_add (write_index c) len = write_index c + len"
    and room: "write_index c + len \<le> max_size"
    using buf_room_less [OF assms(2)] assms(2) w by (simp_all add: buf_room_def)
  show ?thesis
  proof (cases "WritableBytes c < len")
    case False
    then have "write_index c + len \<le> length (buf_bytes c)"
      using D(2) by (simp add: WritableBytes_eq [OF c(2)])
    with False c w show ?thesis by (simp add: ExtendSpace_def)
  next
    case True
    then have lt: "length (buf_bytes c) < write_index c + len"
      using D(2) by (simp add: WritableBytes_eq [OF c(2)])
    define xs where "xs = buf_bytes c @ replicate (write_index c + len - length (buf_bytes c)) (CHR 0x00)"
    let ?b = "c\<lparr>buf_bytes := xs\<rparr>"
    have xs: "length xs = write_index c + len" using lt by (simp add: xs_def)
    have "ExtendSpace len b = Inr ?b"
      using True c(1) lt room by (simp add: ExtendSpace_def add vec_resize_def xs_def)
    moreover have inv: "buf_inv ?b" using c(2) xs room lt by (simp add: buf_inv_def)
    moreover have "contents ?b = contents b"
      using D(2) c(3) by (simp add: contents_def xs_def slice_append1)
    moreover have "len \<le> WritableBytes ?b" using xs by (simp add: WritableBytes_eq [OF inv])
    moreover have "length xs = max (length (buf_bytes b)) (kPrependSize + length (contents b) + len)"
      using xs w lt c(5) by simp
    ultimately show ?thesis using c(4) by simp
  qed
qed

lemma Write_fits:
  assumes "buf_inv b" "length s \<le> WritableBytes b"
  shows "\<exists>b'. res_bind (mem_write s (write_index b) (buf_bytes b)) (\<lambda>xs.
             Inr (b\<lparr>buf_bytes := xs, write_index := size_add (write_index b) (length s)\<rparr>)) = Inr b' \<and>
           buf_inv b' \<and> contents b' = contents b @ s \<and> read_index b' = read_index b \<and>
           length (buf_bytes b') = length (buf_bytes b)"
proof -
  note D = buf_invD [OF assms(1)]
  have le: "write_index b + length s \<le> length (buf_bytes b)"
    using assms(2) D(2) by (simp add: WritableBytes_eq [OF assms(1)])
  with D(6) have add: "size_add (write_index b) (length s) = write_index b + length s" by simp
  let ?b = "b\<lparr>buf_bytes := copy_in s (write_index b) (buf_bytes b),
               write_index := write_index b + length s\<rparr>"
  have "contents ?b = slice (read_index b) (write_index b) (buf_bytes b) @ s"
    using le D(1,2) slice_append [of "read_index b" "write_index b" "write_index b + length s"
      "copy_in s (write_index b) (buf_bytes b)", symmetric]
    by (simp add: contents_def slice_copy_in_before slice_copy_in_after)
  with le D show ?thesis by (simp add: mem_write_def add buf_inv_def contents_def)
qed

text \<open>Writing appends; the vector grows only when sliding the bytes down is not enough.\<close>

lemma Write_ok:
  assumes "buf_inv b" "buf_room (length (contents b) + length s)"
  shows "\<exists>b'. Write s b = Inr b' \<and> buf_inv b' \<and> contents b' = contents b @ s \<and>
           length (buf_bytes b') = (if length s \<le> WritableBytes b then length (buf_bytes b)
             else max (length (buf_bytes b)) (kPrependSize + length (contents b) + length s)) \<and>
           read_index b' = (if length s \<le> WritableBytes b then read_index b else kPrependSize)"
proof (cases "WritableBytes b < length s")
  case False
  then have "length s \<le> WritableBytes b" by simp
  with Write_fits [OF assms(1) this] show ?thesis by (auto simp: Write_def)
next
  case True
  obtain c where c: "ExtendSpace (length s) b = Inr c" "buf_inv c" "contents c = contents b"
    "read_index c = kPrependSize" "length s \<le> WritableBytes c"
    "length (buf_bytes c) = max (length (buf_bytes b)) (kPrependSize + length (contents b) + length s)"
    using ExtendSpace_ok [OF assms] by blast
  from Write_fits [OF c(2,5)] c True show ?thesis by (auto simp: Write_def)
qed

lemma UnWrite_ok:
  assumes "buf_inv b" "n \<le> length (contents b)"
  shows "\<exists>b'. UnWrite n b = Inr b' \<and> buf_inv b' \<and>
           contents b' = take (length (contents b) - n) (contents b)"
proof -
  note D = buf_invD [OF assms(1)]
  have n: "n \<le> write_index b - read_index b" "n \<le> write_index b"
    using assms(2) by (simp_all add: length_contents [OF assms(1)] ReadableBytes_eq [OF assms(1)])
  with D(5) have "size_sub (write_index b) n = write_index b - n" by simp
  moreover have "contents (b\<lparr>write_index := write_index b - n\<rparr>) =
      take (length (contents b) - n) (contents b)"
    using D(1,2) n(1) by (simp add: contents_def take_slice)
  moreover have "read_index b \<le> write_index b - n" "write_index b - n \<le> length (buf_bytes b)"
    using n D(1,2) by linarith+
  ultimately show ?thesis using n(1) D(3,4)
    by (simp add: UnWrite_def ReadableBytes_eq [OF assms(1)] buf_inv_def)
qed

lemma Prepend_ok:
  assumes "buf_inv b" "length s \<le> PrependableBytes b"
  shows "\<exists>b'. Prepend s b = Inr b' \<and> buf_inv b' \<and> contents b' = s @ contents b \<and>
           PrependableBytes b' = PrependableBytes b - length s"
proof -
  note D = buf_invD [OF assms(1)]
  let ?r = "read_index b - length s"
  have le: "length s \<le> read_index b" using assms(2) by (simp add: PrependableBytes_def)
  have sub: "size_sub (read_index b) (length s) = ?r" using le D(1,5) by simp
  let ?b = "b\<lparr>read_index := ?r, buf_bytes := copy_in s ?r (buf_bytes b)\<rparr>"
  have "slice (read_index b) (write_index b) (copy_in s ?r (buf_bytes b)) = contents b"
    using le D(1,2) by (simp add: contents_def slice_copy_in_beyond)
  moreover have "slice ?r (read_index b) (copy_in s ?r (buf_bytes b)) = s"
    using slice_copy_in_after [of ?r s "buf_bytes b"] le D(1,2) by simp
  ultimately have "contents ?b = s @ contents b"
    using slice_append [of ?r "read_index b" "write_index b" "copy_in s ?r (buf_bytes b)"] D(1)
    by (simp add: contents_def)
  with le D sub show ?thesis
    by (simp add: Prepend_def PrependableBytes_def Let_def mem_write_def buf_inv_def)
qed

lemma Shrink_ok:
  assumes "buf_inv b" "buf_room (length (contents b) + reserve)"
  shows "\<exists>b'. Shrink reserve b = Inr b' \<and> buf_inv b' \<and> contents b' = contents b \<and>
           WritableBytes b' = reserve \<and> PrependableBytes b' = kPrependSize"
proof -
  from assms(2) have "buf_room (length (contents b))" by (simp add: buf_room_def)
  with AlignPrepend_ok [OF assms(1)] obtain c where c: "AlignPrepend b = Inr c" "buf_inv c"
    "contents c = contents b" "read_index c = kPrependSize" by blast
  note D = buf_invD [OF c(2)]
  define m where "m = kPrependSize + length (contents b) + reserve"
  have w: "write_index c = kPrependSize + length (contents b)"
    using length_contents [OF c(2)] c(3,4) D(1) by (simp add: ReadableBytes_eq [OF c(2)])
  have m: "m \<le> max_size" "write_index c \<le> m" "kPrependSize \<le> m" "m - write_index c = reserve"
    "size_add (size_add kPrependSize (ReadableBytes c)) reserve = m"
    using buf_room_less [OF assms(2)] assms(2) w length_contents [OF c(2)] c(3)
    by (simp_all add: m_def buf_room_def)
  define xs where "xs = take m (buf_bytes c) @ replicate (m - length (buf_bytes c)) (CHR 0x00)"
  have len: "length xs = m" by (auto simp: xs_def)
  have "Shrink reserve b = Inr (c\<lparr>buf_bytes := xs\<rparr>)"
    using c(1) m(1,5) by (simp add: Shrink_def vec_resize_def xs_def)
  moreover have inv: "buf_inv (c\<lparr>buf_bytes := xs\<rparr>)"
    using c(2) m by (simp add: buf_inv_def len)
  moreover have "contents (c\<lparr>buf_bytes := xs\<rparr>) = contents b"
    using c(3) D(2) m(2) by (simp add: contents_def xs_def slice_vec_resize)
  moreover have "WritableBytes (c\<lparr>buf_bytes := xs\<rparr>) = reserve"
    using m(4) by (simp add: WritableBytes_eq [OF inv] len)
  ultimately show ?thesis using c(4) by (simp add: PrependableBytes_def)
qed

lemma AlignPrepend_too_big:
  assumes "buf_inv b" "\<not> buf_room (length (contents b))"
  shows "AlignPrepend b = Inl Length_error"
proof -
  note D = buf_invD [OF assms(1)]
  define n where "n = ReadableBytes b"
  have n: "n = write_index b - read_index b" "max_size < n + kPrependSize"
    using assms by (simp_all add: n_def ReadableBytes_eq length_contents buf_room_def)
  have lt: "read_index b < kPrependSize" "length (buf_bytes b) < n + kPrependSize"
    using n D(1,2,4) by linarith+
  have "n \<le> max_size" using n(1) D(2,4) by linarith
  then have "size_add n kPrependSize = n + kPrependSize" using size_mod_bounds by simp
  with lt n(2) show ?thesis
    by (simp add: AlignPrepend_def Let_def n_def [symmetric] vec_resize_def)
qed

text \<open>A write that no vector can hold raises \<open>std::length_error\<close>; nothing is written.\<close>

lemma Write_too_big:
  assumes "buf_inv b" "\<not> buf_room (length (contents b) + length s)" "length s \<le> max_size"
    and "WritableBytes b < length s"
  shows "Write s b = Inl Length_error"
proof (cases "buf_room (length (contents b))")
  case False
  with AlignPrepend_too_big [OF assms(1)] assms(4) show ?thesis
    by (simp add: Write_def ExtendSpace_def)
next
  case True
  with AlignPrepend_ok [OF assms(1)] obtain c where c: "AlignPrepend b = Inr c" "buf_inv c"
    "contents c = contents b" "read_index c = kPrependSize" by blast
  note D = buf_invD [OF c(2)]
  have w: "write_index c = kPrependSize + length (contents b)"
    using length_contents [OF c(2)] c(3,4) D(1) by (simp add: ReadableBytes_eq [OF c(2)])
  have big: "max_size < write_index c + length s"
    using assms(2) w by (simp add: buf_room_def)
  then have "WritableBytes c < length s" "size_add (write_index c) (length s) = write_index c + length s"
    using D(2,4) assms(3) size_mod_bounds by (auto simp: WritableBytes_eq [OF c(2)])
  with c(1) big assms(4) show ?thesis by (simp add: Write_def ExtendSpace_def vec_resize_def)
qed

lemma Write_cases:
  assumes "buf_inv b" "length s \<le> max_size"
  obtains (ok) b' where "Write s b = Inr b'" "buf_inv b'" "contents b' = contents b @ s"
  | (big) "Write s b = Inl Length_error"
proof (cases "buf_room (length (contents b) + length s)")
  case True
  with Write_ok [OF assms(1)] that(1) show ?thesis by blast
next
  case False
  then show ?thesis
    using Write_fits [OF assms(1)] Write_too_big [OF assms(1) False assms(2)] that
    by (cases "length s \<le> WritableBytes b") (auto simp: Write_def)
qed

lemma ReadFd_cases:
  assumes "buf_inv b" "readv_answer a b"
  obtains (error) "a = Read_error" "ReadFd a b = Inr (-1, b)"
  | (ok) d b' where "a = Read_data d" "ReadFd a b = Inr (int (length d), b')" "buf_inv b'"
      "contents b' = contents b @ d"
  | (big) d where "a = Read_data d" "ReadFd a b = Inl Length_error"
proof (cases a)
  case Read_error
  with that(1) show ?thesis by simp
next
  case (Read_data d)
  note D = buf_invD [OF assms(1)]
  let ?t = "take (WritableBytes b) d"
  obtain c where c: "res_bind (mem_write ?t (write_index b) (buf_bytes b)) (\<lambda>xs.
        Inr (b\<lparr>buf_bytes := xs, write_index := size_add (write_index b) (length ?t)\<rparr>)) = Inr c"
      "buf_inv c" "contents c = contents b @ ?t" "length (buf_bytes c) = length (buf_bytes b)"
    using Write_fits [OF assms(1), of ?t] by auto
  then obtain xs where xs: "mem_write ?t (write_index b) (buf_bytes b) = Inr xs"
    "c = b\<lparr>buf_bytes := xs, write_index := size_add (write_index b) (length ?t)\<rparr>"
    by (auto simp: res_bind_Inr_iff)
  show ?thesis
  proof (cases "length d \<le> WritableBytes b")
    case True
    with xs c Read_data show ?thesis by (intro that(2) [of d c]) (simp_all add: Let_def)
  next
    case False
    then have "size_add (write_index b) (length ?t) = length (buf_bytes b)"
      using D(2,6) by (simp add: WritableBytes_eq [OF assms(1)])
    with xs(2) have ceq: "c = b\<lparr>buf_bytes := xs, write_index := length (buf_bytes b)\<rparr>" by simp
    have len: "length (drop (WritableBytes b) d) \<le> max_size"
      using assms(2) Read_data by (simp add: extra_size_def max_size_def)
    show ?thesis
    proof (rule Write_cases [OF c(2) len])
      fix b' assume "Write (drop (WritableBytes b) d) c = Inr b'" "buf_inv b'"
        "contents b' = contents c @ drop (WritableBytes b) d"
      with xs(1) ceq c(3) False Read_data show ?thesis
        by (intro that(2) [of d b']) (simp_all add: Let_def)
    next
      assume "Write (drop (WritableBytes b) d) c = Inl Length_error"
      with xs(1) ceq False Read_data show ?thesis
        by (intro that(3) [of d]) (simp_all add: Let_def)
    qed
  qed
qed

lemma ReadFd_ok:
  assumes "buf_inv b" "readv_answer (Read_data d) b" "buf_room (length (contents b) + length d)"
  shows "\<exists>b'. ReadFd (Read_data d) b = Inr (int (length d), b') \<and> buf_inv b' \<and> contents b' = contents b @ d"
proof (cases rule: ReadFd_cases [OF assms(1,2)])
  case (3 d')
  note D = buf_invD [OF assms(1)]
  let ?t = "take (WritableBytes b) d" and ?r = "drop (WritableBytes b) d"
  obtain xs where xs: "mem_write ?t (write_index b) (buf_bytes b) = Inr xs"
    "buf_inv (b\<lparr>buf_bytes := xs, write_index := size_add (write_index b) (length ?t)\<rparr>)"
    "contents (b\<lparr>buf_bytes := xs, write_index := size_add (write_index b) (length ?t)\<rparr>) =
       contents b @ ?t"
    using Write_fits [OF assms(1), of ?t] by (auto simp: res_bind_Inr_iff)
  have long: "\<not> length d \<le> WritableBytes b" using 3 xs(1) by (auto simp: Let_def)
  then have "size_add (write_index b) (length ?t) = length (buf_bytes b)"
    using D(2,6) by (simp add: WritableBytes_eq [OF assms(1)])
  moreover have "buf_room (length (contents b @ ?t) + length ?r)" using assms(3) long by simp
  ultimately show ?thesis using Write_ok [OF xs(2), of ?r] xs 3 long by (auto simp: Let_def)
qed auto

subsection \<open>The interface the connection uses\<close>

text \<open>
  \<open>TcpConnection\<close> uses a buffer through three operations: put bytes at the end,
  drop bytes from the front, and look at the readable bytes. The laws are what it
  relies on; whatever interleaving of puts and drops is made, the bytes dropped
  and the bytes still held are, in order, the bytes that were put in.
\<close>

locale byte_queue =
  fixes valid :: "'b \<Rightarrow> bool" and held :: "'b \<Rightarrow> string"
    and put :: "string \<Rightarrow> 'b \<Rightarrow> 'b res" and drop_front :: "nat \<Rightarrow> 'b \<Rightarrow> 'b res"
    and room :: "nat \<Rightarrow> bool"
  assumes put_law: "valid b \<Longrightarrow> room (length (held b) + length s) \<Longrightarrow>
      \<exists>b'. put s b = Inr b' \<and> valid b' \<and> held b' = held b @ s"
    and drop_law: "valid b \<Longrightarrow> n \<le> length (held b) \<Longrightarrow>
      \<exists>b'. drop_front n b = Inr b' \<and> valid b' \<and> held b' = drop n (held b)"
    and room_mono: "room n \<Longrightarrow> m \<le> n \<Longrightarrow> room m"
begin

lemma put_Inr:
  "valid b \<Longrightarrow> room (length (held b) + length s) \<Longrightarrow> put s b = Inr b' \<Longrightarrow>
   valid b' \<and> held b' = held b @ s"
  using put_law by fastforce

lemma drop_Inr:
  "valid b \<Longrightarrow> n \<le> length (held b) \<Longrightarrow> drop_front n b = Inr b' \<Longrightarrow>
   valid b' \<and> held b' = drop n (held b)"
  using drop_law by fastforce

lemma drop_then_put:
  assumes "valid b" "n \<le> length (held b)" "room (length (held b) + length s)"
  shows "\<exists>b'. res_bind (drop_front n b) (put s) = Inr b' \<and> valid b' \<and>
           take n (held b) @ held b' = held b @ s"
proof -
  obtain c where c: "drop_front n b = Inr c" "valid c" "held c = drop n (held b)"
    using drop_law [OF assms(1,2)] by blast
  have "room (length (held c) + length s)"
    using assms(3) c(3) by (rule_tac room_mono) auto
  with put_law [OF c(2)] c(1,3) show ?thesis by fastforce
qed

lemma put_then_drop:
  assumes "valid b" "n \<le> length (held b) + length s" "room (length (held b) + length s)"
  shows "\<exists>b'. res_bind (put s b) (drop_front n) = Inr b' \<and> valid b' \<and>
           take n (held b @ s) @ held b' = held b @ s"
proof -
  obtain c where c: "put s b = Inr c" "valid c" "held c = held b @ s"
    using put_law [OF assms(1,3)] by blast
  then have "n \<le> length (held c)" using assms(2) by simp
  with drop_law [OF c(2)] obtain d where "drop_front n c = Inr d" "valid d" "held d = drop n (held c)"
    by blast
  with c show ?thesis by (intro exI [of _ d]) (simp only: append_take_drop_id res_bind.simps simp_thms)
qed

end

interpretation net_buffer: byte_queue buf_inv contents Write Release buf_room
proof
  show "buf_inv b \<Longrightarrow> buf_room (length (contents b) + length s) \<Longrightarrow>
      \<exists>b'. Write s b = Inr b' \<and> buf_inv b' \<and> contents b' = contents b @ s" for b s
    using Write_ok by blast
  show "buf_inv b \<Longrightarrow> n \<le> length (contents b) \<Longrightarrow>
      \<exists>b'. Release n b = Inr b' \<and> buf_inv b' \<and> contents b' = drop n (contents b)" for b n
    using Release_ok by blast
  show "buf_room n \<Longrightarrow> m \<le> n \<Longrightarrow> buf_room m" for n m
    by (simp add: buf_room_def)
qed

subsection \<open>Refinement: a buffer is a queue of bytes\<close>

text \<open>
  The public operations as a sequence, on the buffer and on the string it
  stands for. Each step yields the string the call returns (empty for those
  that return none).
\<close>

datatype buf_op =
    Op_Write string
  | Op_Read nat
  | Op_ReadAll
  | Op_Release nat
  | Op_UnWrite nat
  | Op_Prepend string
  | Op_Shrink nat
  | Op_ReadFd read_answer

fun buf_step :: "buf_op \<Rightarrow> buffer \<Rightarrow> (string \<times> buffer) res" where
  "buf_step (Op_Write s) b = res_bind (Write s b) (\<lambda>b. Inr ([], b))"
| "buf_step (Op_Read n) b = Read n b"
| "buf_step Op_ReadAll b = ReadAll b"
| "buf_step (Op_Release n) b = res_bind (Release n b) (\<lambda>b. Inr ([], b))"
| "buf_step (Op_UnWrite n) b = res_bind (UnWrite n b) (\<lambda>b. Inr ([], b))"
| "buf_step (Op_Prepend s) b = res_bind (Prepend s b) (\<lambda>b. Inr ([], b))"
| "buf_step (Op_Shrink n) b = res_bind (Shrink n b) (\<lambda>b. Inr ([], b))"
| "buf_step (Op_ReadFd a) b = res_bind (ReadFd a b) (\<lambda>(n, b). Inr ([], b))"

fun queue_step :: "buf_op \<Rightarrow> string \<Rightarrow> string \<times> string" where
  "queue_step (Op_Write s) q = ([], q @ s)"
| "queue_step (Op_Read n) q = (take n q, drop n q)"
| "queue_step Op_ReadAll q = (q, [])"
| "queue_step (Op_Release n) q = ([], drop n q)"
| "queue_step (Op_UnWrite n) q = ([], take (length q - n) q)"
| "queue_step (Op_Prepend s) q = ([], s @ q)"
| "queue_step (Op_Shrink n) q = ([], q)"
| "queue_step (Op_ReadFd Read_error) q = ([], q)"
| "queue_step (Op_ReadFd (Read_data d)) q = ([], q @ d)"

text \<open>
  The arguments the operating system and the heap can supply: strings and
  reserves of a possible size, and what \<open>readv\<close> can return for this buffer.
\<close>

fun op_args :: "buf_op \<Rightarrow> buffer \<Rightarrow> bool" where
  "op_args (Op_Write s) b = (length s \<le> max_size)"
| "op_args (Op_Shrink n) b = (n \<le> max_size)"
| "op_args (Op_ReadFd a) b = readv_answer a b"
| "op_args _ b = True"

fun buf_run :: "buf_op list \<Rightarrow> buffer \<Rightarrow> (string list \<times> buffer) res" where
  "buf_run [] b = Inr ([], b)"
| "buf_run (x # xs) b =
     res_bind (buf_step x b) (\<lambda>(out, b').
     res_bind (buf_run xs b') (\<lambda>(outs, b''). Inr (out # outs, b'')))"

fun queue_run :: "buf_op list \<Rightarrow> string \<Rightarrow> string list \<times> string" where
  "queue_run [] q = ([], q)"
| "queue_run (x # xs) q =
     (let (out, q') = queue_step x q; (outs, q'') = queue_run xs q' in (out # outs, q''))"

fun run_args :: "buf_op list \<Rightarrow> buffer \<Rightarrow> bool" where
  "run_args [] b = True"
| "run_args (x # xs) b =
     (op_args x b \<and> (case buf_step x b of Inl e \<Rightarrow> True | Inr (out, b') \<Rightarrow> run_args xs b'))"

lemma Shrink_too_big:
  assumes "buf_inv b" "\<not> buf_room (length (contents b) + n)" "n \<le> max_size"
  shows "Shrink n b = Inl Length_error"
proof (cases "buf_room (length (contents b))")
  case False
  with AlignPrepend_too_big [OF assms(1)] show ?thesis by (simp add: Shrink_def)
next
  case True
  with AlignPrepend_ok [OF assms(1)] obtain c where c: "AlignPrepend b = Inr c" "buf_inv c"
    "contents c = contents b" by blast
  have le: "kPrependSize + length (contents b) \<le> max_size" using True by (simp add: buf_room_def)
  then have "size_add (size_add kPrependSize (ReadableBytes c)) n =
      kPrependSize + length (contents b) + n"
    using assms(3) c(3) size_mod_bounds by (simp add: length_contents [OF c(2), symmetric])
  with c(1) assms(2) show ?thesis by (simp add: Shrink_def vec_resize_def buf_room_def)
qed

lemma UnWrite_fails: "buf_inv b \<Longrightarrow> length (contents b) < n \<Longrightarrow> UnWrite n b = Inl Assertion_failed"
  by (simp add: UnWrite_def length_contents)

lemma buf_step_cases:
  assumes "buf_inv b" "op_args x b"
  obtains (ok) b' where "buf_step x b = Inr (fst (queue_step x (contents b)), b')" "buf_inv b'"
      "contents b' = snd (queue_step x (contents b))"
  | (fault) e where "buf_step x b = Inl e" "e \<in> {Assertion_failed, Length_error}"
proof (cases x)
  case (Op_Write s)
  with assms that show ?thesis by (cases rule: Write_cases [OF assms(1), of s]) auto
next
  case (Op_Read n)
  with Read_ok [OF assms(1), of n] Read_fails [OF assms(1), of n] that show ?thesis
    by (cases "n \<le> length (contents b)") auto
next
  case Op_ReadAll
  with ReadAll_ok [OF assms(1)] that show ?thesis by auto
next
  case (Op_Release n)
  with Release_ok [OF assms(1), of n] Release_fails [OF assms(1), of n] that show ?thesis
    by (cases "n \<le> length (contents b)") auto
next
  case (Op_UnWrite n)
  with UnWrite_ok [OF assms(1), of n] UnWrite_fails [OF assms(1), of n] that show ?thesis
    by (cases "n \<le> length (contents b)") auto
next
  case (Op_Prepend s)
  with Prepend_ok [OF assms(1), of s] that show ?thesis
    by (cases "length s \<le> PrependableBytes b") (auto simp: Prepend_def)
next
  case (Op_Shrink n)
  with assms(2) Shrink_ok [OF assms(1), of n] Shrink_too_big [OF assms(1), of n] that show ?thesis
    by (cases "buf_room (length (contents b) + n)") auto
next
  case (Op_ReadFd a)
  with assms(2) have "readv_answer a b" by simp
  with Op_ReadFd assms(1) that show ?thesis by (cases rule: ReadFd_cases [OF assms(1), of a]) auto
qed

lemma buf_run_refines:
  "buf_inv b \<Longrightarrow> run_args xs b \<Longrightarrow>
   case buf_run xs b of
     Inl e \<Rightarrow> e \<in> {Assertion_failed, Length_error}
   | Inr (outs, b') \<Rightarrow> buf_inv b' \<and> queue_run xs (contents b) = (outs, contents b')"
proof (induction xs arbitrary: b)
  case (Cons x xs)
  from Cons.prems have "op_args x b" by simp
  with Cons.prems(1) show ?case
  proof (cases rule: buf_step_cases)
    case (ok b')
    with Cons.IH [of b'] Cons.prems(2) show ?thesis
      by (auto split: sum.splits prod.splits)
  qed auto
qed simp

subsection \<open>Properties\<close>


definition small_buffer :: buffer where
  "small_buffer = \<lparr>buf_bytes = replicate 12 (CHR 0x00), read_index = 8, write_index = 8\<rparr>"

lemmas buffer_eval = small_buffer_def buf_inv_def contents_def kPrependSize_def max_size_def
  size_mod_def WritableBytes_def ReadableBytes_def PrependableBytes_def size_sub_def size_add_def
  Write_def Read_def ReadAll_def Release_def UnWrite_def Prepend_def Shrink_def ExtendSpace_def
  AlignPrepend_def mem_defs copy_in_def slice_def vec_resize_def extra_size_def buf_room_def


text \<open>
  \<open>Write\<close> on every branch. It succeeds exactly when the bytes fit behind the
  readable ones or a vector can hold both; it then appends, keeps the vector as it
  is when the bytes fit, and otherwise slides the readable bytes down to
  \<open>kPrependSize\<close> and grows the vector to no more than it needs. When no vector can
  hold the bytes it raises \<open>std::length_error\<close>.
\<close>

lemma Write_spec:
  assumes "buf_inv b" "length s \<le> max_size"
  shows "if length s \<le> WritableBytes b \<or> buf_room (length (contents b) + length s)
         then \<exists>b'. Write s b = Inr b' \<and> buf_inv b' \<and> contents b' = contents b @ s \<and>
                (if length s \<le> WritableBytes b
                 then length (buf_bytes b') = length (buf_bytes b) \<and> read_index b' = read_index b
                 else length (buf_bytes b') = max (length (buf_bytes b))
                        (kPrependSize + length (contents b) + length s) \<and>
                      read_index b' = kPrependSize)
         else Write s b = Inl Length_error"
proof (cases "length s \<le> WritableBytes b")
  case True
  with Write_fits [OF assms(1)] show ?thesis by (auto simp: Write_def)
next
  case False
  show ?thesis
  proof (cases "buf_room (length (contents b) + length s)")
    case True
    with False Write_ok [OF assms(1) True] show ?thesis by auto
  next
    case nroom: False
    with False Write_too_big [OF assms(1) nroom assms(2)] show ?thesis by simp
  qed
qed

text \<open>
  \<open>ReadFd\<close> takes in everything \<open>readv\<close> delivered. On an error the buffer is as
  before and the result negative; otherwise the result is the number of bytes and
  they are, in order, at the end of the readable bytes, whether they fitted into the
  writable space or overflowed into the 65536-byte stack buffer.
\<close>

lemma ReadFd_spec:
  assumes "buf_inv b" "readv_answer a b" "buf_room (length (contents b) + WritableBytes b + extra_size)"
  shows "case a of
           Read_error \<Rightarrow> ReadFd a b = Inr (-1, b)
         | Read_data d \<Rightarrow> \<exists>b'. ReadFd a b = Inr (int (length d), b') \<and> buf_inv b' \<and>
                             contents b' = contents b @ d"
proof (cases a)
  case (Read_data d)
  with assms(2,3) have "buf_room (length (contents b) + length d)" by (auto simp: buf_room_def)
  with ReadFd_ok [OF assms(1)] assms(2) Read_data show ?thesis by simp
qed simp

end
