(* ===== verification/Text.thy ===== *)
theory Text
  imports Base "HOL-Library.Signed_Division" "HOL-Library.Word"
begin

section \<open>Text: decimal numbers, C strings\<close>

text \<open>
  What several components do with text: \<open>std::to_string\<close> of an integer and its inverse,
  hexadecimal digits, and the view of a string through \<open>c_str\<close>, which ends at the first NUL.
\<close>

subsection \<open>Decimal numbers\<close>

definition digit_char :: "nat \<Rightarrow> char" where
  "digit_char d = char_of (48 + d)"

definition digit_value :: "char \<Rightarrow> nat" where
  "digit_value c = of_char c - 48"

definition is_digit :: "char \<Rightarrow> bool" where
  "is_digit c \<longleftrightarrow> (48 :: nat) \<le> of_char c \<and> (of_char c :: nat) \<le> 57"

fun decimal :: "nat \<Rightarrow> string" where
  "decimal n = (if n < 10 then [digit_char n] else decimal (n div 10) @ [digit_char (n mod 10)])"

declare decimal.simps [simp del]

definition undecimal :: "string \<Rightarrow> nat" where
  "undecimal = foldl (\<lambda>n c. 10 * n + digit_value c) 0"

text \<open>\<open>std::to_string\<close> of an integer type.\<close>

definition to_string :: "int \<Rightarrow> string" where
  "to_string i = (if i < 0 then CHR ''-'' # decimal (nat (- i)) else decimal (nat i))"

definition of_string :: "string \<Rightarrow> int" where
  "of_string s = (case s of CHR ''-'' # t \<Rightarrow> - int (undecimal t) | _ \<Rightarrow> int (undecimal s))"

lemma digit_value_char [simp]: "d < 10 \<Longrightarrow> digit_value (digit_char d) = d"
  by (simp add: digit_value_def digit_char_def)

lemma is_digit_char [simp]: "d < 10 \<Longrightarrow> is_digit (digit_char d)"
  by (simp add: is_digit_def digit_char_def)

lemma decimal_not_Nil [simp]: "decimal n \<noteq> []"
  by (subst decimal.simps) simp

lemma decimal_digits: "c \<in> set (decimal n) \<Longrightarrow> is_digit c"
proof (induction n rule: decimal.induct)
  case (1 n)
  then show ?case by (cases "n < 10") (auto simp: decimal.simps [of n])
qed

lemma not_digit_in_decimal: "\<not> is_digit c \<Longrightarrow> c \<notin> set (decimal n)"
  using decimal_digits by blast

lemma undecimal_append [simp]: "undecimal (s @ [c]) = 10 * undecimal s + digit_value c"
  by (simp add: undecimal_def)

lemma undecimal_decimal [simp]: "undecimal (decimal n) = n"
proof (induction n rule: decimal.induct)
  case (1 n)
  show ?case
  proof (cases "n < 10")
    case True
    then show ?thesis by (simp add: decimal.simps undecimal_def)
  next
    case False
    then have "undecimal (decimal n) = 10 * (n div 10) + n mod 10"
      using 1 by (simp add: decimal.simps [of n])
    then show ?thesis by simp
  qed
qed

lemma decimal_inj: "decimal m = decimal n \<longleftrightarrow> m = n"
  by (metis undecimal_decimal)

lemma hd_decimal_not_minus: "decimal n = c # t \<Longrightarrow> c \<noteq> CHR ''-''"
  using decimal_digits [of c n] by (auto simp: is_digit_def)

lemma of_string_to_string [simp]: "of_string (to_string i) = i"
proof (cases "i < 0")
  case True
  then show ?thesis by (simp add: to_string_def of_string_def)
next
  case False
  obtain c t where "decimal (nat i) = c # t" by (cases "decimal (nat i)") auto
  moreover from this have "c \<noteq> CHR ''-''" by (rule hd_decimal_not_minus)
  ultimately have "of_string (decimal (nat i)) = int (undecimal (decimal (nat i)))"
    by (simp add: of_string_def split: char.splits bool.splits)
  with False show ?thesis by (simp add: to_string_def)
qed

lemma to_string_inj: "to_string i = to_string j \<longleftrightarrow> i = j"
  by (metis of_string_to_string)

lemma length_decimal: "0 < k \<Longrightarrow> n < 10 ^ k \<Longrightarrow> length (decimal n) \<le> k"
proof (induction k arbitrary: n)
  case (Suc k)
  show ?case
  proof (cases "n < 10")
    case False
    with Suc.prems have "0 < k" by (cases k) auto
    moreover have "n div 10 < 10 ^ k" using Suc.prems by (simp add: less_mult_imp_div_less)
    ultimately show ?thesis using Suc.IH False by (simp add: decimal.simps [of n])
  qed (simp add: decimal.simps)
qed simp

text \<open>The head of the decimal form is zero only for zero itself.\<close>

lemma decimal_no_leading_zero: "0 < n \<Longrightarrow> hd (decimal n) \<noteq> CHR ''0''"
proof (induction n rule: decimal.induct)
  case (1 n)
  show ?case
  proof (cases "n < 10")
    case True
    have "digit_value (digit_char n) = n" using True by simp
    moreover have "digit_value (CHR ''0'') = 0" by (simp add: digit_value_def)
    ultimately show ?thesis using True 1(2) by (metis decimal.simps list.sel(1) less_irrefl)
  next
    case False
    with 1 show ?thesis by (simp add: decimal.simps [of n])
  qed
qed

subsection \<open>C strings\<close>

text \<open>What a C function sees of the bytes it is given.\<close>

definition c_str :: "string \<Rightarrow> string" where
  "c_str s = takeWhile (\<lambda>c. c \<noteq> CHR 0x00) s"

lemma c_str_id: "CHR 0x00 \<notin> set s \<Longrightarrow> c_str s = s"
  by (auto simp: c_str_def)

lemma decimal_no_nul [simp]: "CHR 0x00 \<notin> set (decimal n)"
  by (rule not_digit_in_decimal) (simp add: is_digit_def)

end
