(* ===== verification/Sockets.thy ===== *)
theory Sockets
  imports Text
begin

section \<open>\<open>net/Socket\<close>: addresses and sockets\<close>

text \<open>
  An address is the \<open>sockaddr_in\<close> as it lies in memory, on a little-endian machine:
  \<open>sin_addr\<close> and \<open>sin_port\<close> are in network order, so the first byte of a dotted address is
  the lowest one of the word. The system calls on sockets are a parameter, a record of
  functions on a kernel state of any type; \<open>LOG_SYSERR\<close> lines are left out.
\<close>

subsection \<open>Addresses\<close>

record sockaddr_in =
  sin_family :: int
  sin_addr :: "32 word"
  sin_port :: "16 word"

definition AF_INET :: int where "AF_INET = 2"

definition INADDR_ANY :: "32 word" where "INADDR_ANY = 0"

text \<open>The macro is in host order: 127.0.0.1 as the number 0x7f000001.\<close>

definition INADDR_LOOPBACK :: "32 word" where "INADDR_LOOPBACK = 0x7f000001"

definition htons :: "16 word \<Rightarrow> 16 word" where
  "htons w = word_rotr 8 w"

definition ntohs :: "16 word \<Rightarrow> 16 word" where
  "ntohs w = word_rotr 8 w"

text \<open>The bytes of an address in memory.\<close>

definition addr_byte :: "nat \<Rightarrow> 32 word \<Rightarrow> nat" where
  "addr_byte i a = (unat a div 256 ^ i) mod 256"

definition addr_of_bytes :: "nat list \<Rightarrow> 32 word" where
  "addr_of_bytes bs = of_nat (bs ! 0 + 256 * (bs ! 1) + 256 ^ 2 * (bs ! 2) + 256 ^ 3 * (bs ! 3))"

text \<open>\<open>inet_ntop(AF_INET, ...)\<close>: dotted decimal, if it fits the buffer with its NUL.\<close>

definition dotted :: "32 word \<Rightarrow> string" where
  "dotted a = decimal (addr_byte 0 a) @ ''.'' @ decimal (addr_byte 1 a) @ ''.'' @
     decimal (addr_byte 2 a) @ ''.'' @ decimal (addr_byte 3 a)"

definition inet_ntop :: "nat \<Rightarrow> 32 word \<Rightarrow> string option" where
  "inet_ntop len a = (if length (dotted a) < len then Some (dotted a) else None)"

text \<open>
  \<open>inet_pton(AF_INET, ...)\<close>: four decimal numbers up to 255 without leading zeros. It
  returns 1 and stores the address, or 0 for any other text; it returns -1 only for
  another family.
\<close>

fun split_dots :: "string \<Rightarrow> string list" where
  "split_dots [] = [[]]"
| "split_dots (c # s) =
     (if c = CHR ''.'' then [] # split_dots s
      else case split_dots s of [] \<Rightarrow> [[c]] | p # ps \<Rightarrow> (c # p) # ps)"

definition octet_ok :: "string \<Rightarrow> bool" where
  "octet_ok p \<longleftrightarrow> p \<noteq> [] \<and> (\<forall>c \<in> set p. is_digit c) \<and> undecimal p < 256 \<and> p = decimal (undecimal p)"

definition inet_pton :: "string \<Rightarrow> int \<times> 32 word option" where
  "inet_pton s =
     (let ps = split_dots s in
      if length ps = 4 \<and> (\<forall>p \<in> set ps. octet_ok p) then (1, Some (addr_of_bytes (map undecimal ps))) else (0, None))"

subsection \<open>\<open>InetAddr\<close>\<close>

definition InetAddr_port :: "16 word \<Rightarrow> bool \<Rightarrow> sockaddr_in" where
  "InetAddr_port port loopback =
     \<lparr>sin_family = AF_INET, sin_addr = (if loopback then INADDR_LOOPBACK else INADDR_ANY), sin_port = htons port\<rparr>"

text \<open>The flag tells whether an error was logged.\<close>

definition InetAddr_ip :: "string \<Rightarrow> 16 word \<Rightarrow> sockaddr_in \<times> bool" where
  "InetAddr_ip ip port =
     (let (r, a) = inet_pton (c_str ip) in
      (\<lparr>sin_family = AF_INET, sin_addr = (case a of Some x \<Rightarrow> x | None \<Rightarrow> 0), sin_port = htons port\<rparr>, r < 0))"

text \<open>On an error the buffer was not written, and the string is made of it all the same.\<close>

definition IpString :: "sockaddr_in \<Rightarrow> string res" where
  "IpString addr = (case inet_ntop 16 (sin_addr addr) of Some s \<Rightarrow> Inr s | None \<Rightarrow> Inl Undefined)"

definition PortUint16 :: "sockaddr_in \<Rightarrow> 16 word" where
  "PortUint16 addr = ntohs (sin_port addr)"

definition IpPortString :: "sockaddr_in \<Rightarrow> string res" where
  "IpPortString addr =
     res_bind (IpString addr) (\<lambda>ip. Inr (ip @ CHR '':'' # to_string (uint (PortUint16 addr))))"

subsection \<open>System calls\<close>

text \<open>A call returns its value or fails with an errno; \<open>'k\<close> is the state of the kernel.\<close>

datatype 'a sys = Sys 'a | Sys_fail nat

datatype sockopt = Tcp_nodelay int | Reuse_addr int | Reuse_port int | Keep_alive int | Linger int int

record 'k kernel =
  sys_socket :: "'k \<Rightarrow> int sys \<times> 'k"
  sys_bind :: "int \<Rightarrow> sockaddr_in \<Rightarrow> 'k \<Rightarrow> unit sys \<times> 'k"
  sys_listen :: "int \<Rightarrow> nat \<Rightarrow> 'k \<Rightarrow> unit sys \<times> 'k"
  sys_accept4 :: "int \<Rightarrow> 'k \<Rightarrow> (int \<times> sockaddr_in) sys \<times> 'k"
  sys_connect :: "int \<Rightarrow> sockaddr_in \<Rightarrow> 'k \<Rightarrow> unit sys \<times> 'k"
  sys_shutdown :: "int \<Rightarrow> int \<Rightarrow> 'k \<Rightarrow> unit sys \<times> 'k"
  sys_close :: "int \<Rightarrow> 'k \<Rightarrow> unit sys \<times> 'k"
  sys_open_null :: "'k \<Rightarrow> int sys \<times> 'k"
  sys_getsockname :: "int \<Rightarrow> 'k \<Rightarrow> sockaddr_in sys \<times> 'k"
  sys_getpeername :: "int \<Rightarrow> 'k \<Rightarrow> sockaddr_in sys \<times> 'k"
  sys_get_error :: "int \<Rightarrow> 'k \<Rightarrow> nat sys \<times> 'k"
  sys_setsockopt :: "int \<Rightarrow> sockopt \<Rightarrow> 'k \<Rightarrow> unit sys \<times> 'k"

text \<open>The value of a call that was logged when it failed.\<close>

definition succeeds :: "unit sys \<times> 'k \<Rightarrow> bool \<times> 'k" where
  "succeeds r = (case r of (Sys u, k) \<Rightarrow> (True, k) | (Sys_fail e, k) \<Rightarrow> (False, k))"

definition no_addr :: sockaddr_in where
  "no_addr = \<lparr>sin_family = 0, sin_addr = 0, sin_port = 0\<rparr>"

subsection \<open>\<open>Socket\<close>\<close>

text \<open>A \<open>Socket\<close> is its descriptor.\<close>

definition CreateNonblockSocket :: "'k kernel \<Rightarrow> 'k \<Rightarrow> int \<times> 'k" where
  "CreateNonblockSocket K k = (case sys_socket K k of (Sys fd, k') \<Rightarrow> (fd, k') | (Sys_fail e, k') \<Rightarrow> (- 1, k'))"

definition Valid :: "int \<Rightarrow> bool" where
  "Valid sockfd \<longleftrightarrow> 0 \<le> sockfd"

definition Bind :: "'k kernel \<Rightarrow> int \<Rightarrow> sockaddr_in \<Rightarrow> 'k \<Rightarrow> bool \<times> 'k" where
  "Bind K fd addr k = succeeds (sys_bind K fd addr k)"

definition socket_Listen :: "'k kernel \<Rightarrow> int \<Rightarrow> 'k \<Rightarrow> bool \<times> 'k" where
  "socket_Listen K fd k = succeeds (sys_listen K fd 128 k)"

text \<open>The new socket, the peer address when one was stored, and \<open>errno\<close> after a failure.\<close>

definition Accept :: "'k kernel \<Rightarrow> int \<Rightarrow> 'k \<Rightarrow> (int \<times> sockaddr_in option \<times> nat) \<times> 'k" where
  "Accept K fd k =
     (case sys_accept4 K fd k of
        (Sys (connfd, addr), k') \<Rightarrow> ((connfd, Some addr, 0), k')
      | (Sys_fail e, k') \<Rightarrow> ((- 1, None, e), k'))"

text \<open>\<open>Connect\<close> with the \<open>errno\<close> its caller looks at.\<close>

definition socket_Connect :: "'k kernel \<Rightarrow> int \<Rightarrow> sockaddr_in \<Rightarrow> 'k \<Rightarrow> (bool \<times> nat) \<times> 'k" where
  "socket_Connect K fd addr k =
     (case sys_connect K fd addr k of (Sys u, k') \<Rightarrow> ((True, 0), k') | (Sys_fail e, k') \<Rightarrow> ((False, e), k'))"

definition SHUT_RD :: int where "SHUT_RD = 0"
definition SHUT_WR :: int where "SHUT_WR = 1"
definition SHUT_RDWR :: int where "SHUT_RDWR = 2"

definition socket_Shutdown :: "'k kernel \<Rightarrow> int \<Rightarrow> int \<Rightarrow> 'k \<Rightarrow> (bool \<times> 'k) res" where
  "socket_Shutdown K fd how k =
     assert_then (how = SHUT_RD \<or> how = SHUT_WR \<or> how = SHUT_RDWR) (Inr (succeeds (sys_shutdown K fd how k)))"

definition socket_Close :: "'k kernel \<Rightarrow> int \<Rightarrow> 'k \<Rightarrow> bool \<times> 'k" where
  "socket_Close K fd k = succeeds (sys_close K fd k)"

definition LocalAddr :: "'k kernel \<Rightarrow> int \<Rightarrow> 'k \<Rightarrow> sockaddr_in \<times> 'k" where
  "LocalAddr K fd k = (case sys_getsockname K fd k of (Sys a, k') \<Rightarrow> (a, k') | (Sys_fail e, k') \<Rightarrow> (no_addr, k'))"

definition PeerAddr :: "'k kernel \<Rightarrow> int \<Rightarrow> 'k \<Rightarrow> sockaddr_in \<times> 'k" where
  "PeerAddr K fd k = (case sys_getpeername K fd k of (Sys a, k') \<Rightarrow> (a, k') | (Sys_fail e, k') \<Rightarrow> (no_addr, k'))"

definition SocketError :: "'k kernel \<Rightarrow> int \<Rightarrow> 'k \<Rightarrow> nat \<times> 'k" where
  "SocketError K fd k = (case sys_get_error K fd k of (Sys v, k') \<Rightarrow> (v, k') | (Sys_fail e, k') \<Rightarrow> (e, k'))"

definition flag_int :: "bool \<Rightarrow> int" where
  "flag_int flag = (if flag then 1 else 0)"

definition SetTcpNoDelay :: "'k kernel \<Rightarrow> int \<Rightarrow> bool \<Rightarrow> 'k \<Rightarrow> bool \<times> 'k" where
  "SetTcpNoDelay K fd flag k = succeeds (sys_setsockopt K fd (Tcp_nodelay (flag_int flag)) k)"

definition SetReuseAddr :: "'k kernel \<Rightarrow> int \<Rightarrow> bool \<Rightarrow> 'k \<Rightarrow> bool \<times> 'k" where
  "SetReuseAddr K fd flag k = succeeds (sys_setsockopt K fd (Reuse_addr (flag_int flag)) k)"

definition SetReusePort :: "'k kernel \<Rightarrow> int \<Rightarrow> bool \<Rightarrow> 'k \<Rightarrow> bool \<times> 'k" where
  "SetReusePort K fd flag k = succeeds (sys_setsockopt K fd (Reuse_port (flag_int flag)) k)"

definition SetKeepAlive :: "'k kernel \<Rightarrow> int \<Rightarrow> bool \<Rightarrow> 'k \<Rightarrow> bool \<times> 'k" where
  "SetKeepAlive K fd flag k = succeeds (sys_setsockopt K fd (Keep_alive (flag_int flag)) k)"

definition SetLinger :: "'k kernel \<Rightarrow> int \<Rightarrow> bool \<Rightarrow> int \<Rightarrow> 'k \<Rightarrow> (bool \<times> 'k) res" where
  "SetLinger K fd flag lingr k =
     assert_then (\<not> flag \<or> 0 \<le> lingr) (Inr (succeeds (sys_setsockopt K fd (Linger (flag_int flag) lingr) k)))"

subsection \<open>The text of an address\<close>

lemma ntohs_htons [simp]: "ntohs (htons p) = p" "htons (ntohs p) = p"
proof -
  have "word_rotr 8 (word_rotr 8 p) = p"
    by (rule bit_word_eqI) (simp add: bit_word_rotr_iff mod_simps)
  then show "ntohs (htons p) = p" "htons (ntohs p) = p" by (simp_all add: ntohs_def htons_def)
qed

lemma addr_byte_less: "addr_byte i a < 256"
  by (simp add: addr_byte_def)

lemma split_base: "(n :: nat) < 256 ^ 4 \<Longrightarrow>
    n = n mod 256 + 256 * (n div 256 mod 256) + 256 ^ 2 * (n div 256 ^ 2 mod 256) + 256 ^ 3 * (n div 256 ^ 3 mod 256)"
proof -
  assume n: "n < 256 ^ 4"
  have a: "n = 256 * (n div 256) + n mod 256" by simp
  have b: "n div 256 = 256 * (n div 256 ^ 2) + n div 256 mod 256"
    using mult_div_mod_eq [of 256 "n div 256"] by (simp add: div_mult2_eq [symmetric] power2_eq_square)
  have c: "n div 256 ^ 2 = 256 * (n div 256 ^ 3) + n div 256 ^ 2 mod 256"
    using mult_div_mod_eq [of 256 "n div 256 ^ 2"] by (simp add: div_mult2_eq [symmetric])
  have "n div 256 ^ 3 < 256" using n by (simp add: less_mult_imp_div_less)
  then have d: "n div 256 ^ 3 = n div 256 ^ 3 mod 256" by simp
  have "n = 256 * (256 * (256 * (n div 256 ^ 3) + n div 256 ^ 2 mod 256) + n div 256 mod 256) + n mod 256"
    using a b c by simp
  then show ?thesis using d by (simp add: algebra_simps)
qed

lemma addr_of_bytes_bytes: "addr_of_bytes (map (\<lambda>i. addr_byte i a) [0, 1, 2, 3]) = a"
proof -
  have "unat a < 256 ^ 4" using unsigned_less [of a] by simp
  from split_base [OF this, symmetric]
  have "addr_byte 0 a + 256 * addr_byte 1 a + 256 ^ 2 * addr_byte 2 a + 256 ^ 3 * addr_byte 3 a = unat a"
    by (simp only: addr_byte_def power_0 div_by_1 power_one_right)
  moreover have "(of_nat (unat a) :: 32 word) = a" by simp
  ultimately show ?thesis by (simp add: addr_of_bytes_def)
qed

lemma split_dots_no_dot: "CHR ''.'' \<notin> set p \<Longrightarrow> split_dots p = [p]"
  by (induction p) auto

lemma split_dots_dot: "CHR ''.'' \<notin> set p \<Longrightarrow> split_dots (p @ CHR ''.'' # s) = p # split_dots s"
  by (induction p) auto

lemma dot_not_in_decimal: "CHR ''.'' \<notin> set (decimal n)" "CHR '':'' \<notin> set (decimal n)"
  by (rule not_digit_in_decimal, simp add: is_digit_def)+

lemma split_dotted: "split_dots (dotted a) = map (\<lambda>i. decimal (addr_byte i a)) [0, 1, 2, 3]"
  using dot_not_in_decimal(1) by (simp add: dotted_def split_dots_dot split_dots_no_dot)

lemma octet_ok_decimal: "n < 256 \<Longrightarrow> octet_ok (decimal n)"
  using decimal_digits by (auto simp: octet_ok_def)

lemma inet_pton_dotted: "inet_pton (dotted a) = (1, Some a)"
proof -
  have a: "map undecimal (map (\<lambda>i. decimal (addr_byte i a)) [0, 1, 2, 3]) = map (\<lambda>i. addr_byte i a) [0, 1, 2, 3]"
    by simp
  have "\<forall>p \<in> set (map (\<lambda>i. decimal (addr_byte i a)) [0, 1, 2, 3]). octet_ok p"
    using octet_ok_decimal [OF addr_byte_less] by auto
  moreover have "length (map (\<lambda>i. decimal (addr_byte i a)) [0, 1, 2, 3 :: nat]) = 4" by simp
  ultimately show ?thesis
    unfolding inet_pton_def split_dotted Let_def a addr_of_bytes_bytes by (intro if_P conjI)
qed

lemma length_dotted: "length (dotted a) \<le> 15"
proof -
  have "length (decimal (addr_byte i a)) \<le> 3" for i
    using length_decimal [of 3 "addr_byte i a"] addr_byte_less [of i a] by simp
  from this [of 0] this [of 1] this [of 2] this [of 3] show ?thesis by (simp add: dotted_def)
qed

lemma IpString_eq: "IpString a = Inr (dotted (sin_addr a))"
  using length_dotted [of "sin_addr a"] by (simp add: IpString_def inet_ntop_def)

lemma dotted_inj: "dotted a = dotted b \<longleftrightarrow> a = b"
  by (metis inet_pton_dotted prod.inject option.inject)

lemma colon_not_in_dotted: "CHR '':'' \<notin> set (dotted a)"
  using dot_not_in_decimal(2) by (simp add: dotted_def)

lemma IpPortString_eq: "IpPortString a = Inr (dotted (sin_addr a) @ CHR '':'' # decimal (unat (PortUint16 a)))"
  by (simp add: IpPortString_def IpString_eq to_string_def)

lemma IpPortString_same:
  "IpPortString a = IpPortString b \<longleftrightarrow> sin_addr a = sin_addr b \<and> sin_port a = sin_port b"
proof -
  have "PortUint16 a = PortUint16 b \<longleftrightarrow> sin_port a = sin_port b"
    unfolding PortUint16_def by (metis ntohs_htons(2))
  then have "dotted (sin_addr a) @ CHR '':'' # decimal (unat (PortUint16 a)) =
      dotted (sin_addr b) @ CHR '':'' # decimal (unat (PortUint16 b)) \<longleftrightarrow>
      sin_addr a = sin_addr b \<and> sin_port a = sin_port b"
    using append_Cons_eq_iff [OF colon_not_in_dotted dot_not_in_decimal(2), of "sin_addr a" "unat (PortUint16 a)"]
    by (simp add: dotted_inj decimal_inj word_unat_eq_iff [symmetric])
  then show ?thesis by (simp add: IpPortString_eq)
qed

text \<open>The loopback address is stored without \<open>htonl\<close>: in memory it is 1.0.0.127.\<close>

lemma loopback_reversed: "IpString (InetAddr_port p True) = Inr ''1.0.0.127''"
proof -
  have "addr_byte 0 INADDR_LOOPBACK = 1" "addr_byte 1 INADDR_LOOPBACK = 0"
    "addr_byte 2 INADDR_LOOPBACK = 0" "addr_byte 3 INADDR_LOOPBACK = 127"
    by (simp_all add: addr_byte_def INADDR_LOOPBACK_def)
  moreover have "decimal 1 = ''1''" "decimal 0 = ''0''" "decimal 127 = ''127''" by code_simp+
  ultimately have "dotted INADDR_LOOPBACK = ''1.0.0.127''" unfolding dotted_def by simp
  then show ?thesis by (simp add: IpString_eq InetAddr_port_def)
qed

subsection \<open>Properties\<close>

text \<open>
  C14: \<open>IpPortString\<close> never fails (its buffer of 16 bytes is enough for every address) and
  tells addresses apart: two addresses have the same text exactly when they have the same
  address and port, the test by which a connector finds that it is connected to itself.
\<close>

theorem IpPortString_equivalence:
  "\<exists>s t. IpPortString a = Inr s \<and> IpPortString b = Inr t \<and>
     (s = t \<longleftrightarrow> sin_addr a = sin_addr b \<and> sin_port a = sin_port b)"
  by (simp add: IpPortString_same [symmetric] IpPortString_eq)

text \<open>
  An IPv4 address survives its text: the address built from \<open>IpString\<close> and
  \<open>PortUint16\<close> of an address is that address, and nothing is logged.
\<close>

lemma InetAddr_roundtrip:
  assumes "sin_family a = AF_INET"
  shows "\<exists>ip. IpString a = Inr ip \<and> InetAddr_ip ip (PortUint16 a) = (a, False)"
proof -
  have "CHR 0x00 \<notin> set (dotted (sin_addr a))" by (simp add: dotted_def)
  then have "c_str (dotted (sin_addr a)) = dotted (sin_addr a)" by (rule c_str_id)
  then have "InetAddr_ip (dotted (sin_addr a)) (PortUint16 a) = (a, False)"
    using assms by (simp add: InetAddr_ip_def inet_pton_dotted PortUint16_def)
  then show ?thesis by (simp add: IpString_eq)
qed

text \<open>
  A text that is not an address is taken silently for the wildcard address: the
  constructor logs only a negative answer, which \<open>inet_pton\<close> never gives here, so a bad
  text yields the same address as \<open>InetAddr(port)\<close>, and a server would listen everywhere.
\<close>

lemma InetAddr_bad_text:
  assumes "fst (inet_pton (c_str ip)) \<noteq> 1"
  shows "InetAddr_ip ip port = (InetAddr_port port False, False)"
  using assms by (auto simp: InetAddr_ip_def InetAddr_port_def INADDR_ANY_def inet_pton_def Let_def)

end
