(* ===== verification/TcpConnection.thy ===== *)
theory TcpConnection
  imports EventLoop NetBuffer Sockets
begin

section \<open>\<open>net/TcpConnection\<close>: the life of a connection\<close>

text \<open>
  The state extends the loop the connection lives in by a store of connections and
  a log of what was done to the sockets. The handlers are whole: each call of the
  channel, of the loop and of a callback is made where the code makes it, and a
  system call's answer is an argument. User callbacks may do anything to the state
  (\<open>conn_env\<close>), so a handler reads the state again after it has called one.
\<close>

subsection \<open>State\<close>

datatype conn_state = kConnecting | kConnected | kDisconnected | kDisconnecting

record 'c connection =
  conn_name :: string
  conn_state :: conn_state
  conn_sockfd :: int
  conn_channel :: nat
  conn_local :: sockaddr_in
  conn_peer :: sockaddr_in
  connection_cb :: "'c option"
  message_cb :: "'c option"
  low_watermark_cb :: "'c option"
  high_watermark_cb :: "'c option"
  close_cb :: "'c option"
  high_watermark :: nat
  input_buf :: buffer
  output_buf :: buffer

text \<open>The closures a connection hands to its channel and its loop; \<open>'u\<close> are those of others.\<close>

datatype 'u closure =
    Conn_HandleRead nat
  | Conn_HandleWrite nat
  | Conn_HandleError nat
  | Conn_SendInLoop nat string
  | Conn_ShutdownInLoop nat
  | Conn_ForceCloseInLoop nat
  | Conn_low_watermark nat
  | Conn_high_watermark nat nat
  | Other_closure 'u

text \<open>What was done to a socket: bytes the kernel took, \<open>shutdown(SHUT_WR)\<close>, \<open>close\<close>.\<close>

datatype socket_event = Wrote int string | Shut_wr int | Closed int

record ('u, 'c) net = "'u closure eventloop" +
  conns :: "nat \<rightharpoonup> 'c connection"
  socket_log :: "socket_event list"

type_synonym ('u, 'c, 'z) net_state = "('u, 'c, 'z) net_scheme"

text \<open>A call of a callback of the connection at an address.\<close>

datatype conn_event = On_connection | On_message | On_low_watermark | On_high_watermark nat | On_close

type_synonym ('u, 'c, 'z) conn_env =
  "conn_event \<Rightarrow> 'c \<Rightarrow> nat \<Rightarrow> ('u, 'c, 'z) net_scheme \<Rightarrow> ('u, 'c, 'z) net_scheme res"

definition with_conn :: "nat \<Rightarrow> ('u, 'c, 'z) net_state \<Rightarrow> ('c connection \<Rightarrow> 'r res) \<Rightarrow> 'r res" where
  "with_conn a s k = (case conns s a of None \<Rightarrow> Inl Undefined | Some c \<Rightarrow> k c)"

definition upd_conn ::
  "('c connection \<Rightarrow> 'c connection) \<Rightarrow> nat \<Rightarrow> ('u, 'c, 'z) net_state \<Rightarrow> ('u, 'c, 'z) net_state res" where
  "upd_conn g a s = with_conn a s (\<lambda>c. Inr (s\<lparr>conns := (conns s)(a \<mapsto> g c)\<rparr>))"

definition call_cb ::
  "('u, 'c, 'z) conn_env \<Rightarrow> conn_event \<Rightarrow> 'c option \<Rightarrow> nat \<Rightarrow> ('u, 'c, 'z) net_state \<Rightarrow> ('u, 'c, 'z) net_state res" where
  "call_cb env ev cb a s = (case cb of None \<Rightarrow> Inl Bad_function | Some f \<Rightarrow> env ev f a s)"

text \<open>\<open>channel_->WriteEnabled()\<close> of a connection.\<close>

definition conn_writing :: "'c connection \<Rightarrow> ('u, 'c, 'z) net_state \<Rightarrow> (bool \<Rightarrow> 'r res) \<Rightarrow> 'r res" where
  "conn_writing c s k = with_chan (conn_channel c) s (\<lambda>ch. k (WriteEnabled ch))"

definition log_socket :: "socket_event \<Rightarrow> ('u, 'c, 'z) net_state \<Rightarrow> ('u, 'c, 'z) net_state" where
  "log_socket e s = s\<lparr>socket_log := socket_log s @ [e]\<rparr>"

subsection \<open>Construction, establishment, destruction\<close>

definition new_connection ::
  "nat \<Rightarrow> string \<Rightarrow> int \<Rightarrow> sockaddr_in \<Rightarrow> sockaddr_in \<Rightarrow> ('u, 'c, 'z) net_state \<Rightarrow>
   ('u, 'c, 'z) net_state res" where
  "new_connection a name sockfd local peer s =
     (let (ch, s1) = new_channel sockfd s in
      res_bind (new_buffer kInitSize) (\<lambda>ib.
      res_bind (new_buffer kInitSize) (\<lambda>ob.
      let s2 = s1\<lparr>conns := (conns s1)(a \<mapsto>
            \<lparr>conn_name = name, conn_state = kConnecting, conn_sockfd = sockfd, conn_channel = ch,
             conn_local = local, conn_peer = peer,
             connection_cb = None, message_cb = None, low_watermark_cb = None,
             high_watermark_cb = None, close_cb = None, high_watermark = 64 * 1024 * 1024,
             input_buf = ib, output_buf = ob\<rparr>),
          alive_ties := insert a (alive_ties s1)\<rparr> in
      res_bind (SetReadHandler (Conn_HandleRead a) ch s2) (\<lambda>s3.
      res_bind (SetWriteHandler (Conn_HandleWrite a) ch s3)
        (SetErrorHandler (Conn_HandleError a) ch)))))"

definition delete_connection :: "int \<Rightarrow> nat \<Rightarrow> ('u, 'c, 'z) net_state \<Rightarrow> ('u, 'c, 'z) net_state res" where
  "delete_connection tid a s =
     with_conn a s (\<lambda>c.
     res_bind (DisableReadWrite tid (conn_channel c) s) (\<lambda>s1.
     res_bind (Channel_Close tid (conn_channel c) s1) (\<lambda>s2.
     res_bind (drop_channel (conn_channel c) (log_socket (Closed (conn_sockfd c)) s2)) (\<lambda>s3.
     Inr (s3\<lparr>conns := (conns s3)(a := None), alive_ties := alive_ties s3 - {a}\<rparr>)))))"

text \<open>The setters of the callbacks; \<open>None\<close> is an empty \<open>std::function\<close>.\<close>

definition SetConnectionCallBack :: "'c option \<Rightarrow> nat \<Rightarrow> ('u, 'c, 'z) net_state \<Rightarrow> ('u, 'c, 'z) net_state res" where
  "SetConnectionCallBack cb = upd_conn (\<lambda>c. c\<lparr>connection_cb := cb\<rparr>)"

definition SetMessageCallBack :: "'c option \<Rightarrow> nat \<Rightarrow> ('u, 'c, 'z) net_state \<Rightarrow> ('u, 'c, 'z) net_state res" where
  "SetMessageCallBack cb = upd_conn (\<lambda>c. c\<lparr>message_cb := cb\<rparr>)"

definition SetLowWaterMarkCallBack :: "'c option \<Rightarrow> nat \<Rightarrow> ('u, 'c, 'z) net_state \<Rightarrow> ('u, 'c, 'z) net_state res" where
  "SetLowWaterMarkCallBack cb = upd_conn (\<lambda>c. c\<lparr>low_watermark_cb := cb\<rparr>)"

definition SetHighWaterMarkCallBack :: "'c option \<Rightarrow> nat \<Rightarrow> ('u, 'c, 'z) net_state \<Rightarrow> ('u, 'c, 'z) net_state res" where
  "SetHighWaterMarkCallBack cb = upd_conn (\<lambda>c. c\<lparr>high_watermark_cb := cb\<rparr>)"

definition SetCloseCallBack :: "'c option \<Rightarrow> nat \<Rightarrow> ('u, 'c, 'z) net_state \<Rightarrow> ('u, 'c, 'z) net_state res" where
  "SetCloseCallBack cb = upd_conn (\<lambda>c. c\<lparr>close_cb := cb\<rparr>)"

lemmas set_callback_defs = SetConnectionCallBack_def SetMessageCallBack_def SetLowWaterMarkCallBack_def
  SetHighWaterMarkCallBack_def SetCloseCallBack_def

definition connected :: "'c connection \<Rightarrow> bool" where
  "connected c \<longleftrightarrow> conn_state c = kConnected"

definition EstablishConnection ::
  "int \<Rightarrow> ('u, 'c, 'z) conn_env \<Rightarrow> nat \<Rightarrow> ('u, 'c, 'z) net_state \<Rightarrow> ('u, 'c, 'z) net_state res" where
  "EstablishConnection tid env a s =
     assert_then (IsInLoopThread tid s)
       (with_conn a s (\<lambda>c.
        assert_then (conn_state c = kConnecting)
          (res_bind (upd_conn (\<lambda>c. c\<lparr>conn_state := kConnected\<rparr>) a s) (\<lambda>s1.
           res_bind (Tie a (conn_channel c) s1) (\<lambda>s2.
           res_bind (EnableRead tid (conn_channel c) s2) (\<lambda>s3.
           with_conn a s3 (\<lambda>c.
           if connection_cb c = None then Inr s3
           else call_cb env On_connection (connection_cb c) a s3)))))))"

definition DestroyConnection ::
  "int \<Rightarrow> ('u, 'c, 'z) conn_env \<Rightarrow> nat \<Rightarrow> ('u, 'c, 'z) net_state \<Rightarrow> ('u, 'c, 'z) net_state res" where
  "DestroyConnection tid env a s =
     assert_then (IsInLoopThread tid s)
       (res_bind (upd_conn (\<lambda>c. c\<lparr>conn_state := kDisconnected\<rparr>) a s) (\<lambda>s1.
        with_conn a s1 (\<lambda>c.
        res_bind (DisableReadWrite tid (conn_channel c) s1) (\<lambda>s2.
        res_bind (if connection_cb c = None then Inr s2
                  else call_cb env On_connection (connection_cb c) a s2) (\<lambda>s3.
        with_conn a s3 (\<lambda>c. Channel_Close tid (conn_channel c) s3))))))"

subsection \<open>Sending\<close>

datatype errno = EWOULDBLOCK | EPIPE | ECONNRESET | Other_errno

datatype write_answer = Write_ok nat | Write_error errno

text \<open>What \<open>write\<close> can answer for \<open>n\<close> bytes, and what it does to the socket.\<close>

fun write_answer_ok :: "nat \<Rightarrow> write_answer \<Rightarrow> bool" where
  "write_answer_ok n (Write_ok k) = (k \<le> n)"
| "write_answer_ok n (Write_error e) = True"

definition write_effect :: "int \<Rightarrow> string \<Rightarrow> nat \<Rightarrow> ('u, 'c, 'z) net_state \<Rightarrow> ('u, 'c, 'z) net_state" where
  "write_effect fd bytes k s = log_socket (Wrote fd (take k bytes)) s"

definition queue_low_watermark :: "int \<Rightarrow> nat \<Rightarrow> ('u, 'c, 'z) net_state \<Rightarrow> ('u, 'c, 'z) net_state" where
  "queue_low_watermark tid a s = QueueInLoop tid (Closure (Conn_low_watermark a)) s"

text \<open>The closures that only call a callback.\<close>

fun watermark_closure ::
  "('u, 'c, 'z) conn_env \<Rightarrow> 'u closure \<Rightarrow> ('u, 'c, 'z) net_state \<Rightarrow> ('u, 'c, 'z) net_state res" where
  "watermark_closure env (Conn_low_watermark a) s =
     with_conn a s (\<lambda>c. call_cb env On_low_watermark (low_watermark_cb c) a s)"
| "watermark_closure env (Conn_high_watermark a n) s =
     with_conn a s (\<lambda>c. call_cb env (On_high_watermark n) (high_watermark_cb c) a s)"
| "watermark_closure env f s = Inl Undefined"

text \<open>
  \<open>SendInLoop\<close> in the two parts of its body: the direct write, which yields the
  number of bytes written, the rest and the error flag, and the buffering of the rest.
\<close>

definition send_direct ::
  "int \<Rightarrow> write_answer \<Rightarrow> nat \<Rightarrow> string \<Rightarrow> ('u, 'c, 'z) net_state \<Rightarrow> (nat \<times> nat \<times> bool \<times> ('u, 'c, 'z) net_state) res" where
  "send_direct tid w a message s =
     with_conn a s (\<lambda>c.
     conn_writing c s (\<lambda>writing.
     if \<not> writing \<and> ReadableBytes (output_buf c) = 0 then
       (case w of
          Write_ok n \<Rightarrow>
            let s1 = write_effect (conn_sockfd c) message n s;
                remain = size_sub (length message) n
            in Inr (n, remain, False,
                 if remain = 0 \<and> low_watermark_cb c \<noteq> None then queue_low_watermark tid a s1 else s1)
        | Write_error e \<Rightarrow> Inr (0, length message, e = EPIPE \<or> e = ECONNRESET, s))
     else Inr (0, length message, False, s)))"

definition send_buffered ::
  "int \<Rightarrow> ('u, 'c, 'z) conn_env \<Rightarrow> nat \<Rightarrow> string \<Rightarrow> nat \<Rightarrow> nat \<Rightarrow> ('u, 'c, 'z) net_state \<Rightarrow> ('u, 'c, 'z) net_state res" where
  "send_buffered tid env a message nwrite remain s =
     with_conn a s (\<lambda>c.
     let oldlen = ReadableBytes (output_buf c) in
     res_bind
       (if oldlen \<le> high_watermark c \<and> high_watermark c < size_add oldlen remain \<and> high_watermark_cb c \<noteq> None
        then RunInLoop (watermark_closure env) tid (Closure (Conn_high_watermark a (size_add oldlen remain))) s
        else Inr s) (\<lambda>s1.
     with_conn a s1 (\<lambda>c.
     res_bind (Write (take remain (drop nwrite message)) (output_buf c)) (\<lambda>b.
     res_bind (upd_conn (\<lambda>c. c\<lparr>output_buf := b\<rparr>) a s1) (\<lambda>s2.
     conn_writing c s2 (\<lambda>writing.
     if writing then Inr s2 else EnableWrite tid (conn_channel c) s2))))))"

definition SendInLoop ::
  "int \<Rightarrow> ('u, 'c, 'z) conn_env \<Rightarrow> write_answer \<Rightarrow> nat \<Rightarrow> string \<Rightarrow> ('u, 'c, 'z) net_state \<Rightarrow> ('u, 'c, 'z) net_state res" where
  "SendInLoop tid env w a message s =
     assert_then (IsInLoopThread tid s)
       (with_conn a s (\<lambda>c.
        if conn_state c = kDisconnected then Inr s
        else
          res_bind (send_direct tid w a message s) (\<lambda>(nwrite, remain, err, s1).
          assert_then (remain \<le> length message)
            (if \<not> err \<and> 0 < remain then send_buffered tid env a message nwrite remain s1
             else Inr s1))))"

text \<open>From another thread the message is copied into a functor.\<close>

definition Send ::
  "int \<Rightarrow> ('u, 'c, 'z) conn_env \<Rightarrow> write_answer \<Rightarrow> nat \<Rightarrow> string \<Rightarrow> ('u, 'c, 'z) net_state \<Rightarrow> ('u, 'c, 'z) net_state res" where
  "Send tid env w a message s =
     with_conn a s (\<lambda>c.
     if conn_state c = kConnected then
       if IsInLoopThread tid s then SendInLoop tid env w a message s
       else Inr (QueueInLoop tid (Closure (Conn_SendInLoop a message)) s)
     else Inr s)"

text \<open>\<open>Send(const void *, int)\<close>: the length is a 32-bit \<open>int\<close>; a negative one becomes a
  huge \<open>size_t\<close> for the \<open>std::string\<close>. \<open>Send(Buffer &)\<close> passes a \<open>size_t\<close> for it.\<close>

definition int32 :: "nat \<Rightarrow> int" where
  "int32 n = (let k = int n mod 2 ^ 32 in if k < 2 ^ 31 then k else k - 2 ^ 32)"

definition Send_bytes ::
  "int \<Rightarrow> ('u, 'c, 'z) conn_env \<Rightarrow> write_answer \<Rightarrow> nat \<Rightarrow> string \<Rightarrow> int \<Rightarrow> ('u, 'c, 'z) net_state \<Rightarrow> ('u, 'c, 'z) net_state res" where
  "Send_bytes tid env w a bytes len s =
     (if len < 0 then Inl Length_error
      else if length bytes < nat len then Inl Undefined
      else Send tid env w a (take (nat len) bytes) s)"

definition Send_buffer ::
  "int \<Rightarrow> ('u, 'c, 'z) conn_env \<Rightarrow> write_answer \<Rightarrow> nat \<Rightarrow> buffer \<Rightarrow> ('u, 'c, 'z) net_state \<Rightarrow> (buffer \<times> ('u, 'c, 'z) net_state) res" where
  "Send_buffer tid env w a message s =
     res_bind (Send_bytes tid env w a (contents message) (int32 (ReadableBytes message)) s) (\<lambda>s'.
     res_bind (ReleaseAll message) (\<lambda>b. Inr (b, s')))"

subsection \<open>Closing\<close>

definition ShutdownInLoop :: "int \<Rightarrow> nat \<Rightarrow> ('u, 'c, 'z) net_state \<Rightarrow> ('u, 'c, 'z) net_state res" where
  "ShutdownInLoop tid a s =
     assert_then (IsInLoopThread tid s)
       (with_conn a s (\<lambda>c.
        conn_writing c s (\<lambda>writing.
        if writing then Inr s else Inr (log_socket (Shut_wr (conn_sockfd c)) s))))"

definition Shutdown :: "int \<Rightarrow> nat \<Rightarrow> ('u, 'c, 'z) net_state \<Rightarrow> ('u, 'c, 'z) net_state res" where
  "Shutdown tid a s =
     with_conn a s (\<lambda>c.
     if conn_state c = kConnected then
       res_bind (upd_conn (\<lambda>c. c\<lparr>conn_state := kDisconnecting\<rparr>) a s) (\<lambda>s1.
       if IsInLoopThread tid s1 then ShutdownInLoop tid a s1
       else Inr (QueueInLoop tid (Closure (Conn_ShutdownInLoop a)) s1))
     else Inr s)"

definition HandleClose ::
  "int \<Rightarrow> ('u, 'c, 'z) conn_env \<Rightarrow> nat \<Rightarrow> ('u, 'c, 'z) net_state \<Rightarrow> ('u, 'c, 'z) net_state res" where
  "HandleClose tid env a s =
     assert_then (IsInLoopThread tid s)
       (with_conn a s (\<lambda>c.
        assert_then (conn_state c \<in> {kConnected, kDisconnecting, kDisconnected})
          (res_bind (upd_conn (\<lambda>c. c\<lparr>conn_state := kDisconnected\<rparr>) a s) (\<lambda>s1.
           res_bind (DisableRead tid (conn_channel c) s1) (\<lambda>s2.
           conn_writing c s2 (\<lambda>writing.
           if writing then Inr s2
           else
             res_bind (DisableWrite tid (conn_channel c) s2) (\<lambda>s3.
             with_conn a s3 (\<lambda>c. call_cb env On_close (close_cb c) a s3))))))))"

definition ForceClose :: "int \<Rightarrow> nat \<Rightarrow> ('u, 'c, 'z) net_state \<Rightarrow> ('u, 'c, 'z) net_state res" where
  "ForceClose tid a s =
     with_conn a s (\<lambda>c.
     if conn_state c \<in> {kConnected, kDisconnecting} then
       res_bind (upd_conn (\<lambda>c. c\<lparr>conn_state := kDisconnected\<rparr>) a s) (\<lambda>s1.
       Inr (QueueInLoop tid (Closure (Conn_ForceCloseInLoop a)) s1))
     else Inr s)"

definition ForceCloseAfter ::
  "int \<Rightarrow> timestamp \<Rightarrow> duration \<Rightarrow> nat \<Rightarrow> ('u, 'c, 'z) net_state \<Rightarrow> ('u, 'c, 'z) net_state res" where
  "ForceCloseAfter tid clock delay a s =
     res_bind (RunAfter tid clock delay (Conn_ForceCloseInLoop a) s) (\<lambda>(i, s'). Inr s')"

definition ForceCloseInLoop ::
  "int \<Rightarrow> ('u, 'c, 'z) conn_env \<Rightarrow> nat \<Rightarrow> ('u, 'c, 'z) net_state \<Rightarrow> ('u, 'c, 'z) net_state res" where
  "ForceCloseInLoop tid env a s =
     assert_then (IsInLoopThread tid s)
       (with_conn a s (\<lambda>c.
        if conn_state c \<in> {kConnected, kDisconnecting} then HandleClose tid env a s else Inr s))"

subsection \<open>Events\<close>

definition HandleError :: "nat \<Rightarrow> ('u, 'c, 'z) net_state \<Rightarrow> ('u, 'c, 'z) net_state res" where
  "HandleError a s = with_conn a s (\<lambda>c. Inr s)"

definition conn_HandleRead ::
  "int \<Rightarrow> ('u, 'c, 'z) conn_env \<Rightarrow> read_answer \<Rightarrow> nat \<Rightarrow> ('u, 'c, 'z) net_state \<Rightarrow> ('u, 'c, 'z) net_state res" where
  "conn_HandleRead tid env r a s =
     assert_then (IsInLoopThread tid s)
       (with_conn a s (\<lambda>c.
        res_bind (ReadFd r (input_buf c)) (\<lambda>(n, b).
        res_bind (upd_conn (\<lambda>c. c\<lparr>input_buf := b\<rparr>) a s) (\<lambda>s1.
        if 0 < n then call_cb env On_message (message_cb c) a s1
        else if n = 0 then HandleClose tid env a s1
        else HandleError a s1))))"

definition conn_HandleWrite ::
  "int \<Rightarrow> ('u, 'c, 'z) conn_env \<Rightarrow> write_answer \<Rightarrow> nat \<Rightarrow> ('u, 'c, 'z) net_state \<Rightarrow> ('u, 'c, 'z) net_state res" where
  "conn_HandleWrite tid env w a s =
     assert_then (IsInLoopThread tid s)
       (with_conn a s (\<lambda>c.
        conn_writing c s (\<lambda>writing.
        if \<not> writing then Inr s
        else case w of
          Write_error e \<Rightarrow> Inr s
        | Write_ok n \<Rightarrow>
            let s1 = write_effect (conn_sockfd c) (contents (output_buf c)) n s in
            if n = 0 then Inr s1
            else
              res_bind (Release n (output_buf c)) (\<lambda>b.
              res_bind (upd_conn (\<lambda>c. c\<lparr>output_buf := b\<rparr>) a s1) (\<lambda>s2.
              if ReadableBytes b \<noteq> 0 then Inr s2
              else
                res_bind (DisableWrite tid (conn_channel c) s2) (\<lambda>s3.
                let s4 = (if low_watermark_cb c \<noteq> None then queue_low_watermark tid a s3 else s3) in
                res_bind (if conn_state c = kDisconnecting then ShutdownInLoop tid a s4 else Inr s4) (\<lambda>s5.
                if conn_state c = kDisconnected then HandleClose tid env a s5 else Inr s5)))))))"

subsection \<open>The closures of connections as closures of the loop\<close>

text \<open>The answers of \<open>readv\<close> and \<open>write\<close> on the socket of the connection at an address.\<close>

record ('u, 'c, 'z) socket_answers =
  read_on :: "nat \<Rightarrow> ('u, 'c, 'z) net_scheme \<Rightarrow> read_answer"
  write_on :: "nat \<Rightarrow> ('u, 'c, 'z) net_scheme \<Rightarrow> write_answer"

fun conn_closure_env ::
  "('u \<Rightarrow> ('u, 'c, 'z) net_state \<Rightarrow> ('u, 'c, 'z) net_state res) \<Rightarrow> ('u, 'c, 'z) socket_answers \<Rightarrow>
   ('u, 'c, 'z) conn_env \<Rightarrow> 'u closure \<Rightarrow> ('u, 'c, 'z) net_state \<Rightarrow> ('u, 'c, 'z) net_state res" where
  "conn_closure_env other io env (Conn_HandleRead a) s = conn_HandleRead (loop_tid s) env (read_on io a s) a s"
| "conn_closure_env other io env (Conn_HandleWrite a) s = conn_HandleWrite (loop_tid s) env (write_on io a s) a s"
| "conn_closure_env other io env (Conn_HandleError a) s = HandleError a s"
| "conn_closure_env other io env (Conn_SendInLoop a m) s = SendInLoop (loop_tid s) env (write_on io a s) a m s"
| "conn_closure_env other io env (Conn_ShutdownInLoop a) s = ShutdownInLoop (loop_tid s) a s"
| "conn_closure_env other io env (Conn_ForceCloseInLoop a) s = ForceCloseInLoop (loop_tid s) env a s"
| "conn_closure_env other io env (Conn_low_watermark a) s = watermark_closure env (Conn_low_watermark a) s"
| "conn_closure_env other io env (Conn_high_watermark a n) s = watermark_closure env (Conn_high_watermark a n) s"
| "conn_closure_env other io env (Other_closure u) s = other u s"

subsection \<open>A connection with its channel\<close>

definition conn_view ::
  "nat \<Rightarrow> ('u, 'c, 'z) net_state \<Rightarrow> 'c connection \<Rightarrow> 'u closure channel \<Rightarrow> bool" where
  "conn_view a s c ch \<longleftrightarrow>
     conns s a = Some c \<and> chan_inv s \<and> can_register (conn_channel c) ch s \<and> rw_events ch \<and>
     ch_fd ch = conn_sockfd c \<and> buf_inv (input_buf c) \<and> buf_inv (output_buf c)"

text \<open>The bytes of the socket's log.\<close>

fun wire :: "int \<Rightarrow> socket_event list \<Rightarrow> string" where
  "wire fd [] = []"
| "wire fd (Wrote f bytes # es) = (if f = fd then bytes else []) @ wire fd es"
| "wire fd (e # es) = wire fd es"

lemma wire_append [simp]: "wire fd (xs @ ys) = wire fd xs @ wire fd ys"
  by (induction fd xs rule: wire.induct) auto

text \<open>What the channel operations leave alone.\<close>

definition same_rest :: "('u, 'c, 'z) net_state \<Rightarrow> ('u, 'c, 'z) net_state \<Rightarrow> bool" where
  "same_rest s s' \<longleftrightarrow> loop_tid s' = loop_tid s \<and> conns s' = conns s \<and> socket_log s' = socket_log s \<and>
     pending_functors s' = pending_functors s \<and> net.more s' = net.more s"

lemma conn_viewD:
  assumes "conn_view a s c ch"
  shows "conns s a = Some c" "chan_inv s" "chan_store s (conn_channel c) = Some ch"
    "can_register (conn_channel c) ch s" "rw_events ch" "ch_fd ch = conn_sockfd c"
    "buf_inv (input_buf c)" "buf_inv (output_buf c)"
  using assms by (auto simp: conn_view_def can_register_def)

lemma set_events_view:
  assumes "conn_view a s c ch" "rw_events (ch\<lparr>ch_events := g (ch_events ch)\<rparr>)"
  shows "\<exists>s'. set_events g (loop_tid s) (conn_channel c) s = Inr s' \<and>
    conn_view a s' c (ch\<lparr>ch_events := g (ch_events ch)\<rparr>) \<and> same_rest s s'"
proof -
  note v = conn_viewD [OF assms(1)]
  let ?ch = "ch\<lparr>ch_events := g (ch_events ch)\<rparr>"
  let ?s = "s\<lparr>chan_store := (chan_store s)(conn_channel c \<mapsto> ?ch),
           channels := insert (conn_channel c) (channels s),
           epoll_interest := (epoll_interest s)(ch_fd ch \<mapsto> (g (ch_events ch), conn_channel c))\<rparr>"
  have "chan_inv ?s" using chan_inv_register [OF v(2,4), of ?ch] by simp
  moreover have "0 \<le> conn_sockfd c" using v(4,6) by (simp add: can_register_def)
  ultimately have "conn_view a ?s c ?ch"
    using v assms(2) by (simp add: conn_view_def can_register_def)
  with set_events_eq [OF v(2,4), of g] show ?thesis by (simp add: same_rest_def)
qed

text \<open>Each operation with the flags it leaves.\<close>

definition enabled :: "bool \<Rightarrow> bool \<Rightarrow> 'f channel \<Rightarrow> bool" where
  "enabled r w ch \<longleftrightarrow> ReadEnabled ch = r \<and> WriteEnabled ch = w"

lemma channel_ops_view:
  assumes "conn_view a s c ch" "enabled r w ch"
  shows "\<exists>s' ch'. EnableRead (loop_tid s) (conn_channel c) s = Inr s' \<and> conn_view a s' c ch' \<and>
      same_rest s s' \<and> enabled True w ch'"
    and "\<exists>s' ch'. DisableRead (loop_tid s) (conn_channel c) s = Inr s' \<and> conn_view a s' c ch' \<and>
      same_rest s s' \<and> enabled False w ch'"
    and "\<exists>s' ch'. EnableWrite (loop_tid s) (conn_channel c) s = Inr s' \<and> conn_view a s' c ch' \<and>
      same_rest s s' \<and> enabled r True ch'"
    and "\<exists>s' ch'. DisableWrite (loop_tid s) (conn_channel c) s = Inr s' \<and> conn_view a s' c ch' \<and>
      same_rest s s' \<and> enabled r False ch'"
proof -
  note v = conn_viewD [OF assms(1)]
  have go: "\<exists>s' ch'. set_events g (loop_tid s) (conn_channel c) s = Inr s' \<and> conn_view a s' c ch' \<and>
      same_rest s s' \<and> enabled r' w' ch'"
    if "rw_events (ch\<lparr>ch_events := g (ch_events ch)\<rparr>)" "enabled r' w' (ch\<lparr>ch_events := g (ch_events ch)\<rparr>)"
    for g r' w'
    using set_events_view [OF assms(1), of g] that by blast
  show "\<exists>s' ch'. EnableRead (loop_tid s) (conn_channel c) s = Inr s' \<and> conn_view a s' c ch' \<and>
      same_rest s s' \<and> enabled True w ch'"
    unfolding EnableRead_def using v(5) assms(2) by (intro go) (auto simp: enabled_def event_bits)
  show "\<exists>s' ch'. DisableRead (loop_tid s) (conn_channel c) s = Inr s' \<and> conn_view a s' c ch' \<and>
      same_rest s s' \<and> enabled False w ch'"
    unfolding DisableRead_def using v(5) assms(2) by (intro go) (auto simp: enabled_def event_bits)
  show "\<exists>s' ch'. EnableWrite (loop_tid s) (conn_channel c) s = Inr s' \<and> conn_view a s' c ch' \<and>
      same_rest s s' \<and> enabled r True ch'"
    unfolding EnableWrite_def using v(5) assms(2) by (intro go) (auto simp: enabled_def event_bits)
  show "\<exists>s' ch'. DisableWrite (loop_tid s) (conn_channel c) s = Inr s' \<and> conn_view a s' c ch' \<and>
      same_rest s s' \<and> enabled r False ch'"
    unfolding DisableWrite_def using v(5) assms(2) by (intro go) (auto simp: enabled_def event_bits)
qed

lemma upd_conn_view:
  assumes "conn_view a s c ch"
    and "conn_channel (g c) = conn_channel c" "conn_sockfd (g c) = conn_sockfd c"
    and "buf_inv (input_buf (g c))" "buf_inv (output_buf (g c))"
  shows "\<exists>s'. upd_conn g a s = Inr s' \<and> conn_view a s' (g c) ch \<and> loop_tid s' = loop_tid s \<and>
    socket_log s' = socket_log s \<and> pending_functors s' = pending_functors s \<and> net.more s' = net.more s"
  using assms
  by (auto simp: upd_conn_def with_conn_def conn_view_def can_register_def chan_inv_def)

lemma conn_writing_view: "conn_view a s c ch \<Longrightarrow> conn_writing c s k = k (WriteEnabled ch)"
  by (simp add: conn_writing_def with_chan_def conn_viewD)

lemma conn_writing_view': "conn_view a s c' ch \<Longrightarrow> conn_channel c = conn_channel c' \<Longrightarrow>
    conn_writing c s k = k (WriteEnabled ch)"
  by (simp add: conn_writing_def with_chan_def conn_viewD)

lemma with_conn_view: "conn_view a s c ch \<Longrightarrow> with_conn a s k = k c"
  by (simp add: with_conn_def conn_viewD)

lemma IsInLoopThread_self [simp]: "IsInLoopThread (loop_tid s) s"
  by (simp add: IsInLoopThread_def)

lemma conn_view_cong:
  "conns t a = conns s a \<Longrightarrow> channels t = channels s \<Longrightarrow> chan_store t = chan_store s \<Longrightarrow>
   epoll_interest t = epoll_interest s \<Longrightarrow> conn_view a t c ch = conn_view a s c ch"
  by (simp add: conn_view_def can_register_def chan_inv_def)

lemma log_socket_view:
  "conn_view a s c ch \<Longrightarrow> conn_view a (log_socket e s) c ch"
  by (subst conn_view_cong [of _ a s]) (simp_all add: log_socket_def)

lemma queue_view: "conn_view a s c ch \<Longrightarrow> conn_view a (QueueInLoop tid f s) c ch"
  by (subst conn_view_cong [of _ a s]) (simp_all add: QueueInLoop_def Push_functor_def WakeUp_def Let_def)

lemma queue_same [simp]: "loop_tid (QueueInLoop tid f s) = loop_tid s"
  "conns (QueueInLoop tid f s) = conns s" "socket_log (QueueInLoop tid f s) = socket_log s"
  "net.more (QueueInLoop tid f s) = net.more s"
  "pending_functors (QueueInLoop tid f s) = pending_functors s @ [f]"
  by (simp_all add: QueueInLoop_def Push_functor_def WakeUp_def Let_def)

lemma log_socket_same [simp]: "loop_tid (log_socket e s) = loop_tid s"
  "conns (log_socket e s) = conns s" "socket_log (log_socket e s) = socket_log s @ [e]"
  "net.more (log_socket e s) = net.more s" "pending_functors (log_socket e s) = pending_functors s"
  by (simp_all add: log_socket_def)

definition the_conn :: "nat \<Rightarrow> ('u, 'c, 'z) net_state \<Rightarrow> 'c connection" where
  "the_conn a s = the (conns s a)"

definition unsent :: "nat \<Rightarrow> ('u, 'c, 'z) net_state \<Rightarrow> string" where
  "unsent a s = contents (output_buf (the_conn a s))"

definition sent :: "nat \<Rightarrow> ('u, 'c, 'z) net_state \<Rightarrow> string" where
  "sent a s = wire (conn_sockfd (the_conn a s)) (socket_log s)"

definition reading :: "nat \<Rightarrow> ('u, 'c, 'z) net_state \<Rightarrow> bool" where
  "reading a s = (case chan_store s (conn_channel (the_conn a s)) of None \<Rightarrow> False | Some ch \<Rightarrow> ReadEnabled ch)"

lemma conn_view_the: "conn_view a s c ch \<Longrightarrow> the_conn a s = c"
  by (simp add: the_conn_def conn_viewD)

lemma view_parts:
  assumes "conn_view a s c ch"
  shows "unsent a s = contents (output_buf c)" "sent a s = wire (conn_sockfd c) (socket_log s)"
    "reading a s = ReadEnabled ch"
  using conn_viewD(3) [OF assms] by (simp_all add: unsent_def sent_def reading_def conn_view_the [OF assms])

text \<open>
  Callbacks that return and leave the connection as it is; \<open>g\<close> reads off the rest
  of the state how often \<open>close_cb_\<close> has been called.
\<close>

definition leaves :: "nat \<Rightarrow> ('u, 'c, 'z) net_state \<Rightarrow> ('u, 'c, 'z) net_state \<Rightarrow> bool" where
  "leaves a s s' \<longleftrightarrow>
     loop_tid s' = loop_tid s \<and>
     (\<forall>c ch. conn_view a s c ch \<longrightarrow> conn_view a s' c ch \<and>
        wire (conn_sockfd c) (socket_log s') = wire (conn_sockfd c) (socket_log s))"

definition calm :: "('z \<Rightarrow> nat) \<Rightarrow> ('u, 'c, 'z) conn_env \<Rightarrow> nat \<Rightarrow> bool" where
  "calm g env a \<longleftrightarrow> (\<forall>ev f s. \<exists>s'. env ev f a s = Inr s' \<and> leaves a s s' \<and>
     g (net.more s') = g (net.more s) + (if ev = On_close then 1 else 0))"

lemma calm_call:
  assumes "calm g env a" "conn_view a s c ch" "cb \<noteq> None"
  shows "\<exists>s'. call_cb env ev cb a s = Inr s' \<and> conn_view a s' c ch \<and> loop_tid s' = loop_tid s \<and>
    wire (conn_sockfd c) (socket_log s') = wire (conn_sockfd c) (socket_log s) \<and>
    g (net.more s') = g (net.more s) + (if ev = On_close then 1 else 0)"
proof -
  obtain f where "cb = Some f" using assms(3) by blast
  moreover obtain s' where "env ev f a s = Inr s'" "leaves a s s'"
      "g (net.more s') = g (net.more s) + (if ev = On_close then 1 else 0)"
    using assms(1) unfolding calm_def by blast
  ultimately show ?thesis using assms(2) by (auto simp: call_cb_def leaves_def)
qed

text \<open>Reading and writing flags of the channel, and the room for the bytes to come.\<close>

lemma Write_view:
  assumes "conn_view a s c ch" "buf_room (length (contents (output_buf c)) + length d)"
  shows "\<exists>b s'. Write d (output_buf c) = Inr b \<and> contents b = contents (output_buf c) @ d \<and>
    upd_conn (\<lambda>c. c\<lparr>output_buf := b\<rparr>) a s = Inr s' \<and> conn_view a s' (c\<lparr>output_buf := b\<rparr>) ch \<and>
    loop_tid s' = loop_tid s \<and> socket_log s' = socket_log s \<and> net.more s' = net.more s"
proof -
  note v = conn_viewD [OF assms(1)]
  obtain b where b: "Write d (output_buf c) = Inr b" "buf_inv b" "contents b = contents (output_buf c) @ d"
    using net_buffer.put_law [OF v(8) assms(2)] by blast
  from upd_conn_view [OF assms(1), of "\<lambda>c. c\<lparr>output_buf := b\<rparr>"] b v(7) show ?thesis by auto
qed

text \<open>The result of an operation, over the view: state, flags, bytes and count of closes.\<close>

definition outcome ::
  "('z \<Rightarrow> nat) \<Rightarrow> nat \<Rightarrow> ('u, 'c, 'z) net_state \<Rightarrow> 'c connection \<Rightarrow> bool \<Rightarrow> bool \<Rightarrow> string \<Rightarrow> nat \<Rightarrow>
   ('u, 'c, 'z) net_state res \<Rightarrow> bool" where
  "outcome g a s c r w bytes n x \<longleftrightarrow>
     (\<exists>s' ch. x = Inr s' \<and> conn_view a s' c ch \<and> enabled r w ch \<and> loop_tid s' = loop_tid s \<and>
        wire (conn_sockfd c) (socket_log s') = bytes \<and> g (net.more s') = g (net.more s) + n)"

lemma send_buffered_ok:
  assumes "conn_view a s c ch" "calm g env a" "enabled r w ch"
    and "buf_room (length (contents (output_buf c)) + length (drop n msg))"
    and "k = length (drop n msg)"
  shows "\<exists>b. contents b = contents (output_buf c) @ drop n msg \<and>
    outcome g a s (c\<lparr>output_buf := b\<rparr>) r True (wire (conn_sockfd c) (socket_log s)) 0
      (send_buffered (loop_tid s) env a msg n k s)"
proof -
  define d where "d = drop n msg"
  define high where "high = (ReadableBytes (output_buf c) \<le> high_watermark c \<and>
    high_watermark c < size_add (ReadableBytes (output_buf c)) k \<and> high_watermark_cb c \<noteq> None)"
  obtain s1 where s1: "(if high then RunInLoop (watermark_closure env) (loop_tid s)
        (Closure (Conn_high_watermark a (size_add (ReadableBytes (output_buf c)) k))) s else Inr s) = Inr s1"
      "conn_view a s1 c ch" "loop_tid s1 = loop_tid s"
      "wire (conn_sockfd c) (socket_log s1) = wire (conn_sockfd c) (socket_log s)"
      "g (net.more s1) = g (net.more s)"
  proof (cases high)
    case True
    then have "high_watermark_cb c \<noteq> None" by (simp add: high_def)
    from calm_call [OF assms(2,1) this, of "On_high_watermark (size_add (ReadableBytes (output_buf c)) k)"] True that
    show thesis by (auto simp: RunInLoop_def with_conn_view [OF assms(1)])
  qed (use assms(1) that in auto)
  obtain b s2 where b: "Write d (output_buf c) = Inr b" "contents b = contents (output_buf c) @ d"
      "upd_conn (\<lambda>c. c\<lparr>output_buf := b\<rparr>) a s1 = Inr s2" "conn_view a s2 (c\<lparr>output_buf := b\<rparr>) ch"
      "loop_tid s2 = loop_tid s1" "socket_log s2 = socket_log s1" "net.more s2 = net.more s1"
    using Write_view [OF s1(2), of d] assms(4) by (auto simp: d_def)
  have eq: "send_buffered (loop_tid s) env a msg n k s =
      (if WriteEnabled ch then Inr s2 else EnableWrite (loop_tid s2) (conn_channel (c\<lparr>output_buf := b\<rparr>)) s2)"
    unfolding send_buffered_def with_conn_view [OF assms(1)] Let_def high_def [symmetric] s1(1) res_bind.simps
    using b s1(3) assms(5)
    by (simp add: with_conn_view [OF s1(2)] conn_writing_view' [OF b(4)] d_def)
  obtain s3 ch3 where "EnableWrite (loop_tid s2) (conn_channel (c\<lparr>output_buf := b\<rparr>)) s2 = Inr s3"
      "conn_view a s3 (c\<lparr>output_buf := b\<rparr>) ch3" "same_rest s2 s3" "enabled r True ch3"
    using channel_ops_view(3) [OF b(4) assms(3)] by blast
  with eq b s1 assms(3) show ?thesis
    by (cases "WriteEnabled ch") (auto simp: outcome_def same_rest_def d_def enabled_def)
qed

text \<open>\<open>SendInLoop\<close>: everything the callers need, over the view.\<close>

definition reset_error :: "write_answer \<Rightarrow> bool" where
  "reset_error w \<longleftrightarrow> w = Write_error EPIPE \<or> w = Write_error ECONNRESET"

lemma outcome_Inr:
  assumes "conn_view a s' c ch" "enabled r w ch" "loop_tid s' = loop_tid s"
    "wire (conn_sockfd c) (socket_log s') = bytes" "g (net.more s') = g (net.more s) + n"
  shows "outcome g a s c r w bytes n (Inr s')"
  using assms by (auto simp: outcome_def)

lemma outcome_from:
  assumes "outcome g a s1 c r w bytes n x" "loop_tid s1 = loop_tid s" "g (net.more s1) = g (net.more s) + m"
  shows "outcome g a s c r w bytes (m + n) x"
  using assms by (auto simp: outcome_def)

lemma SendInLoop_view:
  assumes view: "conn_view a s c ch" and env: "calm g env a" and en: "enabled r (contents (output_buf c) \<noteq> []) ch"
    and room: "buf_room (length (contents (output_buf c)) + length msg)"
    and w: "write_answer_ok (length msg) w"
  shows "\<exists>b bytes. outcome g a s (c\<lparr>output_buf := b\<rparr>) r (contents b \<noteq> []) bytes 0 (SendInLoop (loop_tid s) env w a msg s) \<and>
    bytes @ contents b = wire (conn_sockfd c) (socket_log s) @ contents (output_buf c) @
      (if conn_state c = kDisconnected \<or> (contents (output_buf c) = [] \<and> reset_error w) then [] else msg) \<and>
    length (contents b) \<le> length (contents (output_buf c)) + length msg \<and>
    (conn_state c = kDisconnected \<longrightarrow> contents b = contents (output_buf c))"
proof -
  note v = conn_viewD [OF view]
  let ?send = "SendInLoop (loop_tid s) env w a msg s"
  let ?wire = "wire (conn_sockfd c) (socket_log s)"
  let ?out = "contents (output_buf c)"
  have stay: "outcome g a s (c\<lparr>output_buf := output_buf c\<rparr>) r (?out \<noteq> []) ?wire 0 (Inr s)"
    using view en by (intro outcome_Inr) auto
  have writing: "WriteEnabled ch \<longleftrightarrow> ?out \<noteq> []" and readable: "ReadableBytes (output_buf c) = length ?out"
    using en length_contents [OF v(8)] by (simp_all add: enabled_def)
  have same: ?thesis if "?send = Inr s"
    "(if conn_state c = kDisconnected \<or> (?out = [] \<and> reset_error w) then [] else msg) = []"
    using stay unfolding that by (intro exI conjI) (assumption, simp_all)
  have buffered: ?thesis if "?send = send_buffered (loop_tid s) env a msg 0 (length msg) s" "msg \<noteq> []"
    "conn_state c \<noteq> kDisconnected" "\<not> (?out = [] \<and> reset_error w)"
  proof -
    obtain b where b: "contents b = ?out @ msg"
        "outcome g a s (c\<lparr>output_buf := b\<rparr>) r True ?wire 0 (send_buffered (loop_tid s) env a msg 0 (length msg) s)"
      using send_buffered_ok [OF view env en, of 0 msg] room by auto
    have "contents b \<noteq> []" using b(1) that(2) by simp
    with b that show ?thesis by (intro exI [of _ b] exI [of _ ?wire]) simp
  qed
  consider (gone) "conn_state c = kDisconnected"
    | (queue) "conn_state c \<noteq> kDisconnected" "?out \<noteq> []"
    | (direct) n where "conn_state c \<noteq> kDisconnected" "?out = []" "w = Write_ok n" "n \<le> length msg"
    | (failed) e where "conn_state c \<noteq> kDisconnected" "?out = []" "w = Write_error e"
    using w by (cases w) auto
  then show ?thesis
  proof cases
    case gone
    then show ?thesis by (intro same) (simp_all add: SendInLoop_def with_conn_view [OF view])
  next
    case queue
    then have "send_direct (loop_tid s) w a msg s = Inr (0, length msg, False, s)"
      by (simp add: send_direct_def with_conn_view [OF view] conn_writing_view [OF view] writing)
    with queue show ?thesis
      by (cases "msg = []") (intro same buffered; simp add: SendInLoop_def with_conn_view [OF view])+
  next
    case failed
    then have "send_direct (loop_tid s) w a msg s = Inr (0, length msg, reset_error w, s)"
      using readable writing
      by (simp add: send_direct_def with_conn_view [OF view] conn_writing_view [OF view] reset_error_def)
    with failed show ?thesis
      by (cases "reset_error w \<or> msg = []")
        (intro same buffered; auto simp: SendInLoop_def with_conn_view [OF view])+
  next
    case direct
    define s1 where "s1 = (if length msg - n = 0 \<and> low_watermark_cb c \<noteq> None
      then queue_low_watermark (loop_tid s) a (write_effect (conn_sockfd c) msg n s)
      else write_effect (conn_sockfd c) msg n s)"
    have s1: "conn_view a s1 c ch" "loop_tid s1 = loop_tid s" "net.more s1 = net.more s"
      "wire (conn_sockfd c) (socket_log s1) = ?wire @ take n msg"
      using log_socket_view [OF view] queue_view [OF log_socket_view [OF view]]
      by (simp_all add: s1_def write_effect_def queue_low_watermark_def)
    have "length msg < size_mod" using buf_room_less [OF room] by simp
    then have "send_direct (loop_tid s) w a msg s = Inr (n, length msg - n, False, s1)"
      using direct readable writing
      by (simp add: send_direct_def with_conn_view [OF view] conn_writing_view [OF view] s1_def Let_def)
    then have send: "?send = (if 0 < length msg - n then send_buffered (loop_tid s) env a msg n (length msg - n) s1 else Inr s1)"
      using direct(1) by (simp add: SendInLoop_def with_conn_view [OF view])
    have not_reset: "\<not> reset_error w" using direct(3) by (simp add: reset_error_def)
    show ?thesis
    proof (cases "n < length msg")
      case True
      have rest: "buf_room (length ?out + length (drop n msg))" using room by (simp add: buf_room_def)
      then obtain b where b: "contents b = ?out @ drop n msg"
          "outcome g a s1 (c\<lparr>output_buf := b\<rparr>) r True (?wire @ take n msg) 0
             (send_buffered (loop_tid s1) env a msg n (length msg - n) s1)"
        using send_buffered_ok [OF s1(1) env en rest length_drop [symmetric]] unfolding s1(4) by blast
      have "outcome g a s (c\<lparr>output_buf := b\<rparr>) r True (?wire @ take n msg) 0 ?send"
        using outcome_from [OF b(2) s1(2), of 0] s1(2,3) send True by simp
      moreover have "contents b \<noteq> []" using b(1) True by simp
      ultimately show ?thesis using direct(1,2) b(1) not_reset
        by (intro exI [of _ b] exI [of _ "?wire @ take n msg"]) simp
    next
      case False
      then have "outcome g a s (c\<lparr>output_buf := output_buf c\<rparr>) r (?out \<noteq> []) (?wire @ msg) 0 ?send"
        using outcome_Inr [where g = g and n = 0, OF s1(1) en s1(2,4)] s1(3) direct(4) send by simp
      with direct(1,2) not_reset show ?thesis
        by (intro exI [of _ "output_buf c"] exI [of _ "?wire @ msg"]) simp
    qed
  qed
qed

text \<open>\<open>HandleClose\<close>: the callback is called unless bytes are still to be written.\<close>

lemma HandleClose_view:
  assumes view: "conn_view a s c ch" and env: "calm g env a" and en: "enabled r w ch"
    and state: "conn_state c \<noteq> kConnecting" and cb: "close_cb c \<noteq> None"
  shows "outcome g a s (c\<lparr>conn_state := kDisconnected\<rparr>) False w (wire (conn_sockfd c) (socket_log s))
    (if w then 0 else 1) (HandleClose (loop_tid s) env a s)"
proof -
  note v = conn_viewD [OF view]
  let ?c = "c\<lparr>conn_state := kDisconnected\<rparr>"
  obtain s1 where s1: "upd_conn (\<lambda>c. c\<lparr>conn_state := kDisconnected\<rparr>) a s = Inr s1" "conn_view a s1 ?c ch"
      "loop_tid s1 = loop_tid s" "socket_log s1 = socket_log s" "net.more s1 = net.more s"
    using upd_conn_view [OF view, of "\<lambda>c. c\<lparr>conn_state := kDisconnected\<rparr>"] v(7,8) by auto
  obtain s2 ch2 where s2: "DisableRead (loop_tid s1) (conn_channel ?c) s1 = Inr s2" "conn_view a s2 ?c ch2"
      "same_rest s1 s2" "enabled False w ch2"
    using channel_ops_view(2) [OF s1(2) en] by blast
  have run: "HandleClose (loop_tid s) env a s =
      (if w then Inr s2 else res_bind (DisableWrite (loop_tid s) (conn_channel c) s2)
        (\<lambda>s3. with_conn a s3 (\<lambda>c. call_cb env On_close (close_cb c) a s3)))"
    using state s1 s2
    by (cases "conn_state c")
      (auto simp: HandleClose_def with_conn_view [OF view] conn_writing_view' [OF s2(2), of c] enabled_def)
  show ?thesis
  proof (cases w)
    case True
    with run s1 s2 show ?thesis by (auto simp: outcome_def same_rest_def)
  next
    case False
    obtain s3 ch3 where s3: "DisableWrite (loop_tid s2) (conn_channel ?c) s2 = Inr s3" "conn_view a s3 ?c ch3"
        "same_rest s2 s3" "enabled False False ch3"
      using channel_ops_view(4) [OF s2(2,4)] by blast
    obtain s4 where "call_cb env On_close (close_cb ?c) a s3 = Inr s4" "conn_view a s4 ?c ch3"
        "loop_tid s4 = loop_tid s3" "wire (conn_sockfd c) (socket_log s4) = wire (conn_sockfd c) (socket_log s3)"
        "g (net.more s4) = g (net.more s3) + 1"
      using calm_call [OF env s3(2), of "close_cb ?c" On_close] cb by auto
    with run False s1 s2 s3 show ?thesis
      by (auto simp: outcome_def same_rest_def with_conn_view [OF s3(2)])
  qed
qed

lemma conn_HandleWrite_view:
  assumes view: "conn_view a s c ch" and env: "calm g env a" and en: "enabled r (contents (output_buf c) \<noteq> []) ch"
    and cb: "close_cb c \<noteq> None" and state: "conn_state c \<noteq> kConnecting"
    and w: "write_answer_ok (length (contents (output_buf c))) w"
  shows "\<exists>b bytes r' n. outcome g a s (c\<lparr>output_buf := b\<rparr>) r' (contents b \<noteq> []) bytes n
      (conn_HandleWrite (loop_tid s) env w a s) \<and>
    bytes @ contents b = wire (conn_sockfd c) (socket_log s) @ contents (output_buf c) \<and>
    contents b = (case w of Write_ok k \<Rightarrow> drop k (contents (output_buf c)) | Write_error e \<Rightarrow> contents (output_buf c)) \<and>
    (if conn_state c = kDisconnected \<and> contents (output_buf c) \<noteq> [] \<and> contents b = []
     then n = 1 \<and> \<not> r' else n = 0 \<and> r' = r)"
proof -
  note v = conn_viewD [OF view]
  let ?out = "contents (output_buf c)"
  let ?wire = "wire (conn_sockfd c) (socket_log s)"
  let ?hw = "conn_HandleWrite (loop_tid s) env w a s"
  have writing: "WriteEnabled ch \<longleftrightarrow> ?out \<noteq> []" using en by (simp add: enabled_def)
  show ?thesis
  proof (cases "?out = [] \<or> (\<exists>e. w = Write_error e) \<or> w = Write_ok 0")
    case True
    define s1 where "s1 = (if ?out \<noteq> [] \<and> w = Write_ok 0 then write_effect (conn_sockfd c) ?out 0 s else s)"
    have s1: "conn_view a s1 c ch" "loop_tid s1 = loop_tid s" "net.more s1 = net.more s"
      "wire (conn_sockfd c) (socket_log s1) = ?wire"
      using view log_socket_view [OF view] by (simp_all add: s1_def write_effect_def)
    have "?hw = Inr s1"
      using True by (auto simp: conn_HandleWrite_def with_conn_view [OF view] conn_writing_view [OF view]
          writing s1_def Let_def split: write_answer.split)
    then have "outcome g a s (c\<lparr>output_buf := output_buf c\<rparr>) r (?out \<noteq> []) ?wire 0 ?hw"
      using outcome_Inr [where g = g and n = 0, OF s1(1) en s1(2,4)] s1(3) by simp
    moreover have "?out = (case w of Write_ok k \<Rightarrow> drop k ?out | Write_error e \<Rightarrow> ?out)"
      using True w by (cases w) auto
    ultimately show ?thesis
      by (intro exI [of _ "output_buf c"] exI [of _ ?wire] exI [of _ r] exI [of _ 0]) simp
  next
    case False
    then obtain n where n: "w = Write_ok n" "0 < n" "n \<le> length ?out" "?out \<noteq> []"
      using w by (cases w) auto
    obtain b where b: "Release n (output_buf c) = Inr b" "buf_inv b" "contents b = drop n ?out"
      using net_buffer.drop_law [OF v(8) n(3)] by blast
    define s1 where "s1 = write_effect (conn_sockfd c) ?out n s"
    have s1: "conn_view a s1 c ch" "loop_tid s1 = loop_tid s" "net.more s1 = net.more s"
      "wire (conn_sockfd c) (socket_log s1) = ?wire @ take n ?out"
      using log_socket_view [OF view] by (simp_all add: s1_def write_effect_def)
    let ?c = "c\<lparr>output_buf := b\<rparr>"
    obtain s2 where s2: "upd_conn (\<lambda>c. c\<lparr>output_buf := b\<rparr>) a s1 = Inr s2" "conn_view a s2 ?c ch"
        "loop_tid s2 = loop_tid s1" "socket_log s2 = socket_log s1" "net.more s2 = net.more s1"
      using upd_conn_view [OF s1(1), of "\<lambda>c. c\<lparr>output_buf := b\<rparr>"] b(2) v(7) by auto
    have rb: "ReadableBytes b = length (drop n ?out)" using length_contents [OF b(2)] b(3) by simp
    have bytes: "(?wire @ take n ?out) @ contents b = ?wire @ ?out" by (simp add: b(3))
    define rest where "rest = (\<lambda>s3.
      let s4 = (if low_watermark_cb c \<noteq> None then queue_low_watermark (loop_tid s) a s3 else s3) in
      res_bind (if conn_state c = kDisconnecting then ShutdownInLoop (loop_tid s) a s4 else Inr s4) (\<lambda>s5.
      if conn_state c = kDisconnected then HandleClose (loop_tid s) env a s5 else Inr s5))"
    have run: "?hw = (if contents b \<noteq> [] then Inr s2
        else res_bind (DisableWrite (loop_tid s) (conn_channel c) s2) rest)"
      using n s1(2) s2(1) b(1,3) rb
      by (simp add: conn_HandleWrite_def with_conn_view [OF view] conn_writing_view [OF view] writing
          s1_def [symmetric] rest_def Let_def)
    show ?thesis
    proof (cases "contents b = []")
      case False
      have "outcome g a s ?c r (contents b \<noteq> []) (?wire @ take n ?out) 0 ?hw"
        using outcome_Inr [where g = g and n = 0, OF s2(2), of r True s] s2 s1 run False en n(4) by simp
      with False bytes n b(3) show ?thesis
        by (intro exI [of _ b] exI [of _ "?wire @ take n ?out"] exI [of _ r] exI [of _ 0]) simp
    next
      case True
      obtain s3 ch3 where s3: "DisableWrite (loop_tid s2) (conn_channel ?c) s2 = Inr s3" "conn_view a s3 ?c ch3"
          "same_rest s2 s3" "enabled r False ch3"
        using channel_ops_view(4) [OF s2(2) en] by blast
      define s4 where "s4 = (if low_watermark_cb c \<noteq> None then queue_low_watermark (loop_tid s) a s3 else s3)"
      have s4: "conn_view a s4 ?c ch3" "loop_tid s4 = loop_tid s" "net.more s4 = net.more s"
        "wire (conn_sockfd c) (socket_log s4) = ?wire @ take n ?out"
        using s3 s2 s1 queue_view [OF s3(2)] by (simp_all add: s4_def queue_low_watermark_def same_rest_def)
      define s5 where "s5 = (if conn_state c = kDisconnecting then log_socket (Shut_wr (conn_sockfd c)) s4 else s4)"
      have s5: "conn_view a s5 ?c ch3" "loop_tid s5 = loop_tid s" "net.more s5 = net.more s"
        "wire (conn_sockfd c) (socket_log s5) = ?wire @ take n ?out"
        using s4 log_socket_view [OF s4(1)] by (simp_all add: s5_def)
      have "(if conn_state c = kDisconnecting then ShutdownInLoop (loop_tid s) a s4 else Inr s4) = Inr s5"
        using s3(4) s4(2)
        by (simp add: s5_def ShutdownInLoop_def with_conn_view [OF s4(1)] conn_writing_view [OF s4(1)]
            IsInLoopThread_def enabled_def)
      then have "rest s3 = (if conn_state c = kDisconnected then HandleClose (loop_tid s) env a s5 else Inr s5)"
        unfolding rest_def Let_def s4_def [symmetric] by simp
      moreover have "?hw = rest s3" using run True s3(1) s2(3) s1(2) by simp
      ultimately have last: "?hw = (if conn_state c = kDisconnected then HandleClose (loop_tid s) env a s5 else Inr s5)"
        by simp
      have "outcome g a s ?c (r \<and> conn_state c \<noteq> kDisconnected) False (?wire @ take n ?out)
          (if conn_state c = kDisconnected then 1 else 0) ?hw"
      proof (cases "conn_state c = kDisconnected")
        case True
        then have c: "?c\<lparr>conn_state := kDisconnected\<rparr> = ?c" by simp
        have "outcome g a s5 (?c\<lparr>conn_state := kDisconnected\<rparr>) False False (?wire @ take n ?out) 1
            (HandleClose (loop_tid s5) env a s5)"
          using HandleClose_view [OF s5(1) env s3(4)] s5(4) cb state by simp
        from outcome_from [where m = 0, OF this [unfolded c] s5(2)] s5(2,3) last True show ?thesis by simp
      next
        case False
        with outcome_Inr [where g = g and n = 0, OF s5(1) s3(4) s5(2)] s5(3,4) last show ?thesis by simp
      qed
      with True bytes n b(3) show ?thesis
        by (intro exI [of _ b] exI [of _ "?wire @ take n ?out"] exI [of _ "r \<and> conn_state c \<noteq> kDisconnected"]
            exI [of _ "if conn_state c = kDisconnected then 1 else 0"]) auto
    qed
  qed
qed

text \<open>\<open>HandleRead\<close>: a message, the end of the stream, or an error.\<close>

lemma conn_HandleRead_view:
  assumes view: "conn_view a s c ch" and env: "calm g env a" and en: "enabled r w ch"
    and cb: "close_cb c \<noteq> None" "message_cb c \<noteq> None" and state: "conn_state c \<noteq> kConnecting"
    and x: "readv_answer x (input_buf c)"
      "case x of Read_data d \<Rightarrow> buf_room (length (contents (input_buf c)) + length d) | Read_error \<Rightarrow> True"
  shows "\<exists>b. contents b = contents (input_buf c) @ (case x of Read_data d \<Rightarrow> d | Read_error \<Rightarrow> []) \<and>
    outcome g a s (c\<lparr>input_buf := b, conn_state := (if x = Read_data [] then kDisconnected else conn_state c)\<rparr>)
      (r \<and> x \<noteq> Read_data []) w (wire (conn_sockfd c) (socket_log s)) (if x = Read_data [] \<and> \<not> w then 1 else 0)
      (conn_HandleRead (loop_tid s) env x a s)"
proof -
  note v = conn_viewD [OF view]
  let ?wire = "wire (conn_sockfd c) (socket_log s)"
  have upd: "\<exists>s1. upd_conn (\<lambda>c. c\<lparr>input_buf := b\<rparr>) a s = Inr s1 \<and> conn_view a s1 (c\<lparr>input_buf := b\<rparr>) ch \<and>
      loop_tid s1 = loop_tid s \<and> socket_log s1 = socket_log s \<and> net.more s1 = net.more s" if "buf_inv b" for b
    using upd_conn_view [OF view, of "\<lambda>c. c\<lparr>input_buf := b\<rparr>"] v(8) that by auto
  show ?thesis
  proof (cases x)
    case Read_error
    obtain s1 where s1: "upd_conn (\<lambda>d. d\<lparr>input_buf := input_buf c\<rparr>) a s = Inr s1" "conn_view a s1 c ch"
        "loop_tid s1 = loop_tid s" "socket_log s1 = socket_log s" "net.more s1 = net.more s"
      using upd [OF v(7)] by auto
    have "outcome g a s c r w ?wire 0 (Inr s1)"
      using outcome_Inr [where g = g and n = 0, OF s1(2) en s1(3)] s1(4,5) by simp
    moreover have "conn_HandleRead (loop_tid s) env x a s = Inr s1"
      using Read_error s1(1)
      by (simp add: conn_HandleRead_def HandleError_def with_conn_view [OF view] with_conn_view [OF s1(2)])
    ultimately show ?thesis using Read_error by (intro exI [of _ "input_buf c"]) simp
  next
    case (Read_data d)
    obtain b where b: "ReadFd x (input_buf c) = Inr (int (length d), b)" "buf_inv b"
        "contents b = contents (input_buf c) @ d"
      using ReadFd_ok [OF v(7)] x Read_data by auto
    let ?c = "c\<lparr>input_buf := b\<rparr>"
    obtain s1 where s1: "upd_conn (\<lambda>c. c\<lparr>input_buf := b\<rparr>) a s = Inr s1" "conn_view a s1 ?c ch"
        "loop_tid s1 = loop_tid s" "socket_log s1 = socket_log s" "net.more s1 = net.more s"
      using upd [OF b(2)] by auto
    have run: "conn_HandleRead (loop_tid s) env x a s =
        (if d = [] then HandleClose (loop_tid s1) env a s1 else call_cb env On_message (message_cb c) a s1)"
      using b(1) s1(1,3) by (simp add: conn_HandleRead_def with_conn_view [OF view])
    show ?thesis
    proof (cases "d = []")
      case True
      have "outcome g a s1 (?c\<lparr>conn_state := kDisconnected\<rparr>) False w ?wire (if w then 0 else 1)
          (HandleClose (loop_tid s1) env a s1)"
        using HandleClose_view [OF s1(2) env en] s1(4) cb(1) state by simp
      from outcome_from [where m = 0, OF this s1(3)] s1(5) run True Read_data b(3) show ?thesis
        by (intro exI [of _ b]) (cases w; simp)
    next
      case False
      obtain s2 where "call_cb env On_message (message_cb c) a s1 = Inr s2" "conn_view a s2 ?c ch"
          "loop_tid s2 = loop_tid s1" "wire (conn_sockfd c) (socket_log s2) = ?wire"
          "g (net.more s2) = g (net.more s1)"
        using calm_call [OF env s1(2) cb(2), of On_message] s1(4) by auto
      with en s1(3,5) run False have "outcome g a s ?c r w ?wire 0 (conn_HandleRead (loop_tid s) env x a s)"
        by (auto simp: outcome_def)
      with False Read_data b(3) show ?thesis by (intro exI [of _ b]) simp
    qed
  qed
qed

lemma ShutdownInLoop_view:
  assumes "conn_view a s c ch" "enabled r w ch"
  shows "outcome g a s c r w (wire (conn_sockfd c) (socket_log s)) 0 (ShutdownInLoop (loop_tid s) a s)"
  using assms log_socket_view [OF assms(1)]
  by (auto simp: ShutdownInLoop_def with_conn_view [OF assms(1)] conn_writing_view [OF assms(1)]
      outcome_def enabled_def)

lemma set_state_view:
  assumes "conn_view a s c ch"
  shows "\<exists>s'. upd_conn (\<lambda>c. c\<lparr>conn_state := q\<rparr>) a s = Inr s' \<and> conn_view a s' (c\<lparr>conn_state := q\<rparr>) ch \<and>
    loop_tid s' = loop_tid s \<and> socket_log s' = socket_log s \<and> net.more s' = net.more s"
  using upd_conn_view [OF assms, of "\<lambda>c. c\<lparr>conn_state := q\<rparr>"] conn_viewD(7,8) [OF assms] by auto

lemma Shutdown_view:
  assumes "conn_view a s c ch" "enabled r w ch"
  shows "outcome g a s (if conn_state c = kConnected then c\<lparr>conn_state := kDisconnecting\<rparr> else c) r w
    (wire (conn_sockfd c) (socket_log s)) 0 (Shutdown (loop_tid s) a s)"
proof (cases "conn_state c = kConnected")
  case True
  obtain s1 where s1: "upd_conn (\<lambda>c. c\<lparr>conn_state := kDisconnecting\<rparr>) a s = Inr s1"
      "conn_view a s1 (c\<lparr>conn_state := kDisconnecting\<rparr>) ch" "loop_tid s1 = loop_tid s"
      "socket_log s1 = socket_log s" "net.more s1 = net.more s"
    using set_state_view [OF assms(1)] by blast
  from outcome_from [where m = 0, OF ShutdownInLoop_view [OF s1(2) assms(2)] s1(3), of g] s1 True show ?thesis
    by (simp add: Shutdown_def with_conn_view [OF assms(1)] IsInLoopThread_def)
next
  case False
  with assms show ?thesis by (auto simp: Shutdown_def with_conn_view [OF assms(1)] outcome_def)
qed

lemma ForceClose_view:
  assumes "conn_view a s c ch" "enabled r w ch"
  shows "outcome g a s (if conn_state c = kConnecting then c else c\<lparr>conn_state := kDisconnected\<rparr>) r w
    (wire (conn_sockfd c) (socket_log s)) 0 (ForceClose (loop_tid s) a s)"
proof (cases "conn_state c \<in> {kConnected, kDisconnecting}")
  case True
  obtain s1 where s1: "upd_conn (\<lambda>c. c\<lparr>conn_state := kDisconnected\<rparr>) a s = Inr s1"
      "conn_view a s1 (c\<lparr>conn_state := kDisconnected\<rparr>) ch" "loop_tid s1 = loop_tid s"
      "socket_log s1 = socket_log s" "net.more s1 = net.more s"
    using set_state_view [OF assms(1)] by blast
  with queue_view [OF s1(2)] True assms(2) show ?thesis
    by (auto simp: ForceClose_def with_conn_view [OF assms(1)] outcome_def)
next
  case False
  then have "conn_state c = kConnecting \<or> conn_state c = kDisconnected" by (cases "conn_state c") auto
  then have "(if conn_state c = kConnecting then c else c\<lparr>conn_state := kDisconnected\<rparr>) = c"
    by (cases c) auto
  with False assms show ?thesis by (auto simp: ForceClose_def with_conn_view [OF assms(1)] outcome_def)
qed

subsection \<open>Everything that happens to an established connection\<close>

text \<open>
  What the loop and the user do to a connection in the thread of its loop: a send, a
  send that another thread queued, events of the channel, and the ways to close.
  The kernel takes and delivers no more than it is offered, and reports a descriptor
  readable only when that is asked for (\<open>HandleWrite\<close> checks this itself).
\<close>

datatype conn_op =
    Send_op string write_answer
  | Queued_send_op string write_answer
  | Readable read_answer
  | Writable write_answer
  | Shutdown_op
  | Queued_shutdown_op
  | Force_close_op
  | Queued_force_close_op

fun clamp :: "nat \<Rightarrow> write_answer \<Rightarrow> write_answer" where
  "clamp n (Write_ok k) = Write_ok (min n k)"
| "clamp n (Write_error e) = Write_error e"

fun clamp_read :: "buffer \<Rightarrow> read_answer \<Rightarrow> read_answer" where
  "clamp_read b (Read_data d) = Read_data (take (WritableBytes b + extra_size) d)"
| "clamp_read b Read_error = Read_error"

fun conn_step ::
  "('u, 'c, 'z) conn_env \<Rightarrow> nat \<Rightarrow> conn_op \<Rightarrow> ('u, 'c, 'z) net_state \<Rightarrow> ('u, 'c, 'z) net_state res" where
  "conn_step env a (Send_op m w) s = Send (loop_tid s) env (clamp (length m) w) a m s"
| "conn_step env a (Queued_send_op m w) s = SendInLoop (loop_tid s) env (clamp (length m) w) a m s"
| "conn_step env a (Readable x) s =
     (if reading a s then conn_HandleRead (loop_tid s) env (clamp_read (input_buf (the_conn a s)) x) a s else Inr s)"
| "conn_step env a (Writable w) s = conn_HandleWrite (loop_tid s) env (clamp (length (unsent a s)) w) a s"
| "conn_step env a Shutdown_op s = Shutdown (loop_tid s) a s"
| "conn_step env a Queued_shutdown_op s = ShutdownInLoop (loop_tid s) a s"
| "conn_step env a Force_close_op s = ForceClose (loop_tid s) a s"
| "conn_step env a Queued_force_close_op s = ForceCloseInLoop (loop_tid s) env a s"

text \<open>The bytes of a send that the connection takes: not after it is closed for sending,
  and not when a direct write finds the peer gone.\<close>

fun accepts :: "conn_op \<Rightarrow> 'c connection \<Rightarrow> string" where
  "accepts (Send_op m w) c =
     (if conn_state c \<noteq> kConnected \<or> contents (output_buf c) = [] \<and> reset_error w then [] else m)"
| "accepts (Queued_send_op m w) c =
     (if conn_state c = kDisconnected \<or> contents (output_buf c) = [] \<and> reset_error w then [] else m)"
| "accepts x c = []"

fun conn_run ::
  "('u, 'c, 'z) conn_env \<Rightarrow> nat \<Rightarrow> conn_op list \<Rightarrow> ('u, 'c, 'z) net_state \<Rightarrow> (string \<times> ('u, 'c, 'z) net_state) res" where
  "conn_run env a [] s = Inr ([], s)"
| "conn_run env a (x # xs) s =
     res_bind (conn_step env a x s) (\<lambda>s'.
     res_bind (conn_run env a xs s') (\<lambda>(taken, s''). Inr (accepts x (the_conn a s) @ taken, s'')))"

fun op_size :: "conn_op \<Rightarrow> nat" where
  "op_size (Send_op m w) = length m"
| "op_size (Queued_send_op m w) = length m"
| "op_size (Readable (Read_data d)) = length d"
| "op_size x = 0"

definition conn_load :: "'c connection \<Rightarrow> nat" where
  "conn_load c = length (contents (input_buf c)) + length (contents (output_buf c))"

text \<open>Closed for good: the state the call of \<open>close_cb_\<close> leaves.\<close>

definition quiet :: "'c connection \<Rightarrow> bool \<Rightarrow> bool" where
  "quiet c r \<longleftrightarrow> conn_state c = kDisconnected \<and> \<not> r \<and> contents (output_buf c) = []"

definition callbacks_set :: "'c connection \<Rightarrow> bool" where
  "callbacks_set c \<longleftrightarrow> message_cb c \<noteq> None \<and> close_cb c \<noteq> None"

definition step_result ::
  "('z \<Rightarrow> nat) \<Rightarrow> nat \<Rightarrow> ('u, 'c, 'z) net_state \<Rightarrow> 'c connection \<Rightarrow> bool \<Rightarrow> nat \<Rightarrow> string \<Rightarrow>
   ('u, 'c, 'z) net_state res \<Rightarrow> bool" where
  "step_result g a s c r k taken x \<longleftrightarrow>
     (\<exists>c' r' bytes n.
        outcome g a s c' r' (contents (output_buf c') \<noteq> []) bytes n x \<and>
        bytes @ contents (output_buf c') = wire (conn_sockfd c) (socket_log s) @ contents (output_buf c) @ taken \<and>
        conn_sockfd c' = conn_sockfd c \<and> callbacks_set c' \<and> conn_state c' \<noteq> kConnecting \<and>
        conn_load c' \<le> conn_load c + k \<and>
        n \<le> 1 \<and> (n = 1 \<longrightarrow> \<not> quiet c r \<and> quiet c' r') \<and> (quiet c r \<longrightarrow> quiet c' r'))"

lemma step_resultI:
  assumes "outcome g a s c' r' w bytes n x" "w \<longleftrightarrow> contents (output_buf c') \<noteq> []"
    and "bytes @ contents (output_buf c') = wire (conn_sockfd c) (socket_log s) @ contents (output_buf c) @ taken"
    and "conn_sockfd c' = conn_sockfd c" "callbacks_set c'" "conn_state c' \<noteq> kConnecting"
    and "conn_load c' \<le> conn_load c + k" "n \<le> 1" "n = 1 \<Longrightarrow> \<not> quiet c r \<and> quiet c' r'"
    and "quiet c r \<Longrightarrow> quiet c' r'"
  shows "step_result g a s c r k taken x"
  unfolding step_result_def using assms(1) unfolding assms(2) using assms(3-) by (intro exI conjI) blast+

lemma write_answer_ok_clamp: "write_answer_ok n (clamp n w)"
  by (cases w) auto

lemma reset_error_clamp [simp]: "reset_error (clamp n w) = reset_error w"
  by (cases w) (auto simp: reset_error_def)

lemma readv_answer_clamp: "readv_answer (clamp_read b x) b"
  by (cases x) auto

lemma SendInLoop_result:
  assumes view: "conn_view a s c ch" and env: "calm g env a" and en: "enabled r (contents (output_buf c) \<noteq> []) ch"
    and cb: "callbacks_set c" "conn_state c \<noteq> kConnecting" and room: "buf_room (conn_load c + length m)"
  shows "step_result g a s c r (length m)
    (if conn_state c = kDisconnected \<or> contents (output_buf c) = [] \<and> reset_error w then [] else m)
    (SendInLoop (loop_tid s) env (clamp (length m) w) a m s)"
proof -
  have room': "buf_room (length (contents (output_buf c)) + length m)"
    using room by (auto simp: buf_room_def conn_load_def)
  obtain b bytes where b: "outcome g a s (c\<lparr>output_buf := b\<rparr>) r (contents b \<noteq> []) bytes 0
        (SendInLoop (loop_tid s) env (clamp (length m) w) a m s)"
      "bytes @ contents b = wire (conn_sockfd c) (socket_log s) @ contents (output_buf c) @
        (if conn_state c = kDisconnected \<or> contents (output_buf c) = [] \<and> reset_error w then [] else m)"
      "length (contents b) \<le> length (contents (output_buf c)) + length m"
      "conn_state c = kDisconnected \<longrightarrow> contents b = contents (output_buf c)"
    using SendInLoop_view [OF view env en room' write_answer_ok_clamp [where w = w]] unfolding reset_error_clamp
    by blast
  show ?thesis
  proof (rule step_resultI [OF b(1)])
    show "bytes @ contents (output_buf (c\<lparr>output_buf := b\<rparr>)) = wire (conn_sockfd c) (socket_log s) @
        contents (output_buf c) @
        (if conn_state c = kDisconnected \<or> contents (output_buf c) = [] \<and> reset_error w then [] else m)"
      using b(2) by simp
  qed (use b(3,4) cb in \<open>auto simp: callbacks_set_def conn_load_def quiet_def\<close>)
qed

lemma conn_step_ok:
  assumes view: "conn_view a s c ch" and env: "calm g env a" and en: "enabled r (contents (output_buf c) \<noteq> []) ch"
    and cb: "callbacks_set c" "conn_state c \<noteq> kConnecting" and room: "buf_room (conn_load c + op_size x)"
  shows "step_result g a s c r (op_size x) (accepts x c) (conn_step env a x s)"
proof -
  note v = conn_viewD [OF view]
  let ?wire = "wire (conn_sockfd c) (socket_log s)"
  let ?out = "contents (output_buf c)"
  have same: ?thesis if "conn_step env a x s = Inr s" "accepts x c = []"
    using outcome_Inr [where g = g and n = 0, OF view en refl refl] that cb
    by (intro step_resultI [where w = "?out \<noteq> []"]) (auto simp: conn_load_def)
  show ?thesis
proof (cases x)
  case (Send_op m w)
  show ?thesis
  proof (cases "conn_state c = kConnected")
    case True
    with SendInLoop_result [OF view env en cb, of m w] room Send_op show ?thesis
      by (simp add: Send_def with_conn_view [OF view])
  next
    case False
    with Send_op same show ?thesis by (simp add: Send_def with_conn_view [OF view])
  qed
next
  case (Queued_send_op m w)
  with SendInLoop_result [OF view env en cb, of m w] room show ?thesis by simp
next
  case (Readable x0)
  define y where "y = clamp_read (input_buf c) x0"
  have step: "conn_step env a x s = (if r then conn_HandleRead (loop_tid s) env y a s else Inr s)"
    using Readable en view_parts(3) [OF view] conn_view_the [OF view] by (simp add: enabled_def y_def)
  show ?thesis
  proof (cases r)
    case True
    have size: "length (case y of Read_data d \<Rightarrow> d | Read_error \<Rightarrow> []) \<le> op_size x"
      using Readable by (cases x0) (simp_all add: y_def)
    then have "case y of Read_data d \<Rightarrow> buf_room (length (contents (input_buf c)) + length d) | Read_error \<Rightarrow> True"
      using room by (cases y) (auto simp: buf_room_def conn_load_def)
    from conn_HandleRead_view [OF view env en _ _ cb(2) _ this] readv_answer_clamp cb obtain b where b:
      "contents b = contents (input_buf c) @ (case y of Read_data d \<Rightarrow> d | Read_error \<Rightarrow> [])"
      "outcome g a s (c\<lparr>input_buf := b, conn_state := (if y = Read_data [] then kDisconnected else conn_state c)\<rparr>)
        (r \<and> y \<noteq> Read_data []) (?out \<noteq> []) ?wire (if y = Read_data [] \<and> \<not> ?out \<noteq> [] then 1 else 0)
        (conn_HandleRead (loop_tid s) env y a s)"
      unfolding callbacks_set_def y_def by blast
    show ?thesis unfolding step if_P [OF True]
      using b(1) size True cb Readable
      by (intro step_resultI [OF b(2)]) (auto simp: callbacks_set_def conn_load_def quiet_def split: if_splits)
  qed (use same step Readable in simp)
next
  case (Writable w)
  define y where "y = clamp (length ?out) w"
  have step: "conn_step env a x s = conn_HandleWrite (loop_tid s) env y a s"
    using Writable by (simp add: y_def view_parts(1) [OF view])
  obtain b bytes r' n where b: "outcome g a s (c\<lparr>output_buf := b\<rparr>) r' (contents b \<noteq> []) bytes n
      (conn_HandleWrite (loop_tid s) env y a s)" "bytes @ contents b = ?wire @ ?out"
      "contents b = (case y of Write_ok k \<Rightarrow> drop k ?out | Write_error e \<Rightarrow> ?out)"
      "if conn_state c = kDisconnected \<and> ?out \<noteq> [] \<and> contents b = [] then n = 1 \<and> \<not> r' else n = 0 \<and> r' = r"
    using conn_HandleWrite_view [OF view env en _ cb(2)] write_answer_ok_clamp cb(1)
    unfolding callbacks_set_def y_def by blast
  have "length (contents b) \<le> length ?out" "?out = [] \<longrightarrow> contents b = []" using b(3) by (cases y; simp)+
  note bounds = this
  show ?thesis unfolding step
  proof (rule step_resultI [OF b(1)])
    show "bytes @ contents (output_buf (c\<lparr>output_buf := b\<rparr>)) = ?wire @ ?out @ accepts x c"
      using b(2) Writable by simp
  qed (use b(4) bounds cb in \<open>auto simp: callbacks_set_def conn_load_def quiet_def split: if_splits\<close>)
next
  case Shutdown_op
  then show ?thesis
    using cb by (simp, intro step_resultI [OF Shutdown_view [OF view en]])
      (auto simp: callbacks_set_def conn_load_def quiet_def)
next
  case Queued_shutdown_op
  then show ?thesis
    using cb by (simp, intro step_resultI [OF ShutdownInLoop_view [OF view en]])
      (auto simp: callbacks_set_def conn_load_def quiet_def)
next
  case Force_close_op
  then show ?thesis
    using cb by (simp, intro step_resultI [OF ForceClose_view [OF view en]])
      (auto simp: callbacks_set_def conn_load_def quiet_def)
next
  case Queued_force_close_op
  show ?thesis
  proof (cases "conn_state c \<in> {kConnected, kDisconnecting}")
    case True
    then have step: "conn_step env a x s = HandleClose (loop_tid s) env a s"
      using Queued_force_close_op by (simp add: ForceCloseInLoop_def with_conn_view [OF view])
    have "close_cb c \<noteq> None" using cb(1) by (simp add: callbacks_set_def)
    show ?thesis unfolding step
      using True cb Queued_force_close_op
      by (intro step_resultI [OF HandleClose_view [OF view env en cb(2) \<open>close_cb c \<noteq> None\<close>]]) (auto simp: callbacks_set_def conn_load_def quiet_def split: if_splits)
  qed (use same Queued_force_close_op in \<open>simp add: ForceCloseInLoop_def with_conn_view [OF view]\<close>)
qed
qed

text \<open>An established connection between two events.\<close>

definition conn_ready :: "nat \<Rightarrow> ('u, 'c, 'z) net_state \<Rightarrow> bool" where
  "conn_ready a s \<longleftrightarrow>
     (\<exists>c ch. conn_view a s c ch \<and> (WriteEnabled ch \<longleftrightarrow> contents (output_buf c) \<noteq> []) \<and>
        callbacks_set c \<and> conn_state c \<noteq> kConnecting)"

definition conn_quiet :: "nat \<Rightarrow> ('u, 'c, 'z) net_state \<Rightarrow> bool" where
  "conn_quiet a s \<longleftrightarrow> conn_state (the_conn a s) = kDisconnected \<and> \<not> reading a s \<and> unsent a s = []"

lemma conn_quiet_view: "conn_view a s c ch \<Longrightarrow> conn_quiet a s \<longleftrightarrow> quiet c (ReadEnabled ch)"
  by (simp add: conn_quiet_def quiet_def view_parts conn_view_the)

lemma conn_step_ready:
  assumes "conn_ready a s" "calm g env a" "buf_room (conn_load (the_conn a s) + op_size x)"
  shows "\<exists>s'. conn_step env a x s = Inr s' \<and> conn_ready a s' \<and>
    sent a s' @ unsent a s' = sent a s @ unsent a s @ accepts x (the_conn a s) \<and>
    conn_load (the_conn a s') \<le> conn_load (the_conn a s) + op_size x \<and>
    (g (net.more s') = g (net.more s) \<or> g (net.more s') = g (net.more s) + 1 \<and> \<not> conn_quiet a s \<and> conn_quiet a s') \<and>
    (conn_quiet a s \<longrightarrow> conn_quiet a s')"
proof -
  obtain c ch where view: "conn_view a s c ch" and w: "WriteEnabled ch \<longleftrightarrow> contents (output_buf c) \<noteq> []"
      and cb: "callbacks_set c" "conn_state c \<noteq> kConnecting"
    using assms(1) by (auto simp: conn_ready_def)
  have en: "enabled (ReadEnabled ch) (contents (output_buf c) \<noteq> []) ch" using w by (simp add: enabled_def)
  have "buf_room (conn_load c + op_size x)" using assms(3) conn_view_the [OF view] by simp
  from conn_step_ok [OF view assms(2) en cb this]
  obtain c' r' bytes n where out: "outcome g a s c' r' (contents (output_buf c') \<noteq> []) bytes n (conn_step env a x s)"
      and c': "bytes @ contents (output_buf c') = wire (conn_sockfd c) (socket_log s) @ contents (output_buf c) @ accepts x c"
        "conn_sockfd c' = conn_sockfd c" "callbacks_set c'" "conn_state c' \<noteq> kConnecting"
        "conn_load c' \<le> conn_load c + op_size x"
      and n: "n \<le> 1" "n = 1 \<longrightarrow> \<not> quiet c (ReadEnabled ch) \<and> quiet c' r'" "quiet c (ReadEnabled ch) \<longrightarrow> quiet c' r'"
    unfolding step_result_def by blast
  obtain s' ch' where s': "conn_step env a x s = Inr s'" "conn_view a s' c' ch'"
      "enabled r' (contents (output_buf c') \<noteq> []) ch'" "wire (conn_sockfd c') (socket_log s') = bytes"
      "g (net.more s') = g (net.more s) + n"
    using out unfolding outcome_def by blast
  have r': "ReadEnabled ch' = r'" "WriteEnabled ch' \<longleftrightarrow> contents (output_buf c') \<noteq> []"
    using s'(3) by (simp_all add: enabled_def)
  have "conn_ready a s'" using s'(2) r'(2) c'(3,4) unfolding conn_ready_def by blast
  moreover have "sent a s' @ unsent a s' = sent a s @ unsent a s @ accepts x (the_conn a s)"
    using c'(1) s'(4) by (simp add: view_parts [OF view] view_parts [OF s'(2)] conn_view_the [OF view])
  moreover have "n = 0 \<or> n = 1" using n(1) by linarith
  ultimately show ?thesis
    using s' c'(5) n(2,3) r'(1)
    by (auto simp: conn_view_the [OF view] conn_view_the [OF s'(2)] conn_quiet_view [OF view] conn_quiet_view [OF s'(2)])
qed

lemma conn_run_ready:
  assumes "calm g env a"
  shows "conn_ready a s \<Longrightarrow> buf_room (conn_load (the_conn a s) + sum_list (map op_size xs)) \<Longrightarrow>
    \<exists>taken s'. conn_run env a xs s = Inr (taken, s') \<and> conn_ready a s' \<and>
      sent a s' @ unsent a s' = sent a s @ unsent a s @ taken \<and>
      (g (net.more s') = g (net.more s) \<or> g (net.more s') = g (net.more s) + 1 \<and> \<not> conn_quiet a s \<and> conn_quiet a s') \<and>
      (conn_quiet a s \<longrightarrow> conn_quiet a s')"
proof (induction xs arbitrary: s)
  case (Cons x xs)
  have "buf_room (conn_load (the_conn a s) + op_size x)"
    using Cons.prems(2) by (auto simp: buf_room_def)
  from conn_step_ready [OF Cons.prems(1) assms this]
  obtain s1 where s1: "conn_step env a x s = Inr s1" "conn_ready a s1"
      "sent a s1 @ unsent a s1 = sent a s @ unsent a s @ accepts x (the_conn a s)"
      "conn_load (the_conn a s1) \<le> conn_load (the_conn a s) + op_size x"
      "g (net.more s1) = g (net.more s) \<or> g (net.more s1) = g (net.more s) + 1 \<and> \<not> conn_quiet a s \<and> conn_quiet a s1"
      "conn_quiet a s \<longrightarrow> conn_quiet a s1"
    by blast
  have "buf_room (conn_load (the_conn a s1) + sum_list (map op_size xs))"
    using Cons.prems(2) s1(4) by (auto simp: buf_room_def)
  from Cons.IH [OF s1(2) this]
  obtain taken s2 where s2: "conn_run env a xs s1 = Inr (taken, s2)" "conn_ready a s2"
      "sent a s2 @ unsent a s2 = sent a s1 @ unsent a s1 @ taken"
      "g (net.more s2) = g (net.more s1) \<or> g (net.more s2) = g (net.more s1) + 1 \<and> \<not> conn_quiet a s1 \<and> conn_quiet a s2"
      "conn_quiet a s1 \<longrightarrow> conn_quiet a s2"
    by blast
  have "sent a s2 @ unsent a s2 = sent a s @ unsent a s @ accepts x (the_conn a s) @ taken"
    using s1(3) s2(3) by (metis append.assoc)
  moreover have "conn_run env a (x # xs) s = Inr (accepts x (the_conn a s) @ taken, s2)"
    using s1(1) s2(1) by simp
  ultimately show ?case using s1(5,6) s2(2,4,5) by metis
qed simp

subsection \<open>The beginning and the end of a connection\<close>

lemma upd_chan_view:
  assumes "conn_view a s c ch" "ch_fd (h ch) = ch_fd ch" "ch_events (h ch) = ch_events ch"
  shows "\<exists>s'. upd_chan h (conn_channel c) s = Inr s' \<and> conn_view a s' c (h ch) \<and> same_rest s s'"
proof -
  note v = conn_viewD [OF assms(1)]
  let ?s = "s\<lparr>chan_store := (chan_store s)(conn_channel c \<mapsto> h ch)\<rparr>"
  have "chan_inv ?s"
  proof (rule chan_invI)
    show "finite (channels ?s)" using chan_invD(1) [OF v(2)] by simp
    show "\<exists>d. chan_store ?s b = Some d \<and> epoll_interest ?s (ch_fd d) = Some (ch_events d, b)"
      if "b \<in> channels ?s" for b
      using that v(3) assms(2,3) chan_invD(2,3) [OF v(2)] by (cases "b = conn_channel c") force+
    show "b \<in> channels ?s \<and> (\<exists>d. chan_store ?s b = Some d \<and> ch_fd d = fd)"
      if "epoll_interest ?s fd = Some (e, b)" for fd e b
      using that v(3) assms(2) chan_invD(3,4,5) [OF v(2)] by (cases "b = conn_channel c") force+
  qed
  then have "conn_view a ?s c (h ch)"
    using v assms(2,3) by (auto simp: conn_view_def can_register_def rw_events_def)
  then show ?thesis using v(3) by (simp add: upd_chan_def with_chan_def set_chan_def same_rest_def)
qed

lemma new_connection_view:
  fixes s :: "('u, 'c, 'z) net_state"
  assumes "chan_inv s" "chan_store s (chan_next s) = None" "0 \<le> fd" "epoll_interest s fd = None"
  shows "\<exists>s' c ch. new_connection a name fd lo pe s = Inr s' \<and> conn_view a s' c ch \<and> enabled False False ch \<and>
    conn_state c = kConnecting \<and> conn_name c = name \<and> conn_sockfd c = fd \<and> conn_local c = lo \<and> conn_peer c = pe \<and> conn_load c = 0 \<and>
    loop_tid s' = loop_tid s \<and> socket_log s' = socket_log s \<and> pending_functors s' = pending_functors s \<and>
    net.more s' = net.more s"
proof -
  have "buf_room kInitSize" by (simp add: buf_room_def kInitSize_def kPrependSize_def max_size_def)
  from new_buffer_ok [OF this] obtain b where b: "new_buffer kInitSize = Inr b" "buf_inv b" "contents b = []" by blast
  obtain k s1 where k: "new_channel fd s = (k, s1)" by fastforce
  note s1 = new_channel_ok [OF assms(1,2) k]
  define c :: "'c connection" where "c = \<lparr>conn_name = name, conn_state = kConnecting, conn_sockfd = fd, conn_channel = k,
    conn_local = lo, conn_peer = pe,
    connection_cb = None, message_cb = None, low_watermark_cb = None, high_watermark_cb = None, close_cb = None,
    high_watermark = 64 * 1024 * 1024, input_buf = b, output_buf = b\<rparr>"
  define s2 where "s2 = s1\<lparr>conns := (conns s1)(a \<mapsto> c), alive_ties := insert a (alive_ties s1)\<rparr>"
  obtain ch where ch: "chan_store s1 k = Some ch" "ch_fd ch = fd" "ch_events ch = 0" using s1(5) by force
  have "k \<notin> channels s1" using s1(2,3) chan_invD(3) [OF assms(1), of k] assms(2) by auto
  then have view: "conn_view a s2 c ch"
    using s1 ch assms(3,4) b by (auto simp: conn_view_def can_register_def s2_def c_def rw_events_def
        chan_inv_def)
  have en: "enabled False False ch" using ch(3) by (simp add: enabled_def ReadEnabled_def WriteEnabled_def)
  obtain s3 where s3: "SetReadHandler (Conn_HandleRead a) k s2 = Inr s3"
      "conn_view a s3 c (ch\<lparr>ch_read_cb := Some (Conn_HandleRead a)\<rparr>)" "same_rest s2 s3"
    using upd_chan_view [OF view, of "\<lambda>c. c\<lparr>ch_read_cb := Some (Conn_HandleRead a)\<rparr>"]
    by (auto simp: SetReadHandler_def c_def)
  obtain s4 where s4: "SetWriteHandler (Conn_HandleWrite a) k s3 = Inr s4"
      "conn_view a s4 c (ch\<lparr>ch_read_cb := Some (Conn_HandleRead a), ch_write_cb := Some (Conn_HandleWrite a)\<rparr>)"
      "same_rest s3 s4"
    using upd_chan_view [OF s3(2), of "\<lambda>c. c\<lparr>ch_write_cb := Some (Conn_HandleWrite a)\<rparr>"]
    by (auto simp: SetWriteHandler_def c_def)
  obtain s5 ch5 where s5: "SetErrorHandler (Conn_HandleError a) k s4 = Inr s5" "conn_view a s5 c ch5"
      "same_rest s4 s5" "ch_events ch5 = ch_events ch"
    using upd_chan_view [OF s4(2), of "\<lambda>c. c\<lparr>ch_error_cb := Some (Conn_HandleError a)\<rparr>"]
    by (auto simp: SetErrorHandler_def c_def)
  have "new_connection a name fd lo pe s = Inr s5"
    using k b(1) s3(1) s4(1) s5(1) by (simp add: new_connection_def Let_def s2_def c_def)
  moreover have "enabled False False ch5" using en s5(4) by (simp add: enabled_def ReadEnabled_def WriteEnabled_def)
  moreover have "loop_tid s5 = loop_tid s \<and> socket_log s5 = socket_log s \<and> pending_functors s5 = pending_functors s \<and>
      net.more s5 = net.more s"
    using s3(3) s4(3) s5(3) k by (auto simp: same_rest_def s2_def new_channel_def)
  ultimately show ?thesis using s5(2) b by (intro exI [of _ s5] exI [of _ c] exI [of _ ch5])
    (simp add: c_def conn_load_def)
qed

text \<open>Callbacks that do not close channels of the loop.\<close>

definition keeps_channels :: "('u, 'c, 'z) conn_env \<Rightarrow> nat \<Rightarrow> bool" where
  "keeps_channels env a \<longleftrightarrow> (\<forall>ev f t t'. env ev f a t = Inr t' \<longrightarrow> channels t \<subseteq> channels t')"

lemma keeps_channelsD: "keeps_channels env a \<Longrightarrow> env ev f a t = Inr t' \<Longrightarrow> k \<in> channels t \<Longrightarrow> k \<in> channels t'"
  unfolding keeps_channels_def by blast

lemma EstablishConnection_view:
  fixes s :: "('u, 'c, 'z) net_state"
  assumes view: "conn_view a s c ch" and env: "calm g env a" and en: "enabled r w ch"
    and state: "conn_state c = kConnecting"
    and others: "keeps_channels env a"
  shows "\<exists>s' ch'. EstablishConnection (loop_tid s) env a s = Inr s' \<and>
    conn_view a s' (c\<lparr>conn_state := kConnected\<rparr>) ch' \<and> enabled True w ch' \<and> loop_tid s' = loop_tid s \<and>
    wire (conn_sockfd c) (socket_log s') = wire (conn_sockfd c) (socket_log s) \<and> g (net.more s') = g (net.more s) \<and>
    conn_channel c \<in> channels s'"
proof -
  let ?c = "c\<lparr>conn_state := kConnected\<rparr>"
  obtain s1 where s1: "upd_conn (\<lambda>c. c\<lparr>conn_state := kConnected\<rparr>) a s = Inr s1" "conn_view a s1 ?c ch"
      "loop_tid s1 = loop_tid s" "socket_log s1 = socket_log s" "net.more s1 = net.more s"
    using set_state_view [OF view] by blast
  obtain s2 where s2: "Tie a (conn_channel c) s1 = Inr s2" "conn_view a s2 ?c (ch\<lparr>ch_tie := Some a\<rparr>)"
      "same_rest s1 s2"
    using upd_chan_view [OF s1(2), of "\<lambda>c. c\<lparr>ch_tie := Some a\<rparr>"] by (auto simp: Tie_def)
  have "enabled r w (ch\<lparr>ch_tie := Some a\<rparr>)" using en by (simp add: enabled_def ReadEnabled_def WriteEnabled_def)
  from channel_ops_view(1) [OF s2(2) this] obtain s3 ch3 where
    s3: "EnableRead (loop_tid s2) (conn_channel ?c) s2 = Inr s3" "conn_view a s3 ?c ch3" "same_rest s2 s3" "enabled True w ch3"
    by blast
  have reg: "conn_channel c \<in> channels s3"
    using s3(1) set_events_eq [OF conn_viewD(2,4) [OF s2(2)], of "\<lambda>e. e OR EPOLLIN"] by (auto simp: EnableRead_def)
  have run: "EstablishConnection (loop_tid s) env a s =
      (if connection_cb c = None then Inr s3 else call_cb env On_connection (connection_cb c) a s3)"
    using s1 s2 s3 state
    by (simp add: EstablishConnection_def with_conn_view [OF view] with_conn_view [OF s3(2)] same_rest_def)
  show ?thesis
  proof (cases "connection_cb c = None")
    case True
    with run s1 s2 s3 reg show ?thesis by (auto simp: same_rest_def)
  next
    case False
    with calm_call [OF env s3(2), of "connection_cb c" On_connection] obtain s4 where
      s4: "call_cb env On_connection (connection_cb c) a s3 = Inr s4" "conn_view a s4 ?c ch3" "loop_tid s4 = loop_tid s3"
        "wire (conn_sockfd c) (socket_log s4) = wire (conn_sockfd c) (socket_log s3)" "g (net.more s4) = g (net.more s3)"
      by auto
    have "conn_channel c \<in> channels s4" using s4(1) others reg
      by (auto simp: call_cb_def split: option.splits dest: keeps_channelsD)
    with False run s1 s2 s3 s4 show ?thesis by (auto simp: same_rest_def)
  qed
qed

lemma establish_registers:
  assumes "conn_view a s c ch" "enabled False False ch" "conn_state c = kConnecting" "calm g env a" "keeps_channels env a"
  shows "\<exists>s'. EstablishConnection (loop_tid s) env a s = Inr s' \<and> chan_inv s' \<and>
    conns s' a = Some (c\<lparr>conn_state := kConnected\<rparr>) \<and>
    epoll_interest s' (conn_sockfd c) = Some (EPOLLIN, conn_channel c)"
proof -
  obtain s' ch' where s': "EstablishConnection (loop_tid s) env a s = Inr s'"
      "conn_view a s' (c\<lparr>conn_state := kConnected\<rparr>) ch'" "enabled True False ch'" "conn_channel c \<in> channels s'"
    using EstablishConnection_view [OF assms(1,4,2,3,5)] by blast
  note v = conn_viewD [OF s'(2)]
  have "ch_events ch' = EPOLLIN"
    using v(5) s'(3) by (auto simp: enabled_def event_bits intro!: bit_eqI)
  then have "epoll_interest s' (conn_sockfd c) = Some (EPOLLIN, conn_channel c)"
    using chan_invD(2) [OF v(2) s'(4)] v(3,6) by force
  with s'(1) v(1,2) show ?thesis by simp
qed

text \<open>A descriptor that the loop does not know, and what a new connection starts with.\<close>

definition fresh_fd :: "int \<Rightarrow> ('u, 'c, 'z) net_state \<Rightarrow> bool" where
  "fresh_fd fd s \<longleftrightarrow> chan_inv s \<and> chan_store s (chan_next s) = None \<and> 0 \<le> fd \<and> epoll_interest s fd = None"

definition begins ::
  "'c connection \<Rightarrow> string \<Rightarrow> int \<Rightarrow> sockaddr_in \<Rightarrow> sockaddr_in \<Rightarrow> 'c option \<Rightarrow> 'c option \<Rightarrow> 'c \<Rightarrow> bool" where
  "begins c nm fd lo pe cb m r \<longleftrightarrow>
     conn_name c = nm \<and> conn_sockfd c = fd \<and> conn_local c = lo \<and> conn_peer c = pe \<and>
     connection_cb c = cb \<and> message_cb c = m \<and> close_cb c = Some r \<and> conn_load c = 0"

lemma begins_state [simp]: "begins (c\<lparr>conn_state := x\<rparr>) nm fd lo pe cb m r = begins c nm fd lo pe cb m r"
  by (simp add: begins_def conn_load_def)

lemma equip_connection:
  assumes "fresh_fd fd s"
  shows "\<exists>s1 s2 s3 s4 c ch. new_connection a nm fd lo pe s = Inr s1 \<and> SetConnectionCallBack cb a s1 = Inr s2 \<and>
    SetMessageCallBack m a s2 = Inr s3 \<and> SetCloseCallBack (Some r) a s3 = Inr s4 \<and>
    conn_view a s4 c ch \<and> enabled False False ch \<and> conn_state c = kConnecting \<and> begins c nm fd lo pe cb m r \<and>
    loop_tid s4 = loop_tid s \<and> pending_functors s4 = pending_functors s \<and> socket_log s4 = socket_log s"
proof -
  obtain s1 c ch where s1: "new_connection a nm fd lo pe s = Inr s1" "conn_view a s1 c ch" "enabled False False ch"
      "conn_state c = kConnecting" "conn_name c = nm" "conn_sockfd c = fd" "conn_local c = lo" "conn_peer c = pe"
      "conn_load c = 0" "loop_tid s1 = loop_tid s" "pending_functors s1 = pending_functors s"
      "socket_log s1 = socket_log s"
    using new_connection_view [of s fd a nm lo pe] assms by (auto simp: fresh_fd_def)
  note buf = conn_viewD(7,8) [OF s1(2)]
  obtain s2 where s2: "SetConnectionCallBack cb a s1 = Inr s2" "conn_view a s2 (c\<lparr>connection_cb := cb\<rparr>) ch"
      "loop_tid s2 = loop_tid s1" "pending_functors s2 = pending_functors s1"
      "socket_log s2 = socket_log s1"
    using upd_conn_view [OF s1(2), of "\<lambda>c. c\<lparr>connection_cb := cb\<rparr>"] buf by (auto simp: SetConnectionCallBack_def)
  obtain s3 where s3: "SetMessageCallBack m a s2 = Inr s3" "conn_view a s3 (c\<lparr>connection_cb := cb, message_cb := m\<rparr>) ch"
      "loop_tid s3 = loop_tid s2" "pending_functors s3 = pending_functors s2"
      "socket_log s3 = socket_log s2"
    using upd_conn_view [OF s2(2), of "\<lambda>c. c\<lparr>message_cb := m\<rparr>"] buf by (auto simp: SetMessageCallBack_def)
  obtain s4 where s4: "SetCloseCallBack (Some r) a s3 = Inr s4"
      "conn_view a s4 (c\<lparr>connection_cb := cb, message_cb := m, close_cb := Some r\<rparr>) ch"
      "loop_tid s4 = loop_tid s3" "pending_functors s4 = pending_functors s3"
      "socket_log s4 = socket_log s3"
    using upd_conn_view [OF s3(2), of "\<lambda>c. c\<lparr>close_cb := Some r\<rparr>"] buf by (auto simp: SetCloseCallBack_def)
  have "begins (c\<lparr>connection_cb := cb, message_cb := m, close_cb := Some r\<rparr>) nm fd lo pe cb m r"
    using s1 by (simp add: begins_def conn_load_def)
  then show ?thesis using s1 s2 s3 s4 by (intro exI conjI) (assumption | simp)+
qed

lemma DestroyConnection_view:
  assumes view: "conn_view a s c ch" and env: "calm g env a" and en: "enabled r w ch"
    and owned: "ch_owned ch" and others: "keeps_channels env a"
  shows "\<exists>s'. DestroyConnection (loop_tid s) env a s = Inr s' \<and> chan_inv s' \<and> conn_channel c \<notin> channels s' \<and>
    epoll_interest s' (conn_sockfd c) = None \<and> conns s' a = Some (c\<lparr>conn_state := kDisconnected\<rparr>) \<and>
    (\<exists>ch'. conn_view a s' (c\<lparr>conn_state := kDisconnected\<rparr>) ch' \<and> enabled False False ch') \<and> loop_tid s' = loop_tid s \<and>
    wire (conn_sockfd c) (socket_log s') = wire (conn_sockfd c) (socket_log s) \<and> g (net.more s') = g (net.more s)"
proof -
  let ?c = "c\<lparr>conn_state := kDisconnected\<rparr>"
  obtain s1 where s1: "upd_conn (\<lambda>c. c\<lparr>conn_state := kDisconnected\<rparr>) a s = Inr s1" "conn_view a s1 ?c ch"
      "loop_tid s1 = loop_tid s" "socket_log s1 = socket_log s" "net.more s1 = net.more s"
    using set_state_view [OF view] by blast
  note v1 = conn_viewD [OF s1(2)]
  let ?ch = "ch\<lparr>ch_events := ch_events ch AND NOT (EPOLLIN OR EPOLLOUT)\<rparr>"
  have zero: "ch_events ?ch = 0" using v1(5) by (simp add: rw_events_def)
  then have "rw_events ?ch" by (simp add: rw_events_def)
  from set_events_view [OF s1(2), of "\<lambda>e. e AND NOT (EPOLLIN OR EPOLLOUT)", OF this]
  obtain s2 where s2: "DisableReadWrite (loop_tid s1) (conn_channel c) s1 = Inr s2" "conn_view a s2 ?c ?ch"
      "same_rest s1 s2" by (auto simp: DisableReadWrite_def)
  have reg: "conn_channel c \<in> channels s2"
    using s2(1) set_events_eq [OF v1(2,4), of "\<lambda>e. e AND NOT (EPOLLIN OR EPOLLOUT)"]
    by (auto simp: DisableReadWrite_def)
  obtain s3 where s3: "(if connection_cb c = None then Inr s2 else call_cb env On_connection (connection_cb c) a s2) = Inr s3"
      "conn_view a s3 ?c ?ch" "loop_tid s3 = loop_tid s" "conn_channel c \<in> channels s3"
      "wire (conn_sockfd c) (socket_log s3) = wire (conn_sockfd c) (socket_log s)" "g (net.more s3) = g (net.more s)"
  proof (cases "connection_cb c")
    case None
    with s1 s2 reg that show thesis by (auto simp: same_rest_def)
  next
    case (Some f)
    with calm_call [OF env s2(2), of "connection_cb c" On_connection] obtain t where
      "env On_connection f a s2 = Inr t" "conn_view a t ?c ?ch" "loop_tid t = loop_tid s2"
      "wire (conn_sockfd c) (socket_log t) = wire (conn_sockfd c) (socket_log s2)" "g (net.more t) = g (net.more s2)"
      by (auto simp: call_cb_def)
    with Some s1 s2 reg others that show thesis by (auto simp: same_rest_def call_cb_def dest: keeps_channelsD)
  qed
  note v3 = conn_viewD [OF s3(2)]
  obtain s4 where s4: "Channel_Close (loop_tid s3) (conn_channel c) s3 = Inr s4" "chan_inv s4"
      "channels s4 = channels s3 - {conn_channel c}" "epoll_interest s4 = (epoll_interest s3)(ch_fd ?ch := None)"
      "chan_store s4 (conn_channel c) = Some (?ch\<lparr>ch_read_cb := None, ch_write_cb := None, ch_error_cb := None\<rparr>)"
      "loop_tid s4 = loop_tid s3"
    using Channel_Close_ok [OF v3(2), of "conn_channel c" ?ch] v3(3) s3(4) zero owned by auto
  have same: "conns s4 = conns s3" "socket_log s4 = socket_log s3" "net.more s4 = net.more s3"
    using s4(1) v3(3) zero owned
    by (auto simp: Channel_Close_def RemoveChannel_def release_channel_def loop_op_defs split: if_splits)
  have "DestroyConnection (loop_tid s) env a s =
      res_bind (if connection_cb c = None then Inr s2 else call_cb env On_connection (connection_cb c) a s2)
        (\<lambda>t. with_conn a t (\<lambda>c. Channel_Close (loop_tid s) (conn_channel c) t))"
    using s1(1,3) s2(1) by (simp add: DestroyConnection_def with_conn_view [OF s1(2)])
  also have "\<dots> = Inr s4"
    unfolding s3(1) using s3(3) s4(1) by (simp add: with_conn_view [OF s3(2)])
  finally have "DestroyConnection (loop_tid s) env a s = Inr s4" .
  moreover have "conn_view a s4 ?c (?ch\<lparr>ch_read_cb := None, ch_write_cb := None, ch_error_cb := None\<rparr>)"
    using s4(2-5) same(1) v3 \<open>rw_events ?ch\<close>
    by (auto simp: conn_view_def can_register_def rw_events_def)
  moreover have "enabled False False (?ch\<lparr>ch_read_cb := None, ch_write_cb := None, ch_error_cb := None\<rparr>)"
    using zero by (simp add: enabled_def ReadEnabled_def WriteEnabled_def)
  ultimately show ?thesis using s4 same s3(3,5,6) v3(1,6) by auto
qed

subsection \<open>Properties\<close>

text \<open>A loop with a connected socket on descriptor 9 and callbacks that only count the closes.\<close>

definition demo_conn :: "nat connection" where
  "demo_conn =
     \<lparr>conn_name = ''srv#1'', conn_state = kConnected, conn_sockfd = 9, conn_channel = 1,
      conn_local = InetAddr_port 80 False, conn_peer = InetAddr_port 81 False,
      connection_cb = Some 0, message_cb = Some 1, low_watermark_cb = Some 2, high_watermark_cb = None,
      close_cb = Some 3, high_watermark = 64 * 1024 * 1024,
      input_buf = small_buffer, output_buf = small_buffer\<rparr>"

definition demo_conn_channel :: "'u closure channel" where
  "demo_conn_channel =
     \<lparr>ch_fd = 9, ch_events = EPOLLIN, ch_revents = 0, ch_event_handling = False,
      ch_read_cb = Some (Conn_HandleRead 0), ch_write_cb = Some (Conn_HandleWrite 0),
      ch_error_cb = Some (Conn_HandleError 0), ch_tie = Some 0, ch_owned = True\<rparr>"

definition demo_net_of :: "('u, nat, nat) net_scheme" where
  "demo_net_of =
     \<lparr>mgr_heap = [], mgr_timers = Map.empty, mgr_next = 0, mgr_timer_num = 0,
      looping = True, quit = False, pending_functors_calling = False, loop_tid = 7,
      epoll_interest = [9 \<mapsto> (EPOLLIN, 1)], chan_store = [1 \<mapsto> demo_conn_channel], chan_next = 2,
      channels = {1}, active_channels = [], wakeup_fd = 3, wakeup_channel = 0, wakeup_count = 0,
      pending_functors = [], alive_ties = {0}, conns = [0 \<mapsto> demo_conn], socket_log = [], \<dots> = 0\<rparr>"

abbreviation demo_net :: "(nat, nat, nat) net_scheme" where
  "demo_net \<equiv> demo_net_of"

definition count_env :: "('u, 'c, nat) conn_env" where
  "count_env ev f a s = Inr (net.more_update (\<lambda>n. n + (if ev = On_close then 1 else 0)) s)"

lemma count_env_calm: "calm id (count_env :: ('u, 'c, nat) conn_env) a"
proof -
  have "leaves a s (net.more_update h s)" for s :: "('u, 'c, nat) net_scheme" and h
    unfolding leaves_def by (simp add: conn_view_cong [of "net.more_update h s" a s])
  then show ?thesis by (simp add: calm_def count_env_def)
qed

lemma demo_net_view: "conn_view 0 demo_net_of demo_conn demo_conn_channel"
  by (simp add: conn_view_def chan_inv_def can_register_def rw_events_def demo_net_of_def demo_conn_def
      demo_conn_channel_def epoll_bits buffer_eval)

lemma demo_net_ready: "conn_ready 0 demo_net" "conn_load (the_conn 0 demo_net) = 0"
proof -
  have "conn_load demo_conn = 0" "callbacks_set demo_conn" "conn_state demo_conn \<noteq> kConnecting"
    "WriteEnabled demo_conn_channel \<longleftrightarrow> contents (output_buf demo_conn) \<noteq> []"
    by (simp_all add: conn_load_def callbacks_set_def demo_conn_def demo_conn_channel_def WriteEnabled_def
        epoll_bits buffer_eval)
  with demo_net_view show "conn_ready 0 demo_net" "conn_load (the_conn 0 demo_net) = 0"
    by (auto simp: conn_ready_def conn_view_the [OF demo_net_view])
qed

text \<open>
  C11: The stream of a connection is kept whole. Whatever happens to it in its loop -
  sends, queued sends, readable and writable events with any answer of the kernel,
  shutdown and forced close, with callbacks that leave it alone - every handler
  returns without a failed assertion, and the bytes the kernel has taken, followed by
  those in the output buffer, are exactly the bytes of the sends it accepted, in order.
\<close>

theorem connection_stream_integrity:
  assumes "conn_ready a s" "calm g env a" "buf_room (conn_load (the_conn a s) + sum_list (map op_size ops))"
  shows "\<exists>taken s'. conn_run env a ops s = Inr (taken, s') \<and> conn_ready a s' \<and>
    sent a s' @ unsent a s' = sent a s @ unsent a s @ taken"
  using conn_run_ready [OF assms(2,1,3)] by blast

theorem connection_stream_integrity_witness:
  "\<exists>taken s'. conn_run count_env 0 [Send_op ''hello'' (Write_ok 2), Send_op ''!'' (Write_ok 9), Writable (Write_ok 3)]
     demo_net = Inr (taken, s') \<and> sent 0 s' @ unsent 0 s' = taken"
proof -
  have "buf_room (conn_load (the_conn 0 demo_net) +
      sum_list (map op_size [Send_op ''hello'' (Write_ok 2), Send_op ''!'' (Write_ok 9), Writable (Write_ok 3)]))"
    by (simp add: demo_net_ready buf_room_def kPrependSize_def max_size_def)
  from connection_stream_integrity [OF demo_net_ready(1) count_env_calm this]
  obtain taken s' where t: "conn_run count_env 0 [Send_op ''hello'' (Write_ok 2), Send_op ''!'' (Write_ok 9), Writable (Write_ok 3)]
      demo_net = Inr (taken, s')" "sent 0 s' @ unsent 0 s' = sent 0 demo_net @ unsent 0 demo_net @ taken"
    by blast
  have "sent 0 demo_net = []" "unsent 0 demo_net = []"
    by (simp_all add: view_parts [OF demo_net_view] demo_conn_def buffer_eval) (simp add: demo_net_of_def)
  with t show ?thesis by (intro exI [of _ taken] exI [of _ s']) simp
qed





text \<open>A loop with no channel.\<close>

definition empty_net :: "('u, 'c, nat) net_scheme" where
  "empty_net =
     \<lparr>mgr_heap = [], mgr_timers = Map.empty, mgr_next = 0, mgr_timer_num = 0,
      looping = True, quit = False, pending_functors_calling = False, loop_tid = 7,
      epoll_interest = Map.empty, chan_store = Map.empty, chan_next = 2,
      channels = {}, active_channels = [], wakeup_fd = 3, wakeup_channel = 0, wakeup_count = 0,
      pending_functors = [], alive_ties = {}, conns = Map.empty, socket_log = [], \<dots> = 0\<rparr>"

lemma count_env_channels: "keeps_channels count_env a"
  by (auto simp: keeps_channels_def count_env_def)

end
