(* ===== verification/Echo.thy ===== *)
theory Echo
  imports TcpConnection
begin

section \<open>\<open>example/echo\<close>: a connection that sends back what it gets\<close>

text \<open>
  The message callback of the echo server reads the whole input buffer and sends it on
  the same connection. The other callbacks are as in \<open>TcpConnection\<close>: they leave the
  connection alone (the one on connections prints a line). The line the message callback
  prints is left out.
\<close>

subsection \<open>The callback\<close>

text \<open>\<open>w\<close> is what \<open>write\<close> answers to the direct write.\<close>

definition echo_message ::
  "write_answer \<Rightarrow> ('u, 'c, 'z) conn_env \<Rightarrow> nat \<Rightarrow> ('u, 'c, 'z) net_state \<Rightarrow> ('u, 'c, 'z) net_state res" where
  "echo_message w env a s =
     with_conn a s (\<lambda>c.
     res_bind (ReadAll (input_buf c)) (\<lambda>(msg, b).
     res_bind (upd_conn (\<lambda>c. c\<lparr>input_buf := b\<rparr>) a s) (\<lambda>s1.
     Send (loop_tid s1) env (clamp (length msg) w) a msg s1)))"

fun echo_env :: "write_answer \<Rightarrow> ('u, 'c, 'z) conn_env \<Rightarrow> ('u, 'c, 'z) conn_env" where
  "echo_env w env On_message f a s = echo_message w env a s"
| "echo_env w env ev f a s = env ev f a s"

text \<open>What happens to a connection of the server: the socket is readable or writable.\<close>

datatype echo_op = Echo_readable read_answer write_answer | Echo_writable write_answer

fun echo_step ::
  "('u, 'c, 'z) conn_env \<Rightarrow> nat \<Rightarrow> echo_op \<Rightarrow> ('u, 'c, 'z) net_state \<Rightarrow> ('u, 'c, 'z) net_state res" where
  "echo_step env a (Echo_readable x w) s =
     (if reading a s
      then conn_HandleRead (loop_tid s) (echo_env w env) (clamp_read (input_buf (the_conn a s)) x) a s else Inr s)"
| "echo_step env a (Echo_writable w) s =
     conn_HandleWrite (loop_tid s) (echo_env w env) (clamp (length (unsent a s)) w) a s"

text \<open>The bytes an event brings in, unless their direct write finds the peer gone.\<close>

fun echo_bytes :: "nat \<Rightarrow> echo_op \<Rightarrow> ('u, 'c, 'z) net_state \<Rightarrow> string" where
  "echo_bytes a (Echo_readable x w) s =
     (if reading a s \<and> \<not> (unsent a s = [] \<and> reset_error w)
      then (case clamp_read (input_buf (the_conn a s)) x of Read_data d \<Rightarrow> d | Read_error \<Rightarrow> []) else [])"
| "echo_bytes a (Echo_writable w) s = []"

fun echo_run ::
  "('u, 'c, 'z) conn_env \<Rightarrow> nat \<Rightarrow> echo_op list \<Rightarrow> ('u, 'c, 'z) net_state \<Rightarrow> (string \<times> ('u, 'c, 'z) net_state) res" where
  "echo_run env a [] s = Inr ([], s)"
| "echo_run env a (x # xs) s =
     res_bind (echo_step env a x s) (\<lambda>s'.
     res_bind (echo_run env a xs s') (\<lambda>(got, s''). Inr (echo_bytes a x s @ got, s'')))"

fun echo_size :: "echo_op \<Rightarrow> nat" where
  "echo_size (Echo_readable (Read_data d) w) = length d"
| "echo_size x = 0"

subsection \<open>The handlers with this callback\<close>

lemma call_echo [simp]: "ev \<noteq> On_message \<Longrightarrow> call_cb (echo_env w env) ev cb a s = call_cb env ev cb a s"
  by (cases ev) (auto simp: call_cb_def split: option.splits)

lemma HandleClose_echo [simp]: "HandleClose tid (echo_env w env) a s = HandleClose tid env a s"
proof -
  have e: "call_cb (echo_env w env) On_close = call_cb env On_close" by (intro ext) simp
  show ?thesis unfolding HandleClose_def e ..
qed

lemma conn_HandleWrite_echo [simp]: "conn_HandleWrite tid (echo_env w env) x a s = conn_HandleWrite tid env x a s"
  unfolding conn_HandleWrite_def HandleClose_echo ..

lemma conn_HandleRead_echo:
  assumes "conn_view a s c ch" "contents (input_buf c) = []" "conn_state c = kConnected" "message_cb c \<noteq> None"
    and "readv_answer (Read_data d) (input_buf c)" "buf_room (length d)" "d \<noteq> []"
  shows "\<exists>b s'. conn_view a s' (c\<lparr>input_buf := b\<rparr>) ch \<and> contents b = [] \<and> loop_tid s' = loop_tid s \<and>
    socket_log s' = socket_log s \<and> net.more s' = net.more s \<and>
    conn_HandleRead (loop_tid s) (echo_env w env) (Read_data d) a s =
      SendInLoop (loop_tid s') env (clamp (length d) w) a d s'"
proof -
  note v = conn_viewD [OF assms(1)]
  obtain b where b: "ReadFd (Read_data d) (input_buf c) = Inr (int (length d), b)" "buf_inv b" "contents b = d"
    using ReadFd_ok [OF v(7) assms(5)] assms(2,6) by auto
  from upd_conn_view [OF assms(1), of "\<lambda>c. c\<lparr>input_buf := b\<rparr>"] v(8) b(2) obtain s1 where
    s1: "upd_conn (\<lambda>c. c\<lparr>input_buf := b\<rparr>) a s = Inr s1" "conn_view a s1 (c\<lparr>input_buf := b\<rparr>) ch" "loop_tid s1 = loop_tid s"
      "socket_log s1 = socket_log s" "net.more s1 = net.more s"
    by auto
  obtain b' where b': "ReadAll b = Inr (d, b')" "buf_inv b'" "contents b' = []" using ReadAll_ok [OF b(2)] b(3) by auto
  from upd_conn_view [OF s1(2), of "\<lambda>c. c\<lparr>input_buf := b'\<rparr>"] v(8) b'(2) obtain s2 where
    s2: "upd_conn (\<lambda>c. c\<lparr>input_buf := b'\<rparr>) a s1 = Inr s2" "conn_view a s2 (c\<lparr>input_buf := b'\<rparr>) ch" "loop_tid s2 = loop_tid s1"
      "socket_log s2 = socket_log s1" "net.more s2 = net.more s1"
    by auto
  obtain f where f: "message_cb c = Some f" using assms(4) by blast
  have "echo_message w env a s1 = SendInLoop (loop_tid s2) env (clamp (length d) w) a d s2"
    using b'(1) s2(1) assms(3) by (simp add: echo_message_def with_conn_view [OF s1(2)] Send_def with_conn_view [OF s2(2)])
  then have "conn_HandleRead (loop_tid s) (echo_env w env) (Read_data d) a s =
      SendInLoop (loop_tid s2) env (clamp (length d) w) a d s2"
    using b(1) s1(1) f assms(7) by (simp add: conn_HandleRead_def with_conn_view [OF assms(1)] call_cb_def)
  with s2 s1 b'(3) show ?thesis by (intro exI [of _ b'] exI [of _ s2]) auto
qed

lemma conn_HandleRead_other:
  assumes "conn_view a s c ch" "x = Read_error \<or> x = Read_data []" "buf_room (length (contents (input_buf c)))"
  shows "conn_HandleRead tid (echo_env w env) x a s = conn_HandleRead tid env x a s"
proof -
  note v = conn_viewD [OF assms(1)]
  from assms(2) show ?thesis
  proof
    assume "x = Read_data []"
    moreover from ReadFd_ok [OF v(7), of "[]"] assms(3) obtain b where "ReadFd (Read_data []) (input_buf c) = Inr (0, b)" by auto
    ultimately show ?thesis by (simp add: conn_HandleRead_def with_conn_view [OF assms(1)])
  qed (simp add: conn_HandleRead_def with_conn_view [OF assms(1)])
qed

subsection \<open>One event\<close>

text \<open>A connection of the server between two events: what came in has been sent on.\<close>

definition echo_view :: "nat \<Rightarrow> ('u, 'c, 'z) net_state \<Rightarrow> 'c connection \<Rightarrow> 'u closure channel \<Rightarrow> bool" where
  "echo_view a s c ch \<longleftrightarrow> conn_view a s c ch \<and> (WriteEnabled ch \<longleftrightarrow> contents (output_buf c) \<noteq> []) \<and> callbacks_set c \<and>
     contents (input_buf c) = [] \<and> (conn_state c = kConnected \<or> conn_state c = kDisconnected \<and> \<not> ReadEnabled ch)"

definition echo_ready :: "nat \<Rightarrow> ('u, 'c, 'z) net_state \<Rightarrow> bool" where
  "echo_ready a s \<longleftrightarrow> (\<exists>c ch. echo_view a s c ch)"

definition echo_result :: "nat \<Rightarrow> ('u, 'c, 'z) net_state \<Rightarrow> nat \<Rightarrow> string \<Rightarrow> ('u, 'c, 'z) net_state res \<Rightarrow> bool" where
  "echo_result a s k got x \<longleftrightarrow> (\<exists>s'. x = Inr s' \<and> echo_ready a s' \<and> sent a s' @ unsent a s' = sent a s @ unsent a s @ got \<and>
     length (unsent a s') \<le> length (unsent a s) + k)"

lemma echo_resultI:
  assumes "outcome g a s0 c' r (contents (output_buf c') \<noteq> []) bytes n x" "echo_view a s c ch"
    and "bytes @ contents (output_buf c') = wire (conn_sockfd c) (socket_log s) @ contents (output_buf c) @ got"
    and "length (contents (output_buf c')) \<le> length (contents (output_buf c)) + k"
    and "callbacks_set c'" "contents (input_buf c') = []" "conn_sockfd c' = conn_sockfd c"
    and "conn_state c' = kConnected \<or> conn_state c' = kDisconnected \<and> \<not> r"
  shows "echo_result a s k got x"
proof -
  from assms(1) obtain s' ch' where s': "x = Inr s'" "conn_view a s' c' ch'" "enabled r (contents (output_buf c') \<noteq> []) ch'"
      "wire (conn_sockfd c') (socket_log s') = bytes"
    by (auto simp: outcome_def)
  have "conn_view a s c ch" using assms(2) by (simp add: echo_view_def)
  moreover have "echo_view a s' c' ch'" using s'(2,3) assms(5,6,8) by (simp add: echo_view_def enabled_def)
  ultimately show ?thesis
    using s' assms(3,4,7) by (auto simp: echo_result_def echo_ready_def view_parts)
qed

lemma echo_step_ok:
  assumes ready: "echo_ready a s" and env: "calm g env a" and room: "buf_room (length (unsent a s) + echo_size x)"
  shows "echo_result a s (echo_size x) (echo_bytes a x s) (echo_step env a x s)"
proof -
  obtain c ch where e: "echo_view a s c ch" using ready by (auto simp: echo_ready_def)
  then have view: "conn_view a s c ch" and cb: "callbacks_set c" and empty: "contents (input_buf c) = []"
    and state: "conn_state c = kConnected \<or> conn_state c = kDisconnected \<and> \<not> ReadEnabled ch"
    by (simp_all add: echo_view_def)
  let ?out = "contents (output_buf c)"
  have en: "enabled (ReadEnabled ch) (?out \<noteq> []) ch" using e by (simp add: echo_view_def enabled_def)
  have cbs: "close_cb c \<noteq> None" "message_cb c \<noteq> None" "conn_state c \<noteq> kConnecting"
    using cb state by (auto simp: callbacks_set_def)
  note parts = view_parts [OF view] conn_view_the [OF view]
  have stay: "echo_result a s k [] (Inr s)" for k using ready by (simp add: echo_result_def)
  show ?thesis
  proof (cases x)
    case (Echo_writable w)
    obtain b bytes r n where b: "outcome g a s (c\<lparr>output_buf := b\<rparr>) r (contents b \<noteq> []) bytes n
        (conn_HandleWrite (loop_tid s) env (clamp (length ?out) w) a s)"
        "bytes @ contents b = wire (conn_sockfd c) (socket_log s) @ ?out"
        "contents b = (case clamp (length ?out) w of Write_ok k \<Rightarrow> drop k ?out | Write_error e \<Rightarrow> ?out)"
        "if conn_state c = kDisconnected \<and> ?out \<noteq> [] \<and> contents b = [] then n = 1 \<and> \<not> r else n = 0 \<and> r = ReadEnabled ch"
      using conn_HandleWrite_view [OF view env en cbs(1,3)] write_answer_ok_clamp by blast
    have len: "length (contents b) \<le> length ?out" using b(3) by (cases "clamp (length ?out) w") simp_all
    have "echo_result a s 0 [] (conn_HandleWrite (loop_tid s) env (clamp (length ?out) w) a s)"
      by (rule echo_resultI [where c' = "c\<lparr>output_buf := b\<rparr>" and g = g and n = n, OF _ e])
        (use b(1,2,4) len cb empty state in \<open>auto simp: callbacks_set_def split: if_splits\<close>)
    then show ?thesis using Echo_writable parts(1) by simp
  next
    case (Echo_readable x0 w)
    define y where "y = clamp_read (input_buf c) x0"
    have step: "echo_step env a x s =
        (if ReadEnabled ch then conn_HandleRead (loop_tid s) (echo_env w env) y a s else Inr s)"
      using Echo_readable by (simp add: y_def parts)
    show ?thesis
    proof (cases "ReadEnabled ch")
      case False
      then show ?thesis using stay step Echo_readable parts(3) by simp
    next
      case r: True
      with state have kc: "conn_state c = kConnected" by simp
      have ans: "readv_answer y (input_buf c)" unfolding y_def by (rule readv_answer_clamp)
      show ?thesis
      proof (cases "y = Read_error \<or> y = Read_data []")
        case True
        have eb: "echo_bytes a x s = []" using True Echo_readable parts by (auto simp: y_def)
        have "buf_room (length (contents (input_buf c)))" using empty by (simp add: buf_room_def kPrependSize_def max_size_def)
        note other = conn_HandleRead_other [OF view True this]
        have "case y of Read_data d \<Rightarrow> buf_room (length (contents (input_buf c)) + length d) | Read_error \<Rightarrow> True"
          using True empty by (auto simp: buf_room_def kPrependSize_def max_size_def)
        from conn_HandleRead_view [OF view env en cbs ans this] obtain b where
          "contents b = contents (input_buf c) @ (case y of Read_data d \<Rightarrow> d | Read_error \<Rightarrow> [])"
          "outcome g a s (c\<lparr>input_buf := b, conn_state := (if y = Read_data [] then kDisconnected else conn_state c)\<rparr>)
            (ReadEnabled ch \<and> y \<noteq> Read_data []) (?out \<noteq> []) (wire (conn_sockfd c) (socket_log s))
            (if y = Read_data [] \<and> \<not> ?out \<noteq> [] then 1 else 0) (conn_HandleRead (loop_tid s) env y a s)"
          by blast
        then have "echo_result a s (echo_size x) [] (conn_HandleRead (loop_tid s) env y a s)"
          using True empty cb kc
          by (intro echo_resultI [where c' = "c\<lparr>input_buf := b, conn_state := (if y = Read_data [] then kDisconnected else conn_state c)\<rparr>", OF _ e])
            (auto simp: callbacks_set_def)
        then show ?thesis unfolding step eb if_P [OF r] other .
      next
        case False
        then obtain d where d: "y = Read_data d" "d \<noteq> []" by (cases y) auto
        have size: "length d \<le> echo_size x" using d(1) Echo_readable by (cases x0) (auto simp: y_def)
        then have rm: "buf_room (length d)" "buf_room (length ?out + length d)"
          using room parts(1) by (auto simp: buf_room_def)
        from conn_HandleRead_echo [OF view empty kc cbs(2) ans [unfolded d(1)] rm(1) d(2), of w env] obtain b' s' where
          s': "conn_view a s' (c\<lparr>input_buf := b'\<rparr>) ch" "contents b' = []" "loop_tid s' = loop_tid s"
            "socket_log s' = socket_log s"
            "conn_HandleRead (loop_tid s) (echo_env w env) y a s = SendInLoop (loop_tid s') env (clamp (length d) w) a d s'"
          unfolding d(1) by blast
        have en': "enabled (ReadEnabled ch) (contents (output_buf (c\<lparr>input_buf := b'\<rparr>)) \<noteq> []) ch" using en by simp
        obtain b bytes where b: "outcome g a s' (c\<lparr>input_buf := b', output_buf := b\<rparr>) (ReadEnabled ch) (contents b \<noteq> []) bytes 0
              (SendInLoop (loop_tid s') env (clamp (length d) w) a d s')"
            "bytes @ contents b = wire (conn_sockfd c) (socket_log s) @ ?out @ (if ?out = [] \<and> reset_error w then [] else d)"
            "length (contents b) \<le> length ?out + length d"
          using SendInLoop_view [OF s'(1) env en' _ write_answer_ok_clamp [where w = w], of d] rm(2) kc s'(4) by auto
        have "echo_result a s (echo_size x) (if ?out = [] \<and> reset_error w then [] else d) (SendInLoop (loop_tid s') env (clamp (length d) w) a d s')"
          by (rule echo_resultI [where c' = "c\<lparr>input_buf := b', output_buf := b\<rparr>", OF _ e])
            (use b s'(2) cb kc size in \<open>auto simp: callbacks_set_def\<close>)
        then show ?thesis
          using r d step s'(5) Echo_readable parts by (auto simp: y_def [symmetric] split: if_splits)
      qed
    qed
  qed
qed

lemma echo_run_ready:
  assumes "calm g env a"
  shows "echo_ready a s \<Longrightarrow> buf_room (length (unsent a s) + sum_list (map echo_size xs)) \<Longrightarrow>
    \<exists>got s'. echo_run env a xs s = Inr (got, s') \<and> echo_ready a s' \<and> sent a s' @ unsent a s' = sent a s @ unsent a s @ got"
proof (induction xs arbitrary: s)
  case (Cons x xs)
  have "buf_room (length (unsent a s) + echo_size x)" using Cons.prems(2) by (simp add: buf_room_def)
  from echo_step_ok [OF Cons.prems(1) assms this] obtain s1 where
    s1: "echo_step env a x s = Inr s1" "echo_ready a s1" "sent a s1 @ unsent a s1 = sent a s @ unsent a s @ echo_bytes a x s"
      "length (unsent a s1) \<le> length (unsent a s) + echo_size x"
    by (auto simp: echo_result_def)
  have "buf_room (length (unsent a s1) + sum_list (map echo_size xs))"
    using Cons.prems(2) s1(4) by (simp add: buf_room_def)
  from Cons.IH [OF s1(2) this] obtain got s' where "echo_run env a xs s1 = Inr (got, s')" "echo_ready a s'"
    "sent a s' @ unsent a s' = sent a s1 @ unsent a s1 @ got"
    by blast
  with s1(1,3) show ?case by (simp flip: append_assoc)
qed simp

subsection \<open>Properties\<close>

text \<open>
  C40: The server sends back what it gets. Whatever the socket delivers and takes, in any
  order of events, no handler fails; the bytes the kernel has taken, followed by those still
  in the output buffer, are the bytes read, in order, but for a piece whose direct write met
  a peer that was gone; and nothing stays in the input buffer.
\<close>

theorem echo_sends_back:
  assumes "echo_ready a s" "calm g env a" "buf_room (length (unsent a s) + sum_list (map echo_size xs))"
  shows "\<exists>got s'. echo_run env a xs s = Inr (got, s') \<and> sent a s' @ unsent a s' = sent a s @ unsent a s @ got \<and>
    contents (input_buf (the_conn a s')) = []"
proof -
  from echo_run_ready [OF assms(2,1,3)] obtain got s' where r: "echo_run env a xs s = Inr (got, s')" "echo_ready a s'"
    "sent a s' @ unsent a s' = sent a s @ unsent a s @ got"
    by blast
  then have "contents (input_buf (the_conn a s')) = []"
    by (auto simp: echo_ready_def echo_view_def dest: conn_view_the)
  with r show ?thesis by blast
qed

theorem echo_sends_back_witness:
  "\<exists>s. echo_run count_env 0 [Echo_readable (Read_data ''hello'') (Write_ok 2), Echo_writable (Write_ok 3)] demo_net =
     Inr (''hello'', s) \<and> sent 0 s @ unsent 0 s = ''hello''"
proof -
  let ?xs = "[Echo_readable (Read_data ''hello'') (Write_ok 2), Echo_writable (Write_ok 3)]"
  have c: "callbacks_set demo_conn" "contents (input_buf demo_conn) = []" "contents (output_buf demo_conn) = []"
    "conn_state demo_conn = kConnected" "\<not> WriteEnabled demo_conn_channel" "ReadEnabled demo_conn_channel"
    by (simp_all add: callbacks_set_def demo_conn_def demo_conn_channel_def WriteEnabled_def ReadEnabled_def epoll_bits buffer_eval)
  then have ready: "echo_ready 0 demo_net" using demo_net_view by (auto simp: echo_ready_def echo_view_def)
  have out: "unsent 0 demo_net = []" "sent 0 demo_net = []" "reading 0 demo_net" "the_conn 0 demo_net = demo_conn"
    using c(3,6) by (simp_all add: view_parts [OF demo_net_view] conn_view_the [OF demo_net_view]) (simp add: demo_net_of_def)
  have "buf_room (length (unsent 0 demo_net) + sum_list (map echo_size ?xs))"
    by (simp add: out buf_room_def kPrependSize_def max_size_def)
  from echo_sends_back [OF ready count_env_calm this] obtain got s where
    g: "echo_run count_env 0 ?xs demo_net = Inr (got, s)" "sent 0 s @ unsent 0 s = sent 0 demo_net @ unsent 0 demo_net @ got"
    by blast
  have b: "echo_bytes 0 (Echo_readable (Read_data ''hello'') (Write_ok 2)) demo_net = ''hello''"
    by (simp add: out reset_error_def demo_conn_def extra_size_def)
  have "got = ''hello''" using g(1) unfolding echo_run.simps b by (auto simp: res_bind_Inr_iff)
  with g out show ?thesis by auto
qed

end
