(* ===== verification/Acceptor.thy ===== *)
theory Acceptor
  imports TcpConnection
begin

section \<open>\<open>net/Acceptor\<close>: taking connections\<close>

text \<open>
  The world of a server: the loops with their connections, the kernel, and the next free
  address for a connection. The acceptor lives in one loop; the callback for a new
  connection may do anything to the world and to the state \<open>'s\<close> of its owner.
\<close>

subsection \<open>The world\<close>

datatype srv_closure = Accept_ready | Listen_ready | Establish nat | Destroy nat | Remove string nat nat

record ('c, 'z, 'k) world =
  w_net :: "nat \<Rightarrow> (srv_closure, 'c, 'z) net_scheme"
  w_kern :: 'k
  w_next_conn :: nat

definition on_net ::
  "nat \<Rightarrow> ((srv_closure, 'c, 'z) net_scheme \<Rightarrow> (srv_closure, 'c, 'z) net_scheme res) \<Rightarrow> ('c, 'z, 'k) world \<Rightarrow>
   ('c, 'z, 'k) world res" where
  "on_net l f w = res_bind (f (w_net w l)) (\<lambda>s. Inr (w\<lparr>w_net := (w_net w)(l := s)\<rparr>))"

definition on_kern :: "('k \<Rightarrow> 'a \<times> 'k) \<Rightarrow> ('c, 'z, 'k) world \<Rightarrow> 'a \<times> ('c, 'z, 'k) world" where
  "on_kern f w = (let (r, k) = f (w_kern w) in (r, w\<lparr>w_kern := k\<rparr>))"

subsection \<open>The acceptor\<close>

record acceptor =
  acc_loop :: nat
  acc_socket :: int
  acc_channel :: nat
  listenning :: bool
  idle_fd :: int

definition open_null :: "'k kernel \<Rightarrow> 'k \<Rightarrow> int \<times> 'k" where
  "open_null K k = (case sys_open_null K k of (Sys i, k') \<Rightarrow> (i, k') | (Sys_fail e, k') \<Rightarrow> (- 1, k'))"

definition new_acceptor ::
  "'k kernel \<Rightarrow> nat \<Rightarrow> sockaddr_in \<Rightarrow> bool \<Rightarrow> ('c, 'z, 'k) world \<Rightarrow> (acceptor \<times> ('c, 'z, 'k) world) res" where
  "new_acceptor K l addr reuseport w =
     (let (fd, w1) = on_kern (CreateNonblockSocket K) w;
          (ch, s) = new_channel fd (w_net w1 l);
          (idle, w2) = on_kern (open_null K) (w1\<lparr>w_net := (w_net w1)(l := s)\<rparr>) in
      assert_then (0 < idle)
        (let w3 = snd (on_kern (SetReuseAddr K fd True) w2);
             w4 = snd (on_kern (SetReusePort K fd reuseport) w3);
             w5 = snd (on_kern (Bind K fd addr) w4) in
         res_bind (on_net l (SetReadHandler (Other_closure Accept_ready) ch) w5) (\<lambda>w6.
         Inr (\<lparr>acc_loop = l, acc_socket = fd, acc_channel = ch, listenning = False, idle_fd = idle\<rparr>, w6))))"

definition delete_acceptor ::
  "'k kernel \<Rightarrow> int \<Rightarrow> acceptor \<Rightarrow> ('c, 'z, 'k) world \<Rightarrow> ('c, 'z, 'k) world res" where
  "delete_acceptor K tid acc w =
     res_bind (on_net (acc_loop acc) (DisableReadWrite tid (acc_channel acc)) w) (\<lambda>w1.
     res_bind (on_net (acc_loop acc) (Channel_Close tid (acc_channel acc)) w1) (\<lambda>w2.
     let w3 = snd (on_kern (socket_Close K (acc_socket acc)) w2);
         w4 = snd (on_kern (socket_Close K (idle_fd acc)) w3) in
     on_net (acc_loop acc) (drop_channel (acc_channel acc)) w4))"

definition acceptor_Listen ::
  "'k kernel \<Rightarrow> int \<Rightarrow> acceptor \<Rightarrow> ('c, 'z, 'k) world \<Rightarrow> (acceptor \<times> ('c, 'z, 'k) world) res" where
  "acceptor_Listen K tid acc w =
     assert_then (IsInLoopThread tid (w_net w (acc_loop acc)))
       (let acc = acc\<lparr>listenning := True\<rparr>; w1 = snd (on_kern (socket_Listen K (acc_socket acc)) w) in
        res_bind (on_net (acc_loop acc) (EnableRead tid (acc_channel acc)) w1) (\<lambda>w2. Inr (acc, w2)))"

definition EMFILE :: nat where "EMFILE = 24"

definition ENFILE :: nat where "ENFILE = 23"

text \<open>Out of descriptors: the spare one is given up to take the connection and close it.\<close>

definition shed_connection ::
  "'k kernel \<Rightarrow> acceptor \<Rightarrow> ('c, 'z, 'k) world \<Rightarrow> acceptor \<times> ('c, 'z, 'k) world" where
  "shed_connection K acc w =
     (let w1 = snd (on_kern (socket_Close K (idle_fd acc)) w);
          ((fd, peer, err), w2) = on_kern (Accept K (acc_socket acc)) w1;
          w3 = snd (on_kern (socket_Close K fd) w2);
          (idle, w4) = on_kern (open_null K) w3 in
      (acc\<lparr>idle_fd := idle\<rparr>, w4))"

type_synonym ('c, 'z, 'k, 's) accept_cb =
  "int \<Rightarrow> sockaddr_in \<Rightarrow> 's \<Rightarrow> ('c, 'z, 'k) world \<Rightarrow> ('s \<times> ('c, 'z, 'k) world) res"

definition acceptor_HandleRead ::
  "'k kernel \<Rightarrow> int \<Rightarrow> ('c, 'z, 'k, 's) accept_cb option \<Rightarrow> acceptor \<Rightarrow> 's \<Rightarrow> ('c, 'z, 'k) world \<Rightarrow>
   (acceptor \<times> 's \<times> ('c, 'z, 'k) world) res" where
  "acceptor_HandleRead K tid conn_cb acc s w =
     assert_then (IsInLoopThread tid (w_net w (acc_loop acc)))
       (let ((fd, peer, err), w1) = on_kern (Accept K (acc_socket acc)) w in
        if Valid fd then
          (case conn_cb of
             Some f \<Rightarrow> res_bind (f fd (case peer of Some a \<Rightarrow> a | None \<Rightarrow> InetAddr_port 0 False) s w1) (\<lambda>(s', w2). Inr (acc, s', w2))
           | None \<Rightarrow> Inr (acc, s, snd (on_kern (socket_Close K fd) w1)))
        else if err = EMFILE \<or> err = ENFILE then
          (let (acc', w2) = shed_connection K acc w1 in Inr (acc', s, w2))
        else Inr (acc, s, w1))"

subsection \<open>What the kernel does\<close>

text \<open>
  As documented: with a connection waiting, \<open>accept\<close> takes it into a free descriptor, or
  fails with \<open>EMFILE\<close> and leaves it waiting when there is none; closing an open descriptor
  frees it, opening takes one. \<open>backlog\<close> counts the connections that wait on \<open>lfd\<close>, \<open>free\<close>
  the descriptors the process may still open.
\<close>

definition accepting_kernel :: "'k kernel \<Rightarrow> int \<Rightarrow> ('k \<Rightarrow> nat) \<Rightarrow> ('k \<Rightarrow> nat) \<Rightarrow> ('k \<Rightarrow> int \<Rightarrow> bool) \<Rightarrow> bool" where
  "accepting_kernel K lfd backlog free is_open \<longleftrightarrow>
     (\<forall>k. 0 < backlog k \<longrightarrow> 0 < free k \<longrightarrow>
        (\<exists>c a k'. sys_accept4 K lfd k = (Sys (c, a), k') \<and> 0 \<le> c \<and> is_open k' c \<and>
           backlog k' = backlog k - 1 \<and> free k' = free k - 1)) \<and>
     (\<forall>k. 0 < backlog k \<longrightarrow> free k = 0 \<longrightarrow> sys_accept4 K lfd k = (Sys_fail EMFILE, k)) \<and>
     (\<forall>k c. is_open k c \<longrightarrow>
        (\<exists>k'. sys_close K c k = (Sys (), k') \<and> backlog k' = backlog k \<and> free k' = free k + 1)) \<and>
     (\<forall>k. 0 < free k \<longrightarrow>
        (\<exists>i k'. sys_open_null K k = (Sys i, k') \<and> 0 < i \<and> is_open k' i \<and>
           backlog k' = backlog k \<and> free k' = free k - 1))"

lemma shed_connection_ok:
  assumes K: "accepting_kernel K (acc_socket acc) backlog free is_open"
    and "0 < backlog (w_kern w)" "free (w_kern w) = 0" "is_open (w_kern w) (idle_fd acc)"
  shows "\<exists>idle k'. shed_connection K acc w = (acc\<lparr>idle_fd := idle\<rparr>, w\<lparr>w_kern := k'\<rparr>) \<and> 0 < idle \<and> is_open k' idle \<and>
    backlog k' = backlog (w_kern w) - 1 \<and> free k' = 0"
proof -
  obtain k1 where k1: "sys_close K (idle_fd acc) (w_kern w) = (Sys (), k1)" "backlog k1 = backlog (w_kern w)" "free k1 = 1"
    using K assms(3,4) unfolding accepting_kernel_def by fastforce
  moreover from this assms(2) have "0 < backlog k1" "0 < free k1" by simp_all
  then obtain c a k2 where k2: "sys_accept4 K (acc_socket acc) k1 = (Sys (c, a), k2)" "is_open k2 c"
      "backlog k2 = backlog k1 - 1" "free k2 = free k1 - 1"
    using K unfolding accepting_kernel_def by blast
  moreover obtain k3 where k3: "sys_close K c k2 = (Sys (), k3)" "backlog k3 = backlog k2" "free k3 = free k2 + 1"
    using K k2(2) unfolding accepting_kernel_def by blast
  moreover from this have "0 < free k3" by simp
  then obtain i k4 where k4: "sys_open_null K k3 = (Sys i, k4)" "0 < i" "is_open k4 i" "backlog k4 = backlog k3" "free k4 = free k3 - 1"
    using K unfolding accepting_kernel_def by blast
  ultimately show ?thesis
    by (intro exI [of _ i] exI [of _ k4]) (simp add: shed_connection_def on_kern_def socket_Close_def succeeds_def Accept_def open_null_def)
qed

subsection \<open>Properties\<close>

text \<open>
  C16: The acceptor never spins. As long as a connection waits, each readable event takes
  exactly one off the backlog: it goes to the callback with its own descriptor, is closed
  when there is no callback, and when the process is out of descriptors it is shed
  through the spare descriptor, which is open again afterwards.
\<close>

theorem acceptor_takes_one:
  assumes "accepting_kernel K (acc_socket acc) backlog free is_open" "0 < backlog (w_kern w)"
    and "is_open (w_kern w) (idle_fd acc)" "IsInLoopThread tid (w_net w (acc_loop acc))"
  shows "if free (w_kern w) = 0
    then \<exists>idle k'. acceptor_HandleRead K tid conn_cb acc s w = Inr (acc\<lparr>idle_fd := idle\<rparr>, s, w\<lparr>w_kern := k'\<rparr>) \<and>
      0 < idle \<and> is_open k' idle \<and> backlog k' = backlog (w_kern w) - 1 \<and> free k' = 0
    else \<exists>fd addr k'. 0 \<le> fd \<and> is_open k' fd \<and> backlog k' = backlog (w_kern w) - 1 \<and> free k' = free (w_kern w) - 1 \<and>
      acceptor_HandleRead K tid conn_cb acc s w =
        (case conn_cb of
           Some f \<Rightarrow> res_bind (f fd addr s (w\<lparr>w_kern := k'\<rparr>)) (\<lambda>(s', w'). Inr (acc, s', w'))
         | None \<Rightarrow> Inr (acc, s, snd (on_kern (socket_Close K fd) (w\<lparr>w_kern := k'\<rparr>))))"
proof (cases "free (w_kern w) = 0")
  case True
  then have "sys_accept4 K (acc_socket acc) (w_kern w) = (Sys_fail EMFILE, w_kern w)"
    using assms(1,2) unfolding accepting_kernel_def by blast
  then have "acceptor_HandleRead K tid conn_cb acc s w = (let (acc', w2) = shed_connection K acc w in Inr (acc', s, w2))"
    using assms(4) by (simp add: acceptor_HandleRead_def on_kern_def Accept_def Valid_def)
  moreover obtain idle k' where "shed_connection K acc w = (acc\<lparr>idle_fd := idle\<rparr>, w\<lparr>w_kern := k'\<rparr>)"
      "0 < idle" "is_open k' idle" "backlog k' = backlog (w_kern w) - 1" "free k' = 0"
    using shed_connection_ok [OF assms(1,2) True assms(3)] by blast
  ultimately show ?thesis
    unfolding if_P [OF True] by (intro exI [of _ idle] exI [of _ k']) simp
next
  case False
  then obtain c a k' where k': "sys_accept4 K (acc_socket acc) (w_kern w) = (Sys (c, a), k')" "0 \<le> c" "is_open k' c"
      "backlog k' = backlog (w_kern w) - 1" "free k' = free (w_kern w) - 1"
    using assms(1,2) unfolding accepting_kernel_def by blast
  then have "acceptor_HandleRead K tid conn_cb acc s w =
      (case conn_cb of
         Some f \<Rightarrow> res_bind (f c a s (w\<lparr>w_kern := k'\<rparr>)) (\<lambda>(s', w'). Inr (acc, s', w'))
       | None \<Rightarrow> Inr (acc, s, snd (on_kern (socket_Close K c) (w\<lparr>w_kern := k'\<rparr>))))"
    using assms(4) by (simp add: acceptor_HandleRead_def on_kern_def Accept_def Valid_def split: option.splits)
  with False k' show ?thesis by auto
qed

text \<open>A kernel that counts: the free descriptors and the connections that wait.\<close>

definition count_kernel :: "(nat \<times> nat) kernel" where
  "count_kernel =
     \<lparr>sys_socket = (\<lambda>k. (Sys 3, k)), sys_bind = (\<lambda>fd a k. (Sys (), k)), sys_listen = (\<lambda>fd n k. (Sys (), k)),
      sys_accept4 = (\<lambda>fd (free, backlog).
        if backlog = 0 then (Sys_fail 11, free, backlog)
        else if free = 0 then (Sys_fail EMFILE, free, backlog)
        else (Sys (9, InetAddr_port 80 False), free - 1, backlog - 1)),
      sys_connect = (\<lambda>fd a k. (Sys (), k)), sys_shutdown = (\<lambda>fd h k. (Sys (), k)),
      sys_close = (\<lambda>fd (free, backlog). (Sys (), free + 1, backlog)),
      sys_open_null = (\<lambda>(free, backlog). if free = 0 then (Sys_fail EMFILE, free, backlog) else (Sys 4, free - 1, backlog)),
      sys_getsockname = (\<lambda>fd k. (Sys (InetAddr_port 80 False), k)), sys_getpeername = (\<lambda>fd k. (Sys (InetAddr_port 81 False), k)),
      sys_get_error = (\<lambda>fd k. (Sys 0, k)), sys_setsockopt = (\<lambda>fd opt k. (Sys (), k))\<rparr>"

lemma count_kernel_accepts: "accepting_kernel count_kernel lfd snd fst (\<lambda>k fd. True)"
  by (auto simp: accepting_kernel_def count_kernel_def)

definition demo_world :: "(nat, nat, nat \<times> nat) world" where
  "demo_world = \<lparr>w_net = (\<lambda>l. empty_net), w_kern = (0, 5), w_next_conn = 0\<rparr>"

theorem acceptor_takes_one_witness:
  "\<exists>idle k'. acceptor_HandleRead count_kernel 7 None
       \<lparr>acc_loop = 0, acc_socket = 3, acc_channel = 1, listenning = True, idle_fd = 4\<rparr> () demo_world =
     Inr (\<lparr>acc_loop = 0, acc_socket = 3, acc_channel = 1, listenning = True, idle_fd = idle\<rparr>, (), demo_world\<lparr>w_kern := k'\<rparr>) \<and>
     snd k' = 4"
  using acceptor_takes_one [OF count_kernel_accepts, where w = demo_world and tid = 7 and conn_cb = None and s = "()"
      and acc = "\<lparr>acc_loop = 0, acc_socket = 3, acc_channel = 1, listenning = True, idle_fd = 4\<rparr>"]
  by (simp add: demo_world_def empty_net_def IsInLoopThread_def) blast

end
