(* ===== verification/LoopThreads.thy ===== *)
theory LoopThreads
  imports Base
begin

section \<open>\<open>net/EventLoopThread\<close>, \<open>net/EventLoopThreadPool\<close>\<close>

text \<open>
  A loop thread publishes its loop under the mutex and notifies; \<open>Start\<close> waits for it.
  The pool starts its threads one after the other and deals its loops out in turn.
\<close>

subsection \<open>Starting a loop thread\<close>

datatype starter_pc = S_new | S_check | S_waiting | S_returned nat | S_destroying | S_joined

datatype loop_thread_pc = L_none | L_created | L_looping | L_after_loop | L_ended

record loop_thread =
  elt_loop :: "nat option"
  elt_started :: bool
  elt_exiting :: bool
  elt_quit :: bool
  elt_starter :: starter_pc
  elt_thread :: loop_thread_pc

definition new_loop_thread :: loop_thread where
  "new_loop_thread = \<lparr>elt_loop = None, elt_started = False, elt_exiting = False, elt_quit = False,
     elt_starter = S_new, elt_thread = L_none\<rparr>"

text \<open>\<open>Start\<close>: the thread is created, then the predicate is tested under the mutex.\<close>

definition elt_Start :: "loop_thread \<Rightarrow> loop_thread res" where
  "elt_Start x = assert_then (\<not> elt_started x)
     (Inr (x\<lparr>elt_started := True, elt_thread := L_created, elt_starter := S_check\<rparr>))"

definition elt_Start_wait :: "loop_thread \<Rightarrow> loop_thread" where
  "elt_Start_wait x = x\<lparr>elt_starter := (case elt_loop x of None \<Rightarrow> S_waiting | Some l \<Rightarrow> S_returned l)\<rparr>"

text \<open>The two sections of \<open>ThreadFunc\<close> under the mutex, around \<open>loop.Loop()\<close>.\<close>

definition ThreadFunc_publish :: "nat \<Rightarrow> loop_thread \<Rightarrow> loop_thread" where
  "ThreadFunc_publish l x = x\<lparr>elt_loop := Some l, elt_thread := L_looping,
     elt_starter := (if elt_starter x = S_waiting then S_check else elt_starter x)\<rparr>"

definition ThreadFunc_end :: "loop_thread \<Rightarrow> loop_thread" where
  "ThreadFunc_end x = x\<lparr>elt_loop := None, elt_thread := L_ended\<rparr>"

text \<open>The destructor up to \<open>Join\<close>.\<close>

definition delete_loop_thread :: "loop_thread \<Rightarrow> loop_thread" where
  "delete_loop_thread x =
     (let x = x\<lparr>elt_exiting := True\<rparr> in
      if elt_loop x \<noteq> None then x\<lparr>elt_quit := True, elt_starter := S_destroying\<rparr> else x\<lparr>elt_starter := S_joined\<rparr>)"

inductive elt_step :: "nat \<Rightarrow> loop_thread \<Rightarrow> loop_thread \<Rightarrow> bool" for l where
  start: "elt_starter x = S_new \<Longrightarrow> elt_Start x = Inr y \<Longrightarrow> elt_step l x y"
| wait: "elt_starter x = S_check \<Longrightarrow> elt_step l x (elt_Start_wait x)"
| spurious: "elt_starter x = S_waiting \<Longrightarrow> elt_step l x (x\<lparr>elt_starter := S_check\<rparr>)"
| publish: "elt_thread x = L_created \<Longrightarrow> elt_step l x (ThreadFunc_publish l x)"
| loop_ends: "elt_thread x = L_looping \<Longrightarrow> elt_quit x \<Longrightarrow> elt_step l x (x\<lparr>elt_thread := L_after_loop\<rparr>)"
| thread_ends: "elt_thread x = L_after_loop \<Longrightarrow> elt_step l x (ThreadFunc_end x)"
| destroy: "elt_starter x = S_returned m \<Longrightarrow> elt_step l x (delete_loop_thread x)"
| join: "elt_starter x = S_destroying \<Longrightarrow> elt_thread x = L_ended \<Longrightarrow> elt_step l x (x\<lparr>elt_starter := S_joined\<rparr>)"

definition elt_inv :: "nat \<Rightarrow> loop_thread \<Rightarrow> bool" where
  "elt_inv l x \<longleftrightarrow>
     (elt_loop x = (if elt_thread x \<in> {L_looping, L_after_loop} then Some l else None)) \<and>
     (elt_started x \<longleftrightarrow> elt_starter x \<noteq> S_new) \<and> (elt_thread x = L_none \<longleftrightarrow> elt_starter x = S_new) \<and>
     (elt_quit x \<longrightarrow> elt_starter x \<in> {S_destroying, S_joined}) \<and>
     (elt_thread x \<in> {L_after_loop, L_ended} \<longrightarrow> elt_quit x) \<and>
     (elt_starter x = S_waiting \<longrightarrow> elt_thread x = L_created) \<and>
     (\<forall>m. elt_starter x = S_returned m \<longrightarrow> m = l \<and> elt_thread x = L_looping) \<and>
     (elt_starter x = S_destroying \<longrightarrow> elt_quit x \<and> elt_thread x \<in> {L_looping, L_after_loop, L_ended})"

lemmas elt_defs = elt_Start_def elt_Start_wait_def ThreadFunc_publish_def ThreadFunc_end_def delete_loop_thread_def

lemma elt_inv_step: "elt_step l x y \<Longrightarrow> elt_inv l x \<Longrightarrow> elt_inv l y"
  by (induction rule: elt_step.induct)
    (auto simp: elt_inv_def elt_defs Let_def assert_then_Inr_iff split: if_splits option.splits
      intro: loop_thread_pc.exhaust)

lemma elt_reach_inv: "(elt_step l)\<^sup>*\<^sup>* new_loop_thread x \<Longrightarrow> elt_inv l x"
proof (induction rule: rtranclp_induct)
  case base
  show ?case by (simp add: elt_inv_def new_loop_thread_def)
next
  case (step y z)
  then show ?case using elt_inv_step by blast
qed

subsection \<open>The pool\<close>

record loop_pool =
  pool_started :: bool
  pool_next :: nat
  pool_tid :: int
  pool_loops :: "nat list"

definition new_pool :: "int \<Rightarrow> loop_pool" where
  "new_pool tid = \<lparr>pool_started = False, pool_next = 0, pool_tid = tid, pool_loops = []\<rparr>"

text \<open>\<open>Start(thread_num)\<close>: \<open>ls i\<close> is the loop the \<open>i\<close>-th thread's \<open>Start\<close> returns.\<close>

fun start_threads :: "nat \<Rightarrow> nat \<Rightarrow> (nat \<Rightarrow> nat) \<Rightarrow> loop_pool \<Rightarrow> loop_pool" where
  "start_threads i 0 ls p = p"
| "start_threads i (Suc n) ls p = start_threads (Suc i) n ls (p\<lparr>pool_loops := pool_loops p @ [ls i]\<rparr>)"

definition pool_Start :: "int \<Rightarrow> nat \<Rightarrow> (nat \<Rightarrow> nat) \<Rightarrow> loop_pool \<Rightarrow> loop_pool res" where
  "pool_Start tid thread_num ls p =
     assert_then (\<not> pool_started p)
       (assert_then (pool_tid p = tid) (Inr (start_threads 0 thread_num ls (p\<lparr>pool_started := True\<rparr>))))"

definition pool_Next :: "int \<Rightarrow> loop_pool \<Rightarrow> (nat option \<times> loop_pool) res" where
  "pool_Next tid p =
     assert_then (pool_tid p = tid)
       (assert_then (pool_started p)
         (if pool_loops p = [] then Inr (None, p)
          else if length (pool_loops p) \<le> pool_next p then Inl Undefined
          else
            let n = pool_next p + 1 in
            Inr (Some (pool_loops p ! pool_next p),
                 p\<lparr>pool_next := if length (pool_loops p) \<le> n then 0 else n\<rparr>)))"

fun pool_Nexts :: "int \<Rightarrow> nat \<Rightarrow> loop_pool \<Rightarrow> (nat option list \<times> loop_pool) res" where
  "pool_Nexts tid 0 p = Inr ([], p)"
| "pool_Nexts tid (Suc k) p =
     res_bind (pool_Next tid p) (\<lambda>(l, p'). res_bind (pool_Nexts tid k p') (\<lambda>(ls, p''). Inr (l # ls, p'')))"

lemma start_threads_eq: "start_threads i n ls p = p\<lparr>pool_loops := pool_loops p @ map ls [i..<i + n]\<rparr>"
proof (induction n arbitrary: i p)
  case (Suc n)
  have "map ls [i..<i + Suc n] = ls i # map ls [Suc i..<Suc i + n]" by (simp add: upt_rec)
  then show ?case using Suc by simp
qed simp

definition pool_ok :: "int \<Rightarrow> loop_pool \<Rightarrow> bool" where
  "pool_ok tid p \<longleftrightarrow> pool_started p \<and> pool_tid p = tid \<and> pool_next p < length (pool_loops p)"

lemma pool_Next_ok:
  assumes "pool_ok tid p"
  shows "pool_Next tid p = Inr (Some (pool_loops p ! pool_next p),
      p\<lparr>pool_next := (pool_next p + 1) mod length (pool_loops p)\<rparr>)"
    and "pool_ok tid (p\<lparr>pool_next := (pool_next p + 1) mod length (pool_loops p)\<rparr>)"
proof -
  have "length (pool_loops p) \<le> pool_next p + 1 \<longleftrightarrow> pool_next p + 1 = length (pool_loops p)"
    using assms by (auto simp: pool_ok_def)
  then show "pool_Next tid p = Inr (Some (pool_loops p ! pool_next p),
      p\<lparr>pool_next := (pool_next p + 1) mod length (pool_loops p)\<rparr>)"
    using assms by (auto simp: pool_Next_def pool_ok_def Let_def)
  show "pool_ok tid (p\<lparr>pool_next := (pool_next p + 1) mod length (pool_loops p)\<rparr>)"
    using assms by (auto simp: pool_ok_def intro: mod_less_divisor)
qed

lemma pool_Nexts_ok:
  "pool_ok tid p \<Longrightarrow> \<exists>p'. pool_Nexts tid k p = Inr (map (\<lambda>i. Some (pool_loops p ! ((pool_next p + i) mod length (pool_loops p)))) [0..<k], p')"
proof (induction k arbitrary: p)
  case (Suc k)
  let ?n = "length (pool_loops p)"
  let ?p = "p\<lparr>pool_next := (pool_next p + 1) mod ?n\<rparr>"
  note N = pool_Next_ok [OF Suc.prems]
  from Suc.IH [OF N(2)] obtain p' where
    p': "pool_Nexts tid k ?p = Inr (map (\<lambda>i. Some (pool_loops p ! (((pool_next p + 1) mod ?n + i) mod ?n))) [0..<k], p')"
    by auto
  have "map (\<lambda>i. Some (pool_loops p ! ((pool_next p + i) mod ?n))) [0..<Suc k] =
      Some (pool_loops p ! (pool_next p mod ?n)) # map (\<lambda>i. Some (pool_loops p ! ((pool_next p + Suc i) mod ?n))) [0..<k]"
    by (simp add: upt_conv_Cons map_Suc_upt [symmetric] del: upt_Suc)
  moreover have "pool_next p mod ?n = pool_next p" using Suc.prems by (simp add: pool_ok_def)
  moreover have "((pool_next p + 1) mod ?n + i) mod ?n = (pool_next p + Suc i) mod ?n" for i
    by (simp add: mod_add_left_eq)
  ultimately show ?case using N(1) p' by simp
qed simp

subsection \<open>Properties\<close>



text \<open>
  The pool deals its loops out in turn: after \<open>Start(n)\<close> with at least one thread, the
  \<open>k\<close>-th call of \<open>Next\<close> gives loop \<open>k mod n\<close>, and no access is out of range.
\<close>

lemma pool_round_robin:
  assumes "0 < n"
  shows "\<exists>p p'. pool_Start tid n ls (new_pool tid) = Inr p \<and>
    pool_Nexts tid k p = Inr (map (\<lambda>i. Some (ls (i mod n))) [0..<k], p')"
proof -
  let ?p = "(new_pool tid)\<lparr>pool_started := True, pool_loops := map ls [0..<n]\<rparr>"
  have start: "pool_Start tid n ls (new_pool tid) = Inr ?p"
    by (simp add: pool_Start_def new_pool_def start_threads_eq)
  have "pool_ok tid ?p" using assms by (simp add: pool_ok_def new_pool_def)
  from pool_Nexts_ok [OF this, of k] obtain p' where
    "pool_Nexts tid k ?p = Inr (map (\<lambda>i. Some (map ls [0..<n] ! (i mod n))) [0..<k], p')"
    by (auto simp: new_pool_def)
  moreover have "map ls [0..<n] ! (i mod n) = ls (i mod n)" for i using assms by simp
  ultimately show ?thesis using start by auto
qed

end
