(* ===== verification/TcpServer.thy ===== *)
theory TcpServer
  imports Acceptor LoopThreads
begin

section \<open>\<open>net/TcpServer\<close>\<close>

text \<open>
  The server lives in the loop of its acceptor and deals its connections out to the loops
  of its pool, or keeps them in its own. Its map holds each connection by name as the loop
  it lives in and its address there. \<open>RunInLoop\<close> on another loop queues the functor on that
  loop; the functors that reach back into the server (\<open>Remove\<close>, \<open>Listen_ready\<close>,
  \<open>Accept_ready\<close>) are run by \<open>server_run\<close>, those that stay in a loop by its closure
  environment. \<open>close_cb_\<close> of a connection is the last thing its handlers call, so that
  \<open>RemoveTcpConnection\<close> follows the handler that called it.
\<close>

subsection \<open>State\<close>

record 'c tcp_server =
  srv_loop :: nat
  srv_name :: string
  srv_ip_port :: string
  srv_acceptor :: acceptor
  srv_pool :: "loop_pool option"
  srv_connection_cb :: "'c option"
  srv_message_cb :: "'c option"
  srv_started :: "32 word"
  next_connid :: int
  connections :: "string \<rightharpoonup> nat \<times> nat"

type_synonym ('c, 'z, 'k) server_state = "'c tcp_server \<times> ('c, 'z, 'k) world"

definition new_server ::
  "'k kernel \<Rightarrow> nat \<Rightarrow> sockaddr_in \<Rightarrow> string \<Rightarrow> bool \<Rightarrow> ('c, 'z, 'k) world \<Rightarrow> ('c, 'z, 'k) server_state res" where
  "new_server K l addr name reuseport w =
     res_bind (IpPortString addr) (\<lambda>ip.
     res_bind (new_acceptor K l addr reuseport w) (\<lambda>(acc, w').
     Inr (\<lparr>srv_loop = l, srv_name = name, srv_ip_port = ip, srv_acceptor = acc, srv_pool = None,
           srv_connection_cb = None, srv_message_cb = None, srv_started = 0, next_connid = 1,
           connections = Map.empty\<rparr>, w')))"

text \<open>The functors that run inside one loop.\<close>

fun srv_other :: "(srv_closure, 'c, 'z) conn_env \<Rightarrow> srv_closure \<Rightarrow> (srv_closure, 'c, 'z) net_state \<Rightarrow>
    (srv_closure, 'c, 'z) net_state res" where
  "srv_other env (Establish a) s = EstablishConnection (loop_tid s) env a s"
| "srv_other env (Destroy a) s = DestroyConnection (loop_tid s) env a s"
| "srv_other env f s = Inl Undefined"

definition RunInLoop_of ::
  "(srv_closure, 'c, 'z) socket_answers \<Rightarrow> (srv_closure, 'c, 'z) conn_env \<Rightarrow> int \<Rightarrow> nat \<Rightarrow> srv_closure \<Rightarrow>
   ('c, 'z, 'k) world \<Rightarrow> ('c, 'z, 'k) world res" where
  "RunInLoop_of io env tid l f w =
     on_net l (RunInLoop (conn_closure_env (srv_other env) io env) tid (Closure (Other_closure f))) w"

definition QueueInLoop_of :: "int \<Rightarrow> nat \<Rightarrow> srv_closure \<Rightarrow> ('c, 'z, 'k) world \<Rightarrow> ('c, 'z, 'k) world res" where
  "QueueInLoop_of tid l f w = on_net l (\<lambda>s. Inr (QueueInLoop tid (Closure (Other_closure f)) s)) w"

subsection \<open>Connections\<close>

text \<open>The loop for the next connection; \<open>Next\<close> gives no loop when the pool has none, and
  the null pointer is then used.\<close>

definition next_loop :: "int \<Rightarrow> 'c tcp_server \<Rightarrow> (nat \<times> 'c tcp_server) res" where
  "next_loop tid srv =
     (case srv_pool srv of
        None \<Rightarrow> Inr (srv_loop srv, srv)
      | Some p \<Rightarrow>
          res_bind (pool_Next tid p) (\<lambda>(l, p').
          case l of None \<Rightarrow> Inl Undefined | Some l \<Rightarrow> Inr (l, srv\<lparr>srv_pool := Some p'\<rparr>)))"

definition INT_MAX :: int where "INT_MAX = 2147483647"

definition connection_name :: "'c tcp_server \<Rightarrow> string" where
  "connection_name srv = srv_name srv @ CHR ''#'' # to_string (next_connid srv)"

definition NewTcpConnection ::
  "'k kernel \<Rightarrow> (srv_closure, 'c, 'z) socket_answers \<Rightarrow> (srv_closure, 'c, 'z) conn_env \<Rightarrow> 'c \<Rightarrow> int \<Rightarrow>
   int \<Rightarrow> sockaddr_in \<Rightarrow> 'c tcp_server \<Rightarrow> ('c, 'z, 'k) world \<Rightarrow> ('c, 'z, 'k) server_state res" where
  "NewTcpConnection K io env remove_cb tid fd peer srv w =
     assert_then (IsInLoopThread tid (w_net w (srv_loop srv)))
       (res_bind (next_loop tid srv) (\<lambda>(l, srv).
        let conn_name = connection_name srv in
        if next_connid srv = INT_MAX then Inl Undefined
        else
          let srv = srv\<lparr>next_connid := next_connid srv + 1\<rparr>;
              (local, w1) = on_kern (LocalAddr K fd) w;
              a = w_next_conn w1; w2 = snd (on_kern (SetKeepAlive K fd True) (w1\<lparr>w_next_conn := a + 1\<rparr>)) in
          res_bind (on_net l (new_connection a conn_name fd local peer) w2) (\<lambda>w3.
          let srv = srv\<lparr>connections := (connections srv)(conn_name \<mapsto> (l, a))\<rparr> in
          res_bind (on_net l (SetConnectionCallBack (srv_connection_cb srv) a) w3) (\<lambda>w4.
          res_bind (on_net l (SetMessageCallBack (srv_message_cb srv) a) w4) (\<lambda>w5.
          res_bind (on_net l (SetCloseCallBack (Some remove_cb) a) w5) (\<lambda>w6.
          res_bind (RunInLoop_of io env tid l (Establish a) w6) (\<lambda>w7.
          Inr (srv, w7))))))))"

text \<open>The functor of \<open>RemoveTcpConnection\<close>, and the callback that runs or queues it.\<close>

definition RemoveInLoop ::
  "int \<Rightarrow> string \<Rightarrow> nat \<Rightarrow> nat \<Rightarrow> 'c tcp_server \<Rightarrow> ('c, 'z, 'k) world \<Rightarrow> ('c, 'z, 'k) server_state res" where
  "RemoveInLoop tid name l a srv w =
     assert_then (IsInLoopThread tid (w_net w (srv_loop srv)))
       (let srv = srv\<lparr>connections := (connections srv)(name := None)\<rparr> in
        res_bind (QueueInLoop_of tid l (Destroy a) w) (\<lambda>w'. Inr (srv, w')))"

definition RemoveTcpConnection ::
  "int \<Rightarrow> string \<Rightarrow> nat \<Rightarrow> nat \<Rightarrow> 'c tcp_server \<Rightarrow> ('c, 'z, 'k) world \<Rightarrow> ('c, 'z, 'k) server_state res" where
  "RemoveTcpConnection tid name l a srv w =
     (if IsInLoopThread tid (w_net w (srv_loop srv)) then RemoveInLoop tid name l a srv w
      else res_bind (QueueInLoop_of tid (srv_loop srv) (Remove name l a) w) (\<lambda>w'. Inr (srv, w')))"

subsection \<open>Start and end\<close>

definition server_Listen :: "'k kernel \<Rightarrow> int \<Rightarrow> 'c tcp_server \<Rightarrow> ('c, 'z, 'k) world \<Rightarrow> ('c, 'z, 'k) server_state res" where
  "server_Listen K tid srv w =
     res_bind (acceptor_Listen K tid (srv_acceptor srv) w) (\<lambda>(acc, w'). Inr (srv\<lparr>srv_acceptor := acc\<rparr>, w'))"

text \<open>\<open>Start(thread_num)\<close>; \<open>ls\<close> are the loops of the new threads.\<close>

definition server_Start ::
  "'k kernel \<Rightarrow> int \<Rightarrow> nat \<Rightarrow> (nat \<Rightarrow> nat) \<Rightarrow> 'c tcp_server \<Rightarrow> ('c, 'z, 'k) world \<Rightarrow> ('c, 'z, 'k) server_state res" where
  "server_Start K tid thread_num ls srv w =
     (let first = (srv_started srv = 0); srv = srv\<lparr>srv_started := srv_started srv + 1\<rparr> in
      if \<not> first then Inr (srv, w)
      else
        res_bind (if 0 < thread_num
                  then res_bind (pool_Start tid thread_num ls (new_pool tid)) (\<lambda>p. Inr (srv\<lparr>srv_pool := Some p\<rparr>))
                  else Inr srv) (\<lambda>srv.
        assert_then (\<not> listenning (srv_acceptor srv))
          (if IsInLoopThread tid (w_net w (srv_loop srv)) then server_Listen K tid srv w
           else res_bind (QueueInLoop_of tid (srv_loop srv) Listen_ready w) (\<lambda>w'. Inr (srv, w')))))"

text \<open>The destructor; \<open>order\<close> are the names as the map iterates over them.\<close>

fun destroy_all ::
  "(srv_closure, 'c, 'z) socket_answers \<Rightarrow> (srv_closure, 'c, 'z) conn_env \<Rightarrow> int \<Rightarrow> string list \<Rightarrow>
   'c tcp_server \<Rightarrow> ('c, 'z, 'k) world \<Rightarrow> ('c, 'z, 'k) world res" where
  "destroy_all io env tid [] srv w = Inr w"
| "destroy_all io env tid (name # order) srv w =
     (case connections srv name of
        None \<Rightarrow> destroy_all io env tid order srv w
      | Some (l, a) \<Rightarrow> res_bind (RunInLoop_of io env tid l (Destroy a) w) (destroy_all io env tid order srv))"

definition delete_server ::
  "'k kernel \<Rightarrow> (srv_closure, 'c, 'z) socket_answers \<Rightarrow> (srv_closure, 'c, 'z) conn_env \<Rightarrow> int \<Rightarrow> string list \<Rightarrow>
   'c tcp_server \<Rightarrow> ('c, 'z, 'k) world \<Rightarrow> ('c, 'z, 'k) world res" where
  "delete_server K io env tid order srv w =
     assert_then (IsInLoopThread tid (w_net w (srv_loop srv)))
       (res_bind (destroy_all io env tid order srv w) (delete_acceptor K tid (srv_acceptor srv)))"

text \<open>The functors of the server, run in its own loop.\<close>

fun server_run ::
  "'k kernel \<Rightarrow> (srv_closure, 'c, 'z) socket_answers \<Rightarrow> (srv_closure, 'c, 'z) conn_env \<Rightarrow> 'c \<Rightarrow> int \<Rightarrow>
   srv_closure \<Rightarrow> 'c tcp_server \<Rightarrow> ('c, 'z, 'k) world \<Rightarrow> ('c, 'z, 'k) server_state res" where
  "server_run K io env remove_cb tid Accept_ready srv w =
     res_bind (acceptor_HandleRead K tid (Some (NewTcpConnection K io env remove_cb tid)) (srv_acceptor srv) srv w)
       (\<lambda>(acc, srv', w'). Inr (srv'\<lparr>srv_acceptor := acc\<rparr>, w'))"
| "server_run K io env remove_cb tid Listen_ready srv w = server_Listen K tid srv w"
| "server_run K io env remove_cb tid (Remove name l a) srv w = RemoveInLoop tid name l a srv w"
| "server_run K io env remove_cb tid (Establish a) srv w = Inl Undefined"
| "server_run K io env remove_cb tid (Destroy a) srv w = Inl Undefined"

subsection \<open>Names\<close>

text \<open>Every name in the map was made with a number below the next one.\<close>

definition names_ok :: "'c tcp_server \<Rightarrow> bool" where
  "names_ok srv \<longleftrightarrow> 1 \<le> next_connid srv \<and>
     (\<forall>nm \<in> dom (connections srv). \<exists>k. k < next_connid srv \<and> nm = srv_name srv @ CHR ''#'' # to_string k)"

lemma names_fresh: "names_ok srv \<Longrightarrow> connections srv (connection_name srv) = None"
  by (auto simp: names_ok_def connection_name_def to_string_inj dom_def) (metis not_less_iff_gr_or_eq
      option.exhaust same_append_eq list.inject to_string_inj surj_pair)

lemma connection_name_inj:
  assumes "connection_name srv = srv_name srv @ CHR ''#'' # to_string k"
  shows "k = next_connid srv"
  using assms by (simp add: connection_name_def to_string_inj)

subsection \<open>One loop of the world\<close>

lemma on_net_Inr: "f (w_net w l) = Inr s \<Longrightarrow> on_net l f w = Inr (w\<lparr>w_net := (w_net w)(l := s)\<rparr>)"
  by (simp add: on_net_def)

lemma on_kern_net [simp]: "w_net (snd (on_kern f w)) = w_net w" "w_next_conn (snd (on_kern f w)) = w_next_conn w"
  "fst (on_kern f w) = fst (f (w_kern w))"
  by (simp_all add: on_kern_def split: prod.splits)

lemma RunInLoop_of_eq:
  "RunInLoop_of io env tid l f w =
     on_net l (\<lambda>s. if IsInLoopThread tid s then srv_other env f s
       else Inr (QueueInLoop tid (Closure (Other_closure f)) s)) w"
  by (simp add: RunInLoop_of_def RunInLoop_def on_net_def)

text \<open>Establishing it in its loop, or queueing that.\<close>

lemma establish_or_queue:
  assumes "conn_view a s c ch" "enabled False False ch" "conn_state c = kConnecting" "calm g env a" "keeps_channels env a"
  shows "\<exists>s' c'. (if IsInLoopThread tid s then srv_other env (Establish a) s
      else Inr (QueueInLoop tid (Closure (Other_closure (Establish a))) s)) = Inr s' \<and> chan_inv s' \<and> conns s' a = Some c' \<and>
    (if IsInLoopThread tid s
     then c' = c\<lparr>conn_state := kConnected\<rparr> \<and> epoll_interest s' (conn_sockfd c) = Some (EPOLLIN, conn_channel c)
     else c' = c \<and> pending_functors s' = pending_functors s @ [Closure (Other_closure (Establish a))])"
proof (cases "IsInLoopThread tid s")
  case True
  with establish_registers [OF assms] show ?thesis by auto
next
  case False
  from conn_viewD(1,2) [OF queue_view [OF assms(1)]] False show ?thesis by simp
qed

subsection \<open>A new connection\<close>

definition server_ready :: "int \<Rightarrow> 'c tcp_server \<Rightarrow> ('c, 'z, 'k) world \<Rightarrow> bool" where
  "server_ready tid srv w \<longleftrightarrow> names_ok srv \<and> next_connid srv < INT_MAX \<and> loop_tid (w_net w (srv_loop srv)) = tid \<and>
     (case srv_pool srv of None \<Rightarrow> True | Some p \<Rightarrow> pool_ok tid p)"

definition chosen_loop :: "'c tcp_server \<Rightarrow> nat" where
  "chosen_loop srv = (case srv_pool srv of None \<Rightarrow> srv_loop srv | Some p \<Rightarrow> pool_loops p ! pool_next p)"

lemma next_loop_eq:
  assumes "server_ready tid srv w"
  shows "\<exists>pl. next_loop tid srv = Inr (chosen_loop srv, srv\<lparr>srv_pool := pl\<rparr>) \<and>
    (case pl of None \<Rightarrow> srv_pool srv = None | Some p \<Rightarrow> srv_pool srv \<noteq> None \<and> pool_ok tid p)"
proof (cases "srv_pool srv")
  case None
  then show ?thesis by (intro exI [of _ None]) (simp add: next_loop_def chosen_loop_def)
next
  case (Some p)
  then have "pool_ok tid p" using assms by (simp add: server_ready_def)
  from pool_Next_ok [OF this] Some show ?thesis
    by (intro exI [of _ "Some (p\<lparr>pool_next := (pool_next p + 1) mod length (pool_loops p)\<rparr>)"])
      (simp add: next_loop_def chosen_loop_def)
qed

lemma names_ok_add:
  assumes "names_ok srv"
  shows "names_ok (srv\<lparr>srv_pool := pl, next_connid := next_connid srv + 1,
    connections := (connections srv)(connection_name srv \<mapsto> x)\<rparr>)"
proof -
  let ?made = "\<lambda>nm k. nm = srv_name srv @ CHR ''#'' # to_string k"
  have "\<exists>k. k < next_connid srv + 1 \<and> ?made nm k" if "connections srv nm \<noteq> None" for nm
  proof -
    obtain k where "k < next_connid srv" "?made nm k" using assms \<open>connections srv nm \<noteq> None\<close> by (auto simp: names_ok_def dom_def)
    then show ?thesis by (intro exI [of _ k]) simp
  qed
  moreover have "\<exists>k. k < next_connid srv + 1 \<and> ?made (connection_name srv) k"
    by (intro exI [of _ "next_connid srv"]) (simp add: connection_name_def)
  ultimately show ?thesis using assms by (simp add: names_ok_def dom_def)
qed

text \<open>\<open>NewTcpConnection\<close> once its loop has equipped the connection and established it, or has been told to.\<close>

lemma NewTcpConnection_run:
  assumes "server_ready tid srv w" "l = chosen_loop srv" "a = w_next_conn w"
    and s: "new_connection a (connection_name srv) fd (fst (LocalAddr K fd (w_kern w))) peer (w_net w l) = Inr s1"
      "SetConnectionCallBack (srv_connection_cb srv) a s1 = Inr s2" "SetMessageCallBack (srv_message_cb srv) a s2 = Inr s3"
      "SetCloseCallBack (Some remove_cb) a s3 = Inr s4"
      "(if IsInLoopThread tid s4 then srv_other env (Establish a) s4
        else Inr (QueueInLoop tid (Closure (Other_closure (Establish a))) s4)) = Inr s5"
  shows "\<exists>pl w0. NewTcpConnection K io env remove_cb tid fd peer srv w =
      Inr (srv\<lparr>srv_pool := pl, next_connid := next_connid srv + 1,
             connections := (connections srv)(connection_name srv \<mapsto> (l, a))\<rparr>, w0\<lparr>w_net := (w_net w)(l := s5)\<rparr>) \<and>
    w_next_conn w0 = a + 1 \<and> (case pl of None \<Rightarrow> srv_pool srv = None | Some p \<Rightarrow> srv_pool srv \<noteq> None \<and> pool_ok tid p)"
proof -
  let ?lo = "fst (LocalAddr K fd (w_kern w))"
  obtain pl where pl: "next_loop tid srv = Inr (l, srv\<lparr>srv_pool := pl\<rparr>)"
      "case pl of None \<Rightarrow> srv_pool srv = None | Some p \<Rightarrow> srv_pool srv \<noteq> None \<and> pool_ok tid p"
    using next_loop_eq [OF assms(1)] assms(2) by blast
  have ok: "next_connid srv \<noteq> INT_MAX" "IsInLoopThread tid (w_net w (srv_loop srv))"
    using assms(1) by (auto simp: server_ready_def IsInLoopThread_def)
  obtain w1 where w1: "on_kern (LocalAddr K fd) w = (?lo, w1)" "w_net w1 = w_net w" "w_next_conn w1 = a"
    using on_kern_net [of "LocalAddr K fd" w] assms(3) by (metis prod.collapse)
  define w0 where "w0 = snd (on_kern (SetKeepAlive K fd True) (w1\<lparr>w_next_conn := a + 1\<rparr>))"
  have w0: "w_net w0 = w_net w" "w_next_conn w0 = a + 1" by (simp_all add: w0_def w1)
  have "NewTcpConnection K io env remove_cb tid fd peer srv w =
      Inr (srv\<lparr>srv_pool := pl, next_connid := next_connid srv + 1,
             connections := (connections srv)(connection_name srv \<mapsto> (l, a))\<rparr>, w0\<lparr>w_net := (w_net w)(l := s5)\<rparr>)"
    using ok pl(1) w1 s
    by (cases "IsInLoopThread tid s4") (simp_all add: NewTcpConnection_def Let_def RunInLoop_of_eq connection_name_def [of "srv\<lparr>srv_pool := pl\<rparr>"]
        connection_name_def [of srv, symmetric] w0_def [symmetric, simplified] w0 on_net_def)
  with w0 pl(2) show ?thesis by (intro exI [of _ pl] exI [of _ w0]) simp
qed

text \<open>
  C17: A new connection is filed before it lives. \<open>NewTcpConnection\<close> fails no assertion; the name
  it makes is new, no connection is replaced and the names stay distinct; the
  connection, with the addresses of the two ends and the callbacks of the server, goes
  into the loop whose turn it is and no other loop changes. In the thread of that loop it
  is established at once, else exactly one functor that does it is queued there.
\<close>

theorem new_connection_is_filed:
  assumes "server_ready tid srv w" "l = chosen_loop srv" "a = w_next_conn w" "fresh_fd fd (w_net w l)"
    and "calm g env a" "keeps_channels env a"
  shows "\<exists>srv' w' c. NewTcpConnection K io env remove_cb tid fd peer srv w = Inr (srv', w') \<and>
    connections srv (connection_name srv) = None \<and>
    connections srv' = (connections srv)(connection_name srv \<mapsto> (l, a)) \<and> names_ok srv' \<and>
    connection_name srv' \<noteq> connection_name srv \<and> w_next_conn w' = a + 1 \<and>
    (\<forall>m. m \<noteq> l \<longrightarrow> w_net w' m = w_net w m) \<and> chan_inv (w_net w' l) \<and> conns (w_net w' l) a = Some c \<and>
    begins c (connection_name srv) fd (fst (LocalAddr K fd (w_kern w))) peer
      (srv_connection_cb srv) (srv_message_cb srv) remove_cb \<and>
    (if IsInLoopThread tid (w_net w l)
     then connected c \<and> epoll_interest (w_net w' l) fd = Some (EPOLLIN, conn_channel c)
     else conn_state c = kConnecting \<and> pending_functors (w_net w' l) =
       pending_functors (w_net w l) @ [Closure (Other_closure (Establish a))])"
proof -
  let ?nm = "connection_name srv" and ?lo = "fst (LocalAddr K fd (w_kern w))"
  have ok: "names_ok srv" using assms(1) by (simp add: server_ready_def)
  obtain s1 s2 s3 s4 c ch where s: "new_connection a ?nm fd ?lo peer (w_net w l) = Inr s1"
      "SetConnectionCallBack (srv_connection_cb srv) a s1 = Inr s2" "SetMessageCallBack (srv_message_cb srv) a s2 = Inr s3"
      "SetCloseCallBack (Some remove_cb) a s3 = Inr s4"
    and view: "conn_view a s4 c ch" "enabled False False ch" "conn_state c = kConnecting"
    and c: "begins c ?nm fd ?lo peer (srv_connection_cb srv) (srv_message_cb srv) remove_cb"
    and same: "loop_tid s4 = loop_tid (w_net w l)" "pending_functors s4 = pending_functors (w_net w l)"
    using equip_connection [OF assms(4)] by blast
  obtain s5 c' where s5: "(if IsInLoopThread tid s4 then srv_other env (Establish a) s4
        else Inr (QueueInLoop tid (Closure (Other_closure (Establish a))) s4)) = Inr s5"
      "chan_inv s5" "conns s5 a = Some c'"
      "if IsInLoopThread tid s4
       then c' = c\<lparr>conn_state := kConnected\<rparr> \<and> epoll_interest s5 (conn_sockfd c) = Some (EPOLLIN, conn_channel c)
       else c' = c \<and> pending_functors s5 = pending_functors s4 @ [Closure (Other_closure (Establish a))]"
    using establish_or_queue [OF view assms(5,6)] by blast
  obtain pl w0 where run: "NewTcpConnection K io env remove_cb tid fd peer srv w =
      Inr (srv\<lparr>srv_pool := pl, next_connid := next_connid srv + 1,
             connections := (connections srv)(?nm \<mapsto> (l, a))\<rparr>, w0\<lparr>w_net := (w_net w)(l := s5)\<rparr>)" "w_next_conn w0 = a + 1"
    using NewTcpConnection_run [OF assms(1-3) s s5(1), of io] by blast
  let ?srv = "srv\<lparr>srv_pool := pl, next_connid := next_connid srv + 1, connections := (connections srv)(?nm \<mapsto> (l, a))\<rparr>"
  have "connection_name ?srv \<noteq> ?nm" by (simp add: connection_name_def to_string_inj)
  moreover have "IsInLoopThread tid s4 = IsInLoopThread tid (w_net w l)" by (simp add: IsInLoopThread_def same)
  ultimately show ?thesis
    using run s5 c view(3) same names_fresh [OF ok] names_ok_add [OF ok, where pl = pl and x = "(l, a)"]
    by (intro exI [of _ ?srv] exI [of _ "w0\<lparr>w_net := (w_net w)(l := s5)\<rparr>"] exI [of _ c'])
      (auto simp: connected_def begins_def conn_load_def)
qed

text \<open>A server in loop 0 of the world of the acceptor, and one that deals to two loops.\<close>

definition demo_server :: "nat tcp_server" where
  "demo_server =
     \<lparr>srv_loop = 0, srv_name = ''srv'', srv_ip_port = ''0.0.0.0:80'',
      srv_acceptor = \<lparr>acc_loop = 0, acc_socket = 3, acc_channel = 1, listenning = True, idle_fd = 4\<rparr>,
      srv_pool = None, srv_connection_cb = Some 0, srv_message_cb = Some 1, srv_started = 1, next_connid = 1,
      connections = Map.empty\<rparr>"

definition demo_io :: "(srv_closure, nat, nat) socket_answers" where
  "demo_io = \<lparr>read_on = (\<lambda>a s. Read_error), write_on = (\<lambda>a s. Write_error EWOULDBLOCK)\<rparr>"

lemma demo_fresh: "fresh_fd 9 (w_net demo_world l)"
  by (simp add: fresh_fd_def demo_world_def empty_net_def chan_inv_def)

theorem new_connection_is_filed_witness:
  "\<exists>srv' w' c. NewTcpConnection count_kernel demo_io count_env 3 7 9 (InetAddr_port 81 False) demo_server demo_world = Inr (srv', w') \<and>
     connections srv' (connection_name demo_server) = Some (0, 0) \<and> conns (w_net w' 0) 0 = Some c \<and> connected c"
proof -
  have ready: "server_ready 7 demo_server demo_world"
    by (simp add: server_ready_def names_ok_def demo_server_def demo_world_def empty_net_def INT_MAX_def)
  have l: "0 = chosen_loop demo_server" by (simp add: chosen_loop_def demo_server_def)
  have a: "0 = w_next_conn demo_world" by (simp add: demo_world_def)
  have "IsInLoopThread 7 (w_net demo_world 0)" by (simp add: IsInLoopThread_def demo_world_def empty_net_def)
  with new_connection_is_filed [OF ready l a demo_fresh count_env_calm count_env_channels, of count_kernel demo_io 3 "InetAddr_port 81 False"]
  show ?thesis by auto
qed

subsection \<open>The end of a connection\<close>

text \<open>
  A connection leaves the server and then its loop. \<open>RemoveTcpConnection\<close> never fails. In the
  thread of the server it erases the name at once; from any other thread it only queues
  the removal there, and running that does the same. Either way no other name is lost,
  and one functor is queued last on the loop of the connection, whose run takes the
  connection's channel out of the loop and of epoll: it runs after all that the
  connection had queued before.
\<close>

lemma removed_connection_ends:
  fixes w :: "('c, 'z, 'k) world"
  assumes "conn_view a (w_net w l) c ch" "ch_owned ch" "calm g env a" "keeps_channels env a"
    and "loop_tid (w_net w (srv_loop srv)) = main"
  shows "\<exists>w1 srv' w'.
    (if tid = main then w1 = w \<and> RemoveTcpConnection tid nm l a srv w = Inr (srv', w')
     else RemoveTcpConnection tid nm l a srv w = Inr (srv, w1) \<and>
       pending_functors (w_net w1 (srv_loop srv)) =
         pending_functors (w_net w (srv_loop srv)) @ [Closure (Other_closure (Remove nm l a))] \<and>
       server_run K io env r main (Remove nm l a) srv w1 = Inr (srv', w')) \<and>
    connections srv' = (connections srv)(nm := None) \<and>
    pending_functors (w_net w' l) = pending_functors (w_net w1 l) @ [Closure (Other_closure (Destroy a))] \<and>
    conn_view a (w_net w' l) c ch \<and>
    (\<exists>s. srv_other env (Destroy a) (w_net w' l) = Inr s \<and> chan_inv s \<and> conn_channel c \<notin> channels s \<and>
      epoll_interest s (conn_sockfd c) = None \<and> conns s a = Some (c\<lparr>conn_state := kDisconnected\<rparr>))"
proof -
  define enq where "enq t m f w = w\<lparr>w_net := (w_net w)(m := QueueInLoop t (Closure (Other_closure f)) (w_net w m))\<rparr>"
    for t m f and w :: "('c, 'z, 'k) world"
  have queue: "QueueInLoop_of t m f u = Inr (enq t m f u)" for t m f u
    by (simp add: QueueInLoop_of_def on_net_def enq_def)
  have view: "conn_view a (w_net (enq t m f u) l) c ch" if "conn_view a (w_net u l) c ch" for t m f u
    using that by (auto simp: enq_def queue_view)
  define w1 where "w1 = (if tid = main then w else enq tid (srv_loop srv) (Remove nm l a) w)"
  have main: "loop_tid (w_net w1 (srv_loop srv)) = main" using assms(5) by (simp add: w1_def enq_def)
  define srv' where "srv' = srv\<lparr>connections := (connections srv)(nm := None)\<rparr>"
  have remove: "RemoveInLoop main nm l a srv w1 = Inr (srv', enq main l (Destroy a) w1)"
    using main by (simp add: RemoveInLoop_def IsInLoopThread_def queue srv'_def)
  have v1: "conn_view a (w_net w1 l) c ch" using assms(1) view by (simp add: w1_def)
  note v2 = view [OF v1, of main l "Destroy a"]
  have "enabled (ReadEnabled ch) (WriteEnabled ch) ch" by (simp add: enabled_def)
  from DestroyConnection_view [OF v2 assms(3) this assms(2,4)] obtain s where
    "srv_other env (Destroy a) (w_net (enq main l (Destroy a) w1) l) = Inr s" "chan_inv s" "conn_channel c \<notin> channels s"
    "epoll_interest s (conn_sockfd c) = None" "conns s a = Some (c\<lparr>conn_state := kDisconnected\<rparr>)"
    by auto
  moreover have "if tid = main then w1 = w \<and> RemoveTcpConnection tid nm l a srv w = Inr (srv', enq main l (Destroy a) w1)
     else RemoveTcpConnection tid nm l a srv w = Inr (srv, w1) \<and>
       pending_functors (w_net w1 (srv_loop srv)) =
         pending_functors (w_net w (srv_loop srv)) @ [Closure (Other_closure (Remove nm l a))] \<and>
       server_run K io env r main (Remove nm l a) srv w1 = Inr (srv', enq main l (Destroy a) w1)"
    using remove assms(5) by (auto simp: RemoveTcpConnection_def IsInLoopThread_def queue w1_def) (simp_all add: enq_def)
  moreover have "pending_functors (w_net (enq main l (Destroy a) w1) l) =
      pending_functors (w_net w1 l) @ [Closure (Other_closure (Destroy a))]"
    by (simp add: enq_def)
  ultimately show ?thesis using v2
    by (intro exI [of _ w1] exI [of _ srv'] exI [of _ "enq main l (Destroy a) w1"]) (auto simp: srv'_def)
qed

end
