(* ===== verification/Footprint.thy ===== *)
theory Footprint
  imports TcpConnection
begin

section \<open>What the handlers of a connection leave alone\<close>

text \<open>
  A loop holds many connections. Each handler changes one of them: its record, its
  channel, its descriptor in epoll and on the wire, and it queues only functors of its
  own. So a property of one connection is kept while the loop serves the others, which
  is what puts the theorems about one connection to use in a server with many.
\<close>

subsection \<open>One connection of a loop\<close>

text \<open>An identity: address, channel, descriptor and name. The connection has it, and its channel
  is there; nobody has set a low water mark callback.\<close>

type_synonym conn_id = "nat \<times> nat \<times> int \<times> string"

fun has_id :: "conn_id \<Rightarrow> ('u, 'c, 'z) net_state \<Rightarrow> bool" where
  "has_id (a, k, fd, nm) s \<longleftrightarrow>
     (case conns s a of
        None \<Rightarrow> False
      | Some c \<Rightarrow> conn_channel c = k \<and> conn_sockfd c = fd \<and> conn_name c = nm \<and> low_watermark_cb c = None \<and>
          (case chan_store s k of None \<Rightarrow> False | Some ch \<Rightarrow> ch_fd ch = fd \<and> ch_owned ch))"

fun own_functor :: "nat \<Rightarrow> 'u closure \<Rightarrow> bool" where
  "own_functor a (Conn_SendInLoop b m) \<longleftrightarrow> b = a"
| "own_functor a (Conn_ShutdownInLoop b) \<longleftrightarrow> b = a"
| "own_functor a (Conn_ForceCloseInLoop b) \<longleftrightarrow> b = a"
| "own_functor a f \<longleftrightarrow> False"

definition queues_own :: "nat \<Rightarrow> ('u, 'c, 'z) net_state \<Rightarrow> ('u, 'c, 'z) net_state \<Rightarrow> bool" where
  "queues_own a s s' \<longleftrightarrow>
     (\<exists>fs. pending_functors s' = pending_functors s @ map Closure fs \<and> (\<forall>f \<in> set fs. own_functor a f))"

fun frame :: "conn_id \<Rightarrow> ('u, 'c, 'z) net_state \<Rightarrow> ('u, 'c, 'z) net_state \<Rightarrow> bool" where
  "frame (a, k, fd, nm) s s' \<longleftrightarrow>
     loop_tid s' = loop_tid s \<and> chan_next s' = chan_next s \<and>
     (\<forall>b. b \<noteq> a \<longrightarrow> conns s' b = conns s b) \<and>
     (\<forall>j. j \<noteq> k \<longrightarrow> chan_store s' j = chan_store s j \<and> (j \<in> channels s' \<longleftrightarrow> j \<in> channels s)) \<and>
     (\<forall>d. d \<noteq> fd \<longrightarrow> epoll_interest s' d = epoll_interest s d \<and> wire d (socket_log s') = wire d (socket_log s))"

fun elsewhere :: "conn_id \<Rightarrow> ('u, 'c, 'z) net_state \<Rightarrow> ('u, 'c, 'z) net_state \<Rightarrow> bool" where
  "elsewhere (a, k, fd, nm) s s' \<longleftrightarrow> frame (a, k, fd, nm) s s' \<and> queues_own a s s'"

definition touches :: "conn_id \<Rightarrow> ('u, 'c, 'z) net_state \<Rightarrow> ('u, 'c, 'z) net_state res \<Rightarrow> bool" where
  "touches i s x \<longleftrightarrow> (has_id i s \<longrightarrow> (\<forall>s'. x = Inr s' \<longrightarrow> has_id i s' \<and> elsewhere i s s'))"

named_theorems touch "operations that change one connection of a loop only"

lemma touchesD: "touches i s (Inr s') \<Longrightarrow> has_id i s \<Longrightarrow> has_id i s' \<and> elsewhere i s s'"
  by (simp add: touches_def)

lemma touchesI:
  assumes "\<And>c ch s'. conns s a = Some c \<Longrightarrow> conn_channel c = k \<Longrightarrow> conn_sockfd c = fd \<Longrightarrow> conn_name c = nm \<Longrightarrow>
      low_watermark_cb c = None \<Longrightarrow> chan_store s k = Some ch \<Longrightarrow> ch_fd ch = fd \<Longrightarrow> ch_owned ch \<Longrightarrow> x = Inr s' \<Longrightarrow>
      has_id (a, k, fd, nm) s' \<and> elsewhere (a, k, fd, nm) s s'"
  shows "touches (a, k, fd, nm) s x"
  unfolding touches_def
proof (intro impI allI)
  fix s' assume "has_id (a, k, fd, nm) s" "x = Inr s'"
  then obtain c ch where "conns s a = Some c" "conn_channel c = k" "conn_sockfd c = fd" "conn_name c = nm"
      "low_watermark_cb c = None" "chan_store s k = Some ch" "ch_fd ch = fd" "ch_owned ch"
    by (auto split: option.splits)
  with assms \<open>x = Inr s'\<close> show "has_id (a, k, fd, nm) s' \<and> elsewhere (a, k, fd, nm) s s'" by blast
qed

lemma queues_own_refl [simp]: "queues_own a s s"
  by (auto simp: queues_own_def intro: exI [of _ "[]"])

lemma queues_own_trans: "queues_own a s t \<Longrightarrow> queues_own a t u \<Longrightarrow> queues_own a s u"
  unfolding queues_own_def by (elim exE conjE, rule_tac x = "fs @ fsa" in exI) auto

lemma elsewhere_trans: "elsewhere i s t \<Longrightarrow> elsewhere i t u \<Longrightarrow> elsewhere i s u"
  by (cases i) (auto intro: queues_own_trans)

lemma touches_Inr [touch]: "touches i s (Inr s)"
  by (cases i) (simp add: touches_def)

lemma touches_Inl [touch]: "touches i s (Inl e)"
  by (simp add: touches_def)

lemma touches_bind [touch]:
  assumes "touches i s m" "\<And>t. has_id i s \<Longrightarrow> has_id i t \<Longrightarrow> touches i t (f t)"
  shows "touches i s (res_bind m f)"
proof (cases m)
  case (Inr t)
  with assms show ?thesis unfolding touches_def by (auto intro: elsewhere_trans simp del: elsewhere.simps)
qed (simp add: touches_def)

lemma touches_value [touch]: "(\<And>x. m = Inr x \<Longrightarrow> touches i s (f x)) \<Longrightarrow> touches i s (res_bind m f)"
  by (cases m) (auto simp: touches_def)

lemma touches_assert [touch]: "touches i s x \<Longrightarrow> touches i s (assert_then b x)"
  by (auto simp: touches_def assert_then.simps split: if_splits)

lemma touches_if [touch]: "(b \<Longrightarrow> touches i s x) \<Longrightarrow> (\<not> b \<Longrightarrow> touches i s y) \<Longrightarrow> touches i s (if b then x else y)"
  by simp

text \<open>Reading the connection back: its fixed parts are those of the identity.\<close>

lemma touches_with_conn [touch]:
  "(\<And>c. conns s a = Some c \<Longrightarrow> conn_channel c = k \<Longrightarrow> conn_sockfd c = fd \<Longrightarrow> low_watermark_cb c = None \<Longrightarrow>
      touches (a, k, fd, nm) s (f c)) \<Longrightarrow> touches (a, k, fd, nm) s (with_conn a s f)"
  by (auto simp: touches_def with_conn_def split: option.splits)

lemma touches_conn_writing [touch]:
  "(\<And>w. touches i s (f w)) \<Longrightarrow> touches i s (conn_writing c s f)"
  by (auto simp: touches_def conn_writing_def with_chan_def split: option.splits)

lemma touches_upd_conn [touch]:
  assumes "\<And>c. conn_channel (g c) = conn_channel c" "\<And>c. conn_sockfd (g c) = conn_sockfd c"
    "\<And>c. conn_name (g c) = conn_name c" "\<And>c. low_watermark_cb (g c) = low_watermark_cb c"
  shows "touches (a, k, fd, nm) s (upd_conn g a s)"
  using assms by (auto simp: touches_def upd_conn_def with_conn_def queues_own_def split: option.splits)

lemma touches_upd_chan:
  assumes "\<And>c. ch_fd (g c) = ch_fd c" "\<And>c. ch_owned (g c) = ch_owned c"
  shows "touches (a, k, fd, nm) s (upd_chan g k s)"
proof (rule touchesI)
  fix c ch s'
  assume "conns s a = Some c" "conn_channel c = k" "conn_sockfd c = fd" "conn_name c = nm" "low_watermark_cb c = None"
    and ch: "chan_store s k = Some ch" "ch_fd ch = fd" "ch_owned ch" "upd_chan g k s = Inr s'"
  moreover from ch assms have "s' = s\<lparr>chan_store := (chan_store s)(k \<mapsto> g ch)\<rparr>"
    by (simp add: upd_chan_def with_chan_def set_chan_def)
  ultimately show "has_id (a, k, fd, nm) s' \<and> elsewhere (a, k, fd, nm) s s'" using assms by (simp add: queues_own_def)
qed

lemma touches_with_chan [touch]:
  "(\<And>ch. chan_store s k = Some ch \<Longrightarrow> touches (a, k, fd, nm) s (f ch)) \<Longrightarrow> touches (a, k, fd, nm) s (with_chan k s f)"
  by (cases "chan_store s k") (simp_all add: with_chan_def touches_Inl)

lemma touches_UpdateChannel: "touches (a, k, fd, nm) s (UpdateChannel t k s)"
proof -
  have "touches (a, k, fd, nm) s (Epoller_UpdateChannel t k ch s)" if "chan_store s k = Some ch" for ch
    by (rule touchesI) (use that in \<open>auto simp: Epoller_UpdateChannel_def assert_then.simps queues_own_def split: if_splits\<close>)
  moreover have "touches (a, k, fd, nm) s (Epoller_AddChannel t k ch (s\<lparr>channels := insert k (channels s)\<rparr>))"
    if "chan_store s k = Some ch" for ch
    by (rule touchesI) (use that in \<open>auto simp: Epoller_AddChannel_def assert_then.simps queues_own_def split: if_splits\<close>)
  ultimately show ?thesis unfolding UpdateChannel_def AddChannel_def by (intro touch)
qed

lemma touches_set_events: "touches (a, k, fd, nm) s (set_events g t k s)"
  unfolding set_events_def by (intro touches_bind touches_upd_chan touches_UpdateChannel) simp_all

lemma touches_channel_ops [touch]:
  "touches (a, k, fd, nm) s (EnableRead t k s)" "touches (a, k, fd, nm) s (DisableRead t k s)"
  "touches (a, k, fd, nm) s (EnableWrite t k s)" "touches (a, k, fd, nm) s (DisableWrite t k s)"
  "touches (a, k, fd, nm) s (DisableReadWrite t k s)"
  by (simp_all add: EnableRead_def DisableRead_def EnableWrite_def DisableWrite_def DisableReadWrite_def touches_set_events)

lemma Channel_Close_owned:
  assumes "chan_store s k = Some ch" "ch_owned ch"
  shows "Channel_Close t k s = assert_then (ch_events ch = 0) (assert_then (IsInLoopThread t s)
    (Inr (s\<lparr>chan_store := (chan_store s)(k \<mapsto> ch\<lparr>ch_read_cb := None, ch_write_cb := None, ch_error_cb := None\<rparr>),
            channels := channels s - {k}, epoll_interest := (epoll_interest s)(ch_fd ch := None)\<rparr>)))"
  using assms by (simp add: Channel_Close_def RemoveChannel_def release_channel_def loop_op_defs)

lemma touches_Channel_Close [touch]: "touches (a, k, fd, nm) s (Channel_Close t k s)"
proof (cases "has_id (a, k, fd, nm) s")
  case True
  then obtain ch where "chan_store s k = Some ch" "ch_owned ch" "ch_fd ch = fd" by (auto split: option.splits)
  with True show ?thesis
    by (auto simp: touches_def Channel_Close_owned assert_then.simps queues_own_def split: option.splits)
qed (simp add: touches_def)

lemma touches_Tie [touch]: "touches (a, k, fd, nm) s (Tie p k s)"
  unfolding Tie_def by (intro touches_upd_chan) simp_all

lemma touches_log [touch]:
  "touches (a, k, fd, nm) s (Inr (log_socket (Wrote fd bytes) s))" "touches (a, k, fd, nm) s (Inr (log_socket (Shut_wr fd) s))"
  by (auto simp: touches_def log_socket_def queues_own_def split: option.splits)

lemma touches_queue [touch]: "own_functor a f \<Longrightarrow> touches (a, k, fd, nm) s (Inr (QueueInLoop t (Closure f) s))"
  by (auto simp: touches_def queues_own_def QueueInLoop_def Push_functor_def WakeUp_def Let_def
      intro: exI [of _ "[f]"] split: option.splits)

subsection \<open>Callbacks that do other things\<close>

text \<open>What the loop and its connections are made of; a bystander changes nothing of it, and
  \<open>g\<close> counts its calls of \<open>close_cb_\<close>.\<close>

definition same_net :: "('u, 'c, 'z) net_state \<Rightarrow> ('u, 'c, 'z) net_state \<Rightarrow> bool" where
  "same_net s s' \<longleftrightarrow> loop_tid s' = loop_tid s \<and> conns s' = conns s \<and> chan_store s' = chan_store s \<and>
     channels s' = channels s \<and> chan_next s' = chan_next s \<and> epoll_interest s' = epoll_interest s \<and>
     socket_log s' = socket_log s \<and> pending_functors s' = pending_functors s"

definition bystander :: "('z \<Rightarrow> nat) \<Rightarrow> ('u, 'c, 'z) conn_env \<Rightarrow> bool" where
  "bystander g env \<longleftrightarrow> (\<forall>ev f a s. \<exists>s'. env ev f a s = Inr s' \<and> same_net s s' \<and>
     g (net.more s') = g (net.more s) + (if ev = On_close then 1 else 0))"

lemma bystander_calm: "bystander g env \<Longrightarrow> calm g env a"
  unfolding bystander_def calm_def leaves_def same_net_def by (metis conn_view_cong)

lemma bystander_keeps: "bystander g env \<Longrightarrow> keeps_channels env a"
  unfolding bystander_def keeps_channels_def same_net_def by (metis order_refl sum.inject(2))

lemma touches_env: "bystander g env \<Longrightarrow> touches i s (env ev f b s)"
proof (cases i)
  case (fields a k fd nm)
  assume "bystander g env"
  then obtain s' where "env ev f b s = Inr s'" "same_net s s'" unfolding bystander_def by metis
  with fields show ?thesis by (auto simp: touches_def same_net_def queues_own_def split: option.splits)
qed

lemma touches_call_cb: "bystander g env \<Longrightarrow> touches i s (call_cb env ev cb b s)"
  by (simp add: call_cb_def touches_Inl touches_env split: option.splits)

lemma touches_watermark: "bystander g env \<Longrightarrow> touches (a, k, fd, nm) s (watermark_closure env (Conn_high_watermark a n) s)"
  by (auto intro!: touch touches_call_cb)

declare has_id.simps [simp del] frame.simps [simp del] elsewhere.simps [simp del]

subsection \<open>The handlers\<close>

lemma touches_HandleClose [touch]:
  assumes "bystander g env"
  shows "touches (a, k, fd, nm) s (HandleClose t env a s)"
  unfolding HandleClose_def by (intro touch touches_call_cb [OF assms] | simp)+

lemma touches_ShutdownInLoop [touch]: "touches (a, k, fd, nm) s (ShutdownInLoop t a s)"
  unfolding ShutdownInLoop_def by (intro touch | simp)+

lemma touches_Shutdown [touch]: "touches (a, k, fd, nm) s (Shutdown t a s)"
  unfolding Shutdown_def by (intro touch | simp)+

lemma touches_ForceClose [touch]: "touches (a, k, fd, nm) s (ForceClose t a s)"
  unfolding ForceClose_def by (intro touch | simp)+

lemma touches_ForceCloseInLoop [touch]:
  assumes "bystander g env"
  shows "touches (a, k, fd, nm) s (ForceCloseInLoop t env a s)"
  unfolding ForceCloseInLoop_def by (intro touch touches_HandleClose [OF assms] | simp)+

lemma touches_conn_HandleRead [touch]:
  assumes "bystander g env"
  shows "touches (a, k, fd, nm) s (conn_HandleRead t env x a s)"
  unfolding conn_HandleRead_def HandleError_def
  by (intro touch touches_HandleClose [OF assms] touches_call_cb [OF assms] | clarsimp)+

text \<open>A step that cannot fail, then the rest.\<close>

lemma touches_via:
  assumes "touches i s (Inr t)" "has_id i t \<Longrightarrow> touches i t x"
  shows "touches i s x"
  unfolding touches_def
proof (intro impI allI)
  fix s' assume i: "has_id i s" and s': "x = Inr s'"
  note t = touchesD [OF assms(1) i]
  from assms(2) t have "touches i t (Inr s')" unfolding s' by blast
  from touchesD [OF this] t show "has_id i s' \<and> elsewhere i s s'" using elsewhere_trans by blast
qed

lemma touches_conn_HandleWrite:
  fixes env :: "('u, 'c, 'z) conn_env" and s :: "('u, 'c, 'z) net_state"
  assumes "bystander g env"
  shows "touches (a, k, fd, nm) s (conn_HandleWrite t env w a s)"
proof -
  have flushed: "touches (a, k, fd, nm) s
      (res_bind (Release n (output_buf c)) (\<lambda>b. res_bind (upd_conn (\<lambda>c. c\<lparr>output_buf := b\<rparr>) a s) (\<lambda>s2.
        if ReadableBytes b \<noteq> 0 then Inr s2
        else res_bind (DisableWrite t k s2) (\<lambda>s3.
          res_bind (if conn_state c = kDisconnecting then ShutdownInLoop t a s3 else Inr s3) (\<lambda>s5.
          if conn_state c = kDisconnected then HandleClose t env a s5 else Inr s5)))))" for n and c :: "'c connection" and s :: "('u, 'c, 'z) net_state"
    by (intro touch touches_HandleClose [OF assms] | simp)+
  show ?thesis
  proof (cases w)
    case (Write_ok n)
    show ?thesis unfolding conn_HandleWrite_def write_effect_def Write_ok write_answer.case Let_def
    proof (intro touches_assert touches_with_conn touches_conn_writing touches_if touches_Inr)
      fix c :: "'c connection"
      assume c: "conn_channel c = k" "conn_sockfd c = fd" "low_watermark_cb c = None"
      let ?s = "log_socket (Wrote (conn_sockfd c) (take n (contents (output_buf c)))) s"
      show "touches (a, k, fd, nm) s (Inr ?s)" unfolding c(2) by (rule touches_log)
      show "touches (a, k, fd, nm) s
         (res_bind (Release n (output_buf c)) (\<lambda>b. res_bind (upd_conn (\<lambda>c. c\<lparr>output_buf := b\<rparr>) a ?s) (\<lambda>s2.
          if ReadableBytes b \<noteq> 0 then Inr s2
          else res_bind (DisableWrite t (conn_channel c) s2) (\<lambda>s3.
            res_bind (if conn_state c = kDisconnecting
                      then ShutdownInLoop t a (if low_watermark_cb c \<noteq> None then queue_low_watermark t a s3 else s3)
                      else Inr (if low_watermark_cb c \<noteq> None then queue_low_watermark t a s3 else s3)) (\<lambda>s5.
            if conn_state c = kDisconnected then HandleClose t env a s5 else Inr s5)))))"
        unfolding c simp_thms if_False by (rule touches_via [OF touches_log(1) flushed])
    qed
  next
    case (Write_error e)
    then show ?thesis unfolding conn_HandleWrite_def by (intro touch | simp)+
  qed
qed

lemma touches_send_direct:
  assumes "send_direct t w a m s = Inr (n, r, e, s1)"
  shows "touches (a, k, fd, nm) s (Inr s1)"
proof (cases "has_id (a, k, fd, nm) s")
  case True
  then obtain c ch where "conns s a = Some c" "conn_channel c = k" "conn_sockfd c = fd" "low_watermark_cb c = None"
      "chan_store s k = Some ch"
    by (auto simp: has_id.simps split: option.splits)
  with assms have "s1 = s \<or> s1 = log_socket (Wrote fd (take n m)) s"
    by (auto simp: send_direct_def with_conn_def conn_writing_def with_chan_def write_effect_def Let_def
        split: if_splits write_answer.splits)
  then show ?thesis by (auto simp: touches_log touches_Inr)
qed (simp add: touches_def)

lemma touches_send_buffered:
  assumes "bystander g env" "IsInLoopThread t s"
  shows "touches (a, k, fd, nm) s (send_buffered t env a m n r s)"
  unfolding send_buffered_def RunInLoop_def Let_def if_P [OF assms(2)] run_functor.simps
  by (intro touch touches_watermark [OF assms(1)] | simp)+

lemma touches_SendInLoop:
  assumes "bystander g env"
  shows "touches (a, k, fd, nm) s (SendInLoop t env w a m s)"
proof (cases "IsInLoopThread t s")
  case True
  have "touches (a, k, fd, nm) s (assert_then (r \<le> length m) (if \<not> e \<and> 0 < r then send_buffered t env a m n r s1 else Inr s1))"
    if sent: "send_direct t w a m s = Inr (n, r, e, s1)" for n r e s1
  proof (rule touches_via [OF touches_send_direct [OF sent]])
    have "loop_tid s1 = loop_tid s"
      using sent by (auto simp: send_direct_def with_conn_def conn_writing_def with_chan_def write_effect_def Let_def
          queue_low_watermark_def split: if_splits write_answer.splits option.splits)
    then have "IsInLoopThread t s1" using True by (simp add: IsInLoopThread_def)
    then show "touches (a, k, fd, nm) s1 (assert_then (r \<le> length m) (if \<not> e \<and> 0 < r then send_buffered t env a m n r s1 else Inr s1))"
      by (intro touches_assert touches_if touches_Inr touches_send_buffered [OF assms])
  qed
  then show ?thesis unfolding SendInLoop_def by (intro touch) clarsimp
qed (simp add: SendInLoop_def touches_Inl)

lemma touches_Send:
  assumes "bystander g env"
  shows "touches (a, k, fd, nm) s (Send t env w a m s)"
  unfolding Send_def by (intro touch touches_SendInLoop [OF assms]) simp

lemma touches_conn_step:
  assumes "bystander g env"
  shows "touches (a, k, fd, nm) s (conn_step env a x s)"
  by (cases x) (simp_all add: touch touches_Send [OF assms] touches_SendInLoop [OF assms] touches_conn_HandleWrite [OF assms]
      touches_conn_HandleRead [OF assms] touches_ForceCloseInLoop [OF assms])

lemma touches_EstablishConnection:
  assumes "bystander g env"
  shows "touches (a, k, fd, nm) s (EstablishConnection t env a s)"
  unfolding EstablishConnection_def by (intro touch touches_call_cb [OF assms] | simp)+

lemma touches_DestroyConnection:
  assumes "bystander g env"
  shows "touches (a, k, fd, nm) s (DestroyConnection t env a s)"
  unfolding DestroyConnection_def by (intro touch touches_call_cb [OF assms] | simp)+

subsection \<open>A new connection in a loop\<close>

fun born :: "conn_id \<Rightarrow> ('u, 'c, 'z) net_state \<Rightarrow> ('u, 'c, 'z) net_state \<Rightarrow> bool" where
  "born (a, k, fd, nm) s s' \<longleftrightarrow>
     k = chan_next s \<and> has_id (a, k, fd, nm) s' \<and> elsewhere (a, k, fd, nm) (s\<lparr>chan_next := Suc k\<rparr>) s'"

lemma new_connection_born:
  assumes "new_connection a nm fd lo pe s = Inr s'"
  shows "born (a, chan_next s, fd, nm) s s'"
  using assms
  by (auto simp: new_connection_def new_channel_def Let_def res_iff SetReadHandler_def SetWriteHandler_def SetErrorHandler_def
      upd_chan_def with_chan_def set_chan_def has_id.simps elsewhere.simps frame.simps queues_own_def)

lemma born_touches: "born i s t \<Longrightarrow> touches i t (Inr u) \<Longrightarrow> born i s u"
  by (cases i) (auto dest!: touchesD intro: elsewhere_trans)

text \<open>What is known of a connection is known after a step of another one.\<close>

lemma frame_view:
  assumes "frame (a, k, fd, nm) s s'" "b \<noteq> a" "j \<noteq> k" "e \<noteq> fd"
  shows "conns s' b = conns s b" "chan_store s' j = chan_store s j" "j \<in> channels s' \<longleftrightarrow> j \<in> channels s"
      "epoll_interest s' e = epoll_interest s e" "wire e (socket_log s') = wire e (socket_log s)"
    and "has_id (b, j, e, nn) s' = has_id (b, j, e, nn) s"
proof -
  show eqs: "conns s' b = conns s b" "chan_store s' j = chan_store s j" "j \<in> channels s' \<longleftrightarrow> j \<in> channels s"
      "epoll_interest s' e = epoll_interest s e" "wire e (socket_log s') = wire e (socket_log s)"
    using assms by (simp_all add: frame.simps)
  show "has_id (b, j, e, nn) s' = has_id (b, j, e, nn) s" by (simp only: has_id.simps eqs)
qed

lemma frame_conn_view:
  assumes "frame (a, k, fd, nm) s s'" "has_id (b, j, e, nn) s" "b \<noteq> a" "j \<noteq> k" "e \<noteq> fd"
    and "chan_inv s'" "conn_view b s c ch"
  shows "conn_view b s' c ch"
proof -
  note f = frame_view [OF assms(1,3-5)]
  have "conn_channel c = j" "conn_sockfd c = e" "ch_fd ch = e"
    using assms(2,7) by (auto simp: has_id.simps conn_view_def split: option.splits)
  with f(1-4) assms(6,7) show ?thesis by (simp add: conn_view_def can_register_def)
qed

text \<open>The connections of a loop are as they were; its functors may not be.\<close>

definition same_conns :: "('u, 'c, 'z) net_state \<Rightarrow> ('u, 'c, 'z) net_state \<Rightarrow> bool" where
  "same_conns s s' \<longleftrightarrow> loop_tid s' = loop_tid s \<and> conns s' = conns s \<and> chan_store s' = chan_store s \<and>
     channels s' = channels s \<and> chan_next s' = chan_next s \<and> epoll_interest s' = epoll_interest s \<and>
     socket_log s' = socket_log s"

lemma same_conns_refl [simp]: "same_conns s s"
  by (simp add: same_conns_def)

lemma same_conns_queue [simp]: "same_conns s (QueueInLoop t f s)" "same_conns s (s\<lparr>pending_functors := fs\<rparr>)"
  by (simp_all add: same_conns_def QueueInLoop_def Push_functor_def WakeUp_def Let_def)

lemma same_conns_trans: "same_conns s t \<Longrightarrow> same_conns t u \<Longrightarrow> same_conns s u"
  by (simp add: same_conns_def)

lemma same_conns_frame: "same_conns s s' \<Longrightarrow> frame i s s'"
  by (cases i) (simp add: same_conns_def frame.simps)

lemma frame_trans: "frame i s t \<Longrightarrow> frame i t u \<Longrightarrow> frame i s u"
  by (cases i) (simp add: frame.simps)

lemma elsewhere_frame: "elsewhere i s s' \<Longrightarrow> frame i s s'"
  by (cases i) (simp add: elsewhere.simps)

lemma same_conns_facts:
  assumes "same_conns s s'"
  shows "has_id i s' = has_id i s" "conn_view a s' c ch = conn_view a s c ch" "chan_inv s' = chan_inv s"
proof -
  have e: "conns s' = conns s" "chan_store s' = chan_store s" "channels s' = channels s" "epoll_interest s' = epoll_interest s"
    using assms by (simp_all add: same_conns_def)
  show "has_id i s' = has_id i s" by (cases i) (simp only: has_id.simps e)
  show "conn_view a s' c ch = conn_view a s c ch" "chan_inv s' = chan_inv s"
    by (simp_all only: conn_view_def can_register_def chan_inv_def e)
qed

end
