(* ===== verification/Service.thy ===== *)
theory Service
  imports TcpServer Footprint
begin

section \<open>A server at work: many connections in many loops\<close>

text \<open>
  The parts of a server together: its acceptor, its map of connections, the loops they
  live in and the functors that carry a connection from one thread to another. A step is
  an accept in the loop of the server, an event of a connection in its loop, a send from
  another thread, or a loop running the first of its pending functors; steps interleave in
  any order. Each is the code's own functions put together as the code calls them. The
  result of a step is a value of the error type, so that ``no step fails'' can be stated.
\<close>

subsection \<open>State\<close>

text \<open>
  Where a connection stands: filed in the map with \<open>EstablishConnection\<close> still queued,
  established, closed with the removal queued in the loop of the server, removed with
  \<open>DestroyConnection\<close> queued in its own loop, and destroyed.
\<close>

datatype phase = Unborn | Filed | Live | Closing | Leaving | Gone

text \<open>Next to the server and the world stands the history of the connections: their phases, the
  loops they live in, what identifies them there and the bytes whose sending was accepted.\<close>

record ('c, 'z, 'k) service =
  sv_server :: "'c tcp_server"
  sv_world :: "('c, 'z, 'k) world"
  sv_phase :: "nat \<Rightarrow> phase"
  sv_home :: "nat \<Rightarrow> nat"
  sv_id :: "nat \<Rightarrow> conn_id"
  sv_taken :: "nat \<Rightarrow> string"

definition net_at :: "nat \<Rightarrow> ('c, 'z, 'k) service \<Rightarrow> (srv_closure, 'c, 'z) net_scheme" where
  "net_at l s = w_net (sv_world s) l"

definition id_fd :: "conn_id \<Rightarrow> int" where "id_fd i = fst (snd (snd i))"

definition id_name :: "conn_id \<Rightarrow> string" where "id_name i = snd (snd (snd i))"

definition id_chan :: "conn_id \<Rightarrow> nat" where "id_chan i = fst (snd i)"

text \<open>The loop of the server, and its thread.\<close>

definition main_loop :: "('c, 'z, 'k) service \<Rightarrow> nat" where
  "main_loop s = srv_loop (sv_server s)"

definition main_tid :: "('c, 'z, 'k) service \<Rightarrow> int" where
  "main_tid s = loop_tid (net_at (main_loop s) s)"

subsection \<open>Steps\<close>

text \<open>The acceptor is readable. When the server has made a connection it is established or filed.\<close>

definition service_accept ::
  "'k kernel \<Rightarrow> (srv_closure, 'c, 'z) socket_answers \<Rightarrow> (srv_closure, 'c, 'z) conn_env \<Rightarrow> 'c \<Rightarrow>
   ('c, 'z, 'k) service \<Rightarrow> ('c, 'z, 'k) service res" where
  "service_accept K io env r s =
     (let srv = sv_server s; w = sv_world s; a = w_next_conn w; l = chosen_loop srv;
          fd = fst (fst (Accept K (acc_socket (srv_acceptor srv)) (w_kern w))) in
      res_bind (server_run K io env r (main_tid s) Accept_ready srv w) (\<lambda>(srv', w').
      Inr (if w_next_conn w' = a then s\<lparr>sv_server := srv', sv_world := w'\<rparr>
           else s\<lparr>sv_server := srv', sv_world := w',
                  sv_phase := (sv_phase s)(a := if IsInLoopThread (main_tid s) (w_net w l) then Live else Filed),
                  sv_home := (sv_home s)(a := l),
                  sv_id := (sv_id s)(a := (a, chan_next (w_net w l), fd, connection_name srv)),
                  sv_taken := (sv_taken s)(a := [])\<rparr>)))"

text \<open>
  Something happens to a connection in the thread of its loop; when the handler has called
  \<open>close_cb_\<close>, which \<open>g\<close> counts, \<open>RemoveTcpConnection\<close> follows it.
\<close>

definition service_conn ::
  "('z \<Rightarrow> nat) \<Rightarrow> (srv_closure, 'c, 'z) conn_env \<Rightarrow> nat \<Rightarrow> conn_op \<Rightarrow> ('c, 'z, 'k) service \<Rightarrow> ('c, 'z, 'k) service res" where
  "service_conn g env a x s =
     (let l = sv_home s a; n = net_at l s in
      res_bind (conn_step env a x n) (\<lambda>n'.
      let w = (sv_world s)\<lparr>w_net := (w_net (sv_world s))(l := n')\<rparr>;
          s' = s\<lparr>sv_world := w, sv_taken := (sv_taken s)(a := sv_taken s a @ accepts x (the_conn a n))\<rparr> in
      if g (net.more n') = g (net.more n) then Inr s'
      else
        res_bind (RemoveTcpConnection (loop_tid n') (conn_name (the_conn a n')) l a (sv_server s) w) (\<lambda>(srv', w').
        Inr (s'\<lparr>sv_server := srv', sv_world := w',
                sv_phase := (sv_phase s)(a := if loop_tid n' = main_tid s' then Leaving else Closing)\<rparr>))))"

text \<open>A functor of a connection as what happens to the connection.\<close>

fun functor_op :: "write_answer \<Rightarrow> 'u closure \<Rightarrow> (nat \<times> conn_op) option" where
  "functor_op w (Conn_SendInLoop a m) = Some (a, Queued_send_op m w)"
| "functor_op w (Conn_ShutdownInLoop a) = Some (a, Queued_shutdown_op)"
| "functor_op w (Conn_ForceCloseInLoop a) = Some (a, Queued_force_close_op)"
| "functor_op w f = None"

text \<open>A loop pops its first pending functor and runs it.\<close>

definition pop_functor :: "nat \<Rightarrow> ('c, 'z, 'k) service \<Rightarrow> ('c, 'z, 'k) service" where
  "pop_functor l s =
     s\<lparr>sv_world := (sv_world s)\<lparr>w_net := (w_net (sv_world s))(l := (net_at l s)\<lparr>pending_functors := tl (pending_functors (net_at l s))\<rparr>)\<rparr>\<rparr>"

fun service_run ::
  "'k kernel \<Rightarrow> (srv_closure, 'c, 'z) socket_answers \<Rightarrow> (srv_closure, 'c, 'z) conn_env \<Rightarrow> 'c \<Rightarrow> nat \<Rightarrow>
   srv_closure \<Rightarrow> ('c, 'z, 'k) service \<Rightarrow> ('c, 'z, 'k) service res" where
  "service_run K io env r l (Establish a) s =
     res_bind (on_net l (srv_other env (Establish a)) (sv_world s)) (\<lambda>w.
     Inr (s\<lparr>sv_world := w, sv_phase := (sv_phase s)(a := Live)\<rparr>))"
| "service_run K io env r l (Destroy a) s =
     res_bind (on_net l (srv_other env (Destroy a)) (sv_world s)) (\<lambda>w.
     Inr (s\<lparr>sv_world := w, sv_phase := (sv_phase s)(a := Gone)\<rparr>))"
| "service_run K io env r l (Remove nm m a) s =
     res_bind (server_run K io env r (loop_tid (net_at l s)) (Remove nm m a) (sv_server s) (sv_world s)) (\<lambda>(srv, w).
     Inr (s\<lparr>sv_server := srv, sv_world := w, sv_phase := (sv_phase s)(a := Leaving)\<rparr>))"
| "service_run K io env r l f s =
     res_bind (server_run K io env r (loop_tid (net_at l s)) f (sv_server s) (sv_world s)) (\<lambda>(srv, w).
     Inr (s\<lparr>sv_server := srv, sv_world := w\<rparr>))"

definition service_functor ::
  "'k kernel \<Rightarrow> (srv_closure, 'c, 'z) socket_answers \<Rightarrow> ('z \<Rightarrow> nat) \<Rightarrow> (srv_closure, 'c, 'z) conn_env \<Rightarrow> 'c \<Rightarrow>
   write_answer \<Rightarrow> nat \<Rightarrow> ('c, 'z, 'k) service \<Rightarrow> ('c, 'z, 'k) service res" where
  "service_functor K io g env r w l s =
     (case pending_functors (net_at l s) of
        Closure (Other_closure f) # fs \<Rightarrow> service_run K io env r l f (pop_functor l s)
      | Closure f # fs \<Rightarrow>
          (case functor_op w f of
             Some (a, x) \<Rightarrow> service_conn g env a x (pop_functor l s)
           | None \<Rightarrow> Inl Undefined)
      | _ \<Rightarrow> Inl Undefined)"

text \<open>\<open>Send\<close> in a thread that is not the one of the loop.\<close>

definition service_send ::
  "(srv_closure, 'c, 'z) conn_env \<Rightarrow> int \<Rightarrow> nat \<Rightarrow> string \<Rightarrow> ('c, 'z, 'k) service \<Rightarrow> ('c, 'z, 'k) service res" where
  "service_send env tid a m s =
     res_bind (on_net (sv_home s a) (Send tid env (Write_ok 0) a m) (sv_world s)) (\<lambda>w. Inr (s\<lparr>sv_world := w\<rparr>))"

subsection \<open>Interleavings\<close>

text \<open>What happens in the thread of the loop but not as a functor.\<close>

fun direct_op :: "conn_op \<Rightarrow> bool" where
  "direct_op (Queued_send_op m w) \<longleftrightarrow> False"
| "direct_op Queued_shutdown_op \<longleftrightarrow> False"
| "direct_op Queued_force_close_op \<longleftrightarrow> False"
| "direct_op x \<longleftrightarrow> True"

definition established :: "phase \<Rightarrow> bool" where
  "established p \<longleftrightarrow> p \<noteq> Unborn \<and> p \<noteq> Filed"

text \<open>\<open>accept\<close> gives a descriptor that is not in use.\<close>

definition gives_new_fd :: "'k kernel \<Rightarrow> ('c, 'z, 'k) service \<Rightarrow> bool" where
  "gives_new_fd K s \<longleftrightarrow>
     (let fd = fst (fst (Accept K (acc_socket (srv_acceptor (sv_server s))) (w_kern (sv_world s)))) in
      Valid fd \<longrightarrow>
      (\<forall>l. epoll_interest (net_at l s) fd = None) \<and> (\<forall>a. sv_phase s a \<noteq> Unborn \<longrightarrow> id_fd (sv_id s a) \<noteq> fd))"

text \<open>The bytes a step brings fit in the memory of the buffers.\<close>

definition fits :: "nat \<Rightarrow> conn_op \<Rightarrow> ('c, 'z, 'k) service \<Rightarrow> bool" where
  "fits a x s \<longleftrightarrow> buf_room (conn_load (the_conn a (net_at (sv_home s a) s)) + op_size x)"

definition functor_fits :: "write_answer \<Rightarrow> 'u closure loop_functor \<Rightarrow> ('c, 'z, 'k) service \<Rightarrow> bool" where
  "functor_fits w f s \<longleftrightarrow>
     (case f of Closure u \<Rightarrow> (case functor_op w u of Some (a, x) \<Rightarrow> fits a x s | None \<Rightarrow> True) | Timer_functor t \<Rightarrow> True)"

inductive service_step ::
  "'k kernel \<Rightarrow> (srv_closure, 'c, 'z) socket_answers \<Rightarrow> ('z \<Rightarrow> nat) \<Rightarrow> (srv_closure, 'c, 'z) conn_env \<Rightarrow> 'c \<Rightarrow>
   ('c, 'z, 'k) service \<Rightarrow> ('c, 'z, 'k) service res \<Rightarrow> bool" for K io g env r where
  accept: "next_connid (sv_server s) < INT_MAX \<Longrightarrow> gives_new_fd K s \<Longrightarrow>
    service_step K io g env r s (service_accept K io env r s)"
| event: "established (sv_phase s a) \<Longrightarrow> direct_op x \<Longrightarrow> fits a x s \<Longrightarrow>
    service_step K io g env r s (service_conn g env a x s)"
| run: "pending_functors (net_at l s) = f # fs \<Longrightarrow>
    functor_fits w f s \<Longrightarrow> service_step K io g env r s (service_functor K io g env r w l s)"
| send: "established (sv_phase s a) \<Longrightarrow> tid \<noteq> loop_tid (net_at (sv_home s a) s) \<Longrightarrow>
    service_step K io g env r s (service_send env tid a m s)"

inductive service_reach ::
  "'k kernel \<Rightarrow> (srv_closure, 'c, 'z) socket_answers \<Rightarrow> ('z \<Rightarrow> nat) \<Rightarrow> (srv_closure, 'c, 'z) conn_env \<Rightarrow> 'c \<Rightarrow>
   ('c, 'z, 'k) service \<Rightarrow> ('c, 'z, 'k) service \<Rightarrow> bool" for K io g env r s0 where
  start: "service_reach K io g env r s0 s0"
| step: "service_reach K io g env r s0 s \<Longrightarrow> service_step K io g env r s (Inr s') \<Longrightarrow> service_reach K io g env r s0 s'"

subsection \<open>Progress\<close>

text \<open>Queues get longer at their end only, and no connection goes back to an earlier phase.\<close>

fun phase_rank :: "phase \<Rightarrow> nat" where
  "phase_rank Unborn = 0"
| "phase_rank Filed = 1"
| "phase_rank Live = 2"
| "phase_rank Closing = 3"
| "phase_rank Leaving = 4"
| "phase_rank Gone = 5"

definition grows :: "('c, 'z, 'k) service \<Rightarrow> ('c, 'z, 'k) service \<Rightarrow> bool" where
  "grows s s' \<longleftrightarrow> (\<forall>m. \<exists>push. pending_functors (net_at m s') = pending_functors (net_at m s) @ push) \<and>
     (\<forall>b. phase_rank (sv_phase s b) \<le> phase_rank (sv_phase s' b))"

text \<open>What a functor of the server is for has been done.\<close>

fun took_effect :: "srv_closure \<Rightarrow> ('c, 'z, 'k) service \<Rightarrow> bool" where
  "took_effect (Establish a) s \<longleftrightarrow> phase_rank Live \<le> phase_rank (sv_phase s a)"
| "took_effect (Remove nm m a) s \<longleftrightarrow> phase_rank Leaving \<le> phase_rank (sv_phase s a)"
| "took_effect (Destroy a) s \<longleftrightarrow> sv_phase s a = Gone"
| "took_effect f s \<longleftrightarrow> True"

subsection \<open>The invariant\<close>

text \<open>The functor each phase waits for.\<close>

fun due :: "('c, 'z, 'k) service \<Rightarrow> nat \<Rightarrow> srv_closure \<Rightarrow> bool" where
  "due s l (Establish a) \<longleftrightarrow> sv_phase s a = Filed \<and> sv_home s a = l"
| "due s l (Remove nm m a) \<longleftrightarrow>
     sv_phase s a = Closing \<and> l = main_loop s \<and> m = sv_home s a \<and> nm = id_name (sv_id s a)"
| "due s l (Destroy a) \<longleftrightarrow> sv_phase s a = Leaving \<and> sv_home s a = l"
| "due s l f \<longleftrightarrow> False"

definition in_map :: "phase \<Rightarrow> bool" where
  "in_map p \<longleftrightarrow> p = Filed \<or> p = Live \<or> p = Closing"

text \<open>A connection in its loop, by its phase and the bytes it has accepted.\<close>

definition conn_at :: "nat \<Rightarrow> phase \<Rightarrow> string \<Rightarrow> (srv_closure, 'c, 'z) net_scheme \<Rightarrow> bool" where
  "conn_at a p taken n \<longleftrightarrow>
     (\<exists>c ch. conn_view a n c ch \<and> callbacks_set c \<and>
        wire (conn_sockfd c) (socket_log n) @ contents (output_buf c) = taken \<and>
        (WriteEnabled ch \<longleftrightarrow> contents (output_buf c) \<noteq> []) \<and>
        (p = Filed \<longleftrightarrow> conn_state c = kConnecting) \<and> (p = Filed \<longrightarrow> \<not> ReadEnabled ch) \<and>
        (p = Closing \<or> p = Leaving \<or> p = Gone \<longrightarrow> quiet c (ReadEnabled ch)) \<and>
        (p = Gone \<longrightarrow> conn_channel c \<notin> channels n \<and> epoll_interest n (conn_sockfd c) = None))"

definition net_ok :: "('c, 'z, 'k) service \<Rightarrow> nat \<Rightarrow> bool" where
  "net_ok s l \<longleftrightarrow>
     chan_inv (net_at l s) \<and> (\<forall>k \<ge> chan_next (net_at l s). chan_store (net_at l s) k = None) \<and>
     (\<forall>d. (\<forall>a. sv_phase s a \<noteq> Unborn \<longrightarrow> sv_home s a = l \<longrightarrow> id_fd (sv_id s a) \<noteq> d) \<longrightarrow>
        wire d (socket_log (net_at l s)) = [])"

text \<open>The pending functors of a loop: those of the server that are due, and what connections of the
  loop have queued.\<close>

fun functor_ok :: "('c, 'z, 'k) service \<Rightarrow> nat \<Rightarrow> srv_closure closure loop_functor \<Rightarrow> bool" where
  "functor_ok s l (Closure (Other_closure u)) \<longleftrightarrow> True"
| "functor_ok s l (Closure f) \<longleftrightarrow> (\<exists>a. own_functor a f \<and> established (sv_phase s a) \<and> sv_home s a = l)"
| "functor_ok s l (Timer_functor x) \<longleftrightarrow> False"

definition functors_ok :: "('c, 'z, 'k) service \<Rightarrow> nat \<Rightarrow> bool" where
  "functors_ok s l \<longleftrightarrow> list_all (functor_ok s l) (pending_functors (net_at l s)) \<and>
     (\<forall>u. count_list (pending_functors (net_at l s)) (Closure (Other_closure u)) = (if due s l u then 1 else 0))"

definition conns_ok :: "('c, 'z, 'k) service \<Rightarrow> bool" where
  "conns_ok s \<longleftrightarrow>
     (\<forall>a. sv_phase s a \<noteq> Unborn \<longleftrightarrow> a < w_next_conn (sv_world s)) \<and>
     (\<forall>a. sv_phase s a \<noteq> Unborn \<longrightarrow> fst (sv_id s a) = a \<and>
        has_id (sv_id s a) (net_at (sv_home s a) s) \<and> conn_at a (sv_phase s a) (sv_taken s a) (net_at (sv_home s a) s)) \<and>
     (\<forall>a b. sv_phase s a \<noteq> Unborn \<longrightarrow> sv_phase s b \<noteq> Unborn \<longrightarrow> a \<noteq> b \<longrightarrow>
        id_fd (sv_id s a) \<noteq> id_fd (sv_id s b) \<and>
        (sv_home s a = sv_home s b \<longrightarrow> id_chan (sv_id s a) \<noteq> id_chan (sv_id s b)))"

definition map_ok :: "('c, 'z, 'k) service \<Rightarrow> bool" where
  "map_ok s \<longleftrightarrow>
     (\<forall>nm l a. connections (sv_server s) nm = Some (l, a) \<longleftrightarrow>
        in_map (sv_phase s a) \<and> sv_home s a = l \<and> id_name (sv_id s a) = nm)"

definition server_ok :: "('c, 'z, 'k) service \<Rightarrow> bool" where
  "server_ok s \<longleftrightarrow>
     names_ok (sv_server s) \<and> srv_message_cb (sv_server s) \<noteq> None \<and>
     acc_loop (srv_acceptor (sv_server s)) = main_loop s \<and>
     (case srv_pool (sv_server s) of None \<Rightarrow> True | Some p \<Rightarrow> pool_ok (main_tid s) p) \<and>
     (\<forall>l m. loop_tid (net_at l s) = loop_tid (net_at m s) \<longrightarrow> l = m)"

definition service_ok :: "('c, 'z, 'k) service \<Rightarrow> bool" where
  "service_ok s \<longleftrightarrow> server_ok s \<and> map_ok s \<and> conns_ok s \<and> (\<forall>l. net_ok s l \<and> functors_ok s l)"

text \<open>A server that has been started and has no connection yet.\<close>

definition service_init :: "('c, 'z, 'k) service \<Rightarrow> bool" where
  "service_init s \<longleftrightarrow> server_ok s \<and> connections (sv_server s) = Map.empty \<and> w_next_conn (sv_world s) = 0 \<and>
     (\<forall>a. sv_phase s a = Unborn) \<and>
     (\<forall>l. chan_inv (net_at l s) \<and> (\<forall>k \<ge> chan_next (net_at l s). chan_store (net_at l s) k = None) \<and>
        (\<forall>d. wire d (socket_log (net_at l s)) = []) \<and> pending_functors (net_at l s) = [])"

lemma service_init_ok:
  assumes "service_init s"
  shows "service_ok s"
proof -
  have u: "sv_phase s a = Unborn" for a using assms by (simp add: service_init_def)
  have "\<not> due s l f" for l f by (cases f) (simp_all add: u)
  then show ?thesis using assms
    by (simp add: service_ok_def service_init_def map_ok_def in_map_def conns_ok_def net_ok_def functors_ok_def u)
qed

subsection \<open>A step of one connection, seen by the others\<close>

lemma conn_at_frame:
  assumes "frame (a, k, fd, nm) n n'" "has_id (b, j, e, nn) n" "b \<noteq> a" "j \<noteq> k" "e \<noteq> fd" "chan_inv n'"
    and "conn_at b p x n"
  shows "conn_at b p x n'"
proof -
  from assms(7) obtain c ch where c: "conn_view b n c ch" "callbacks_set c"
      "wire (conn_sockfd c) (socket_log n) @ contents (output_buf c) = x"
      "WriteEnabled ch \<longleftrightarrow> contents (output_buf c) \<noteq> []" "p = Filed \<longleftrightarrow> conn_state c = kConnecting"
      "p = Filed \<longrightarrow> \<not> ReadEnabled ch" "p = Closing \<or> p = Leaving \<or> p = Gone \<longrightarrow> quiet c (ReadEnabled ch)"
      "p = Gone \<longrightarrow> conn_channel c \<notin> channels n \<and> epoll_interest n (conn_sockfd c) = None"
    unfolding conn_at_def by blast
  have "conn_channel c = j" "conn_sockfd c = e"
    using assms(2) c(1) by (auto simp: has_id.simps conn_view_def split: option.splits)
  with c(3,8) frame_view(3-5) [OF assms(1,3-5)] frame_conn_view [OF assms(1-6) c(1)] c(2,4-7) show ?thesis
    unfolding conn_at_def by (intro exI [of _ c] exI [of _ ch]) simp
qed

lemma conn_at_same: "same_conns n n' \<Longrightarrow> conn_at b p x n' = conn_at b p x n"
  by (simp add: conn_at_def same_conns_facts(2)) (simp add: same_conns_def)

lemma id_fields: "id_chan (a, k, fd, nm) = k" "id_fd (a, k, fd, nm) = fd" "id_name (a, k, fd, nm) = nm"
  by (simp_all add: id_chan_def id_fd_def id_name_def)

text \<open>The history has changed for one connection at most, and its loop is the only one whose
  connections have.\<close>

definition moves :: "nat \<Rightarrow> ('c, 'z, 'k) service \<Rightarrow> ('c, 'z, 'k) service \<Rightarrow> bool" where
  "moves a s s' \<longleftrightarrow> sv_phase s a \<noteq> Unborn \<and> sv_phase s' a \<noteq> Unborn \<and>
     (\<forall>b. b \<noteq> a \<longrightarrow> sv_phase s' b = sv_phase s b \<and> sv_taken s' b = sv_taken s b) \<and>
     sv_home s' = sv_home s \<and> sv_id s' = sv_id s \<and> w_next_conn (sv_world s') = w_next_conn (sv_world s) \<and>
     (\<forall>m. m \<noteq> sv_home s a \<longrightarrow> same_conns (net_at m s) (net_at m s')) \<and>
     frame (sv_id s a) (net_at (sv_home s a) s) (net_at (sv_home s a) s') \<and>
     chan_inv (net_at (sv_home s a) s') \<and> has_id (sv_id s a) (net_at (sv_home s a) s') \<and>
     conn_at a (sv_phase s' a) (sv_taken s' a) (net_at (sv_home s a) s')"

lemma moves_conns_ok:
  assumes "moves a s s'" "conns_ok s"
  shows "conns_ok s'"
proof -
  note m = assms(1) [unfolded moves_def]
  note c = assms(2) [unfolded conns_ok_def]
  have phase: "sv_phase s' b \<noteq> Unborn \<longleftrightarrow> sv_phase s b \<noteq> Unborn" for b using m by (cases "b = a") auto
  have "fst (sv_id s' b) = b \<and> has_id (sv_id s' b) (net_at (sv_home s' b) s') \<and>
      conn_at b (sv_phase s' b) (sv_taken s' b) (net_at (sv_home s' b) s')" if born: "sv_phase s b \<noteq> Unborn" for b
  proof (cases "b = a")
    case True
    with m c show ?thesis by auto
  next
    case False
    obtain k fd nm where a: "sv_id s a = (a, k, fd, nm)" using c m by (metis prod.collapse)
    obtain j e nn where b: "sv_id s b = (b, j, e, nn)" using c born by (metis prod.collapse)
    have d: "e \<noteq> fd" using c m born False a b by (metis id_fields(2))
    have d': "sv_home s b = sv_home s a \<Longrightarrow> j \<noteq> k" using c m born False a b by (metis id_fields(1))
    have at: "has_id (b, j, e, nn) (net_at (sv_home s b) s)" "conn_at b (sv_phase s b) (sv_taken s b) (net_at (sv_home s b) s)"
      using c born b by metis+
    show ?thesis
    proof (cases "sv_home s b = sv_home s a")
      case True
      have f: "frame (a, k, fd, nm) (net_at (sv_home s b) s) (net_at (sv_home s b) s')" "chan_inv (net_at (sv_home s b) s')"
        using m a True by auto
      from frame_view(6) [OF f(1) False d' [OF True] d] conn_at_frame [OF f(1) at(1) False d' [OF True] d f(2) at(2)]
      show ?thesis using m False at b by simp
    next
      case other: False
      then have "same_conns (net_at (sv_home s b) s) (net_at (sv_home s b) s')" using m by blast
      with same_conns_facts(1) [OF this] conn_at_same [OF this] at m False b show ?thesis by simp
    qed
  qed
  then show ?thesis using c m phase by (simp add: conns_ok_def)
qed

lemma moves_net_ok:
  assumes "moves a s s'" "conns_ok s" "net_ok s l"
  shows "net_ok s' l"
proof -
  note m = assms(1) [unfolded moves_def]
  have phase: "sv_phase s' b \<noteq> Unborn \<longleftrightarrow> sv_phase s b \<noteq> Unborn" for b using m by (cases "b = a") auto
  show ?thesis
  proof (cases "l = sv_home s a")
    case False
    then have "same_conns (net_at l s) (net_at l s')" using m by blast
    with same_conns_facts(3) [OF this] assms(3) m phase show ?thesis by (simp add: net_ok_def same_conns_def)
  next
    case True
    have "fst (sv_id s a) = a" "has_id (sv_id s a) (net_at l s)" using assms(2) m True by (auto simp: conns_ok_def)
    then obtain k fd nm where a: "sv_id s a = (a, k, fd, nm)" "has_id (a, k, fd, nm) (net_at l s)" by (metis prod.collapse)
    have f: "frame (a, k, fd, nm) (net_at l s) (net_at l s')" using m a True by simp
    have k: "k < chan_next (net_at l s)"
      using a(2) assms(3) by (cases "k < chan_next (net_at l s)") (auto simp: has_id.simps net_ok_def split: option.splits)
    have "chan_store (net_at l s') j = None" if "chan_next (net_at l s') \<le> j" for j
    proof -
      have j: "chan_next (net_at l s) \<le> j" "j \<noteq> k" using that f k by (auto simp: frame.simps)
      with f assms(3) show ?thesis by (simp add: frame.simps net_ok_def)
    qed
    moreover have "wire d (socket_log (net_at l s')) = []"
      if "\<forall>b. sv_phase s' b \<noteq> Unborn \<longrightarrow> sv_home s' b = l \<longrightarrow> id_fd (sv_id s' b) \<noteq> d" for d
    proof -
      have "d \<noteq> fd" using that m a True by (auto simp: id_fields dest: spec [of _ a])
      moreover have "wire d (socket_log (net_at l s)) = []" using that assms(3) m phase by (simp add: net_ok_def)
      ultimately show ?thesis using f by (simp add: frame.simps)
    qed
    ultimately show ?thesis using m True by (simp add: net_ok_def)
  qed
qed

subsection \<open>What happens to a connection\<close>

lemma conn_atE:
  assumes "conn_at a p x n" "established p"
  shows "conn_ready a n" "sent a n @ unsent a n = x" "p = Closing \<or> p = Leaving \<or> p = Gone \<Longrightarrow> conn_quiet a n"
proof -
  obtain c ch where c: "conn_view a n c ch" "callbacks_set c" "wire (conn_sockfd c) (socket_log n) @ contents (output_buf c) = x"
      "WriteEnabled ch \<longleftrightarrow> contents (output_buf c) \<noteq> []" "conn_state c \<noteq> kConnecting"
      "p = Closing \<or> p = Leaving \<or> p = Gone \<longrightarrow> quiet c (ReadEnabled ch)"
    using assms unfolding conn_at_def established_def by blast
  then show "conn_ready a n" "sent a n @ unsent a n = x" "p = Closing \<or> p = Leaving \<or> p = Gone \<Longrightarrow> conn_quiet a n"
    by (auto simp: conn_ready_def view_parts conn_quiet_view)
qed

lemma conn_atI:
  assumes "conn_ready a n" "sent a n @ unsent a n = x" "established p"
    and "p = Closing \<or> p = Leaving \<or> p = Gone \<Longrightarrow> conn_quiet a n"
    and "\<And>c. conns n a = Some c \<Longrightarrow> p = Gone \<Longrightarrow> conn_channel c \<notin> channels n \<and> epoll_interest n (conn_sockfd c) = None"
  shows "conn_at a p x n"
proof -
  obtain c ch where c: "conn_view a n c ch" "WriteEnabled ch \<longleftrightarrow> contents (output_buf c) \<noteq> []" "callbacks_set c"
      "conn_state c \<noteq> kConnecting"
    using assms(1) by (auto simp: conn_ready_def)
  with assms show ?thesis
    unfolding conn_at_def established_def
    by (intro exI [of _ c] exI [of _ ch]) (auto simp: view_parts [OF c(1)] conn_quiet_view [OF c(1)] conn_viewD(1) [OF c(1)])
qed

text \<open>A connection that is closed for good does nothing but shut its socket down for writing.\<close>

lemma conn_step_quiet:
  assumes "conn_view a n c ch" "quiet c (ReadEnabled ch)" "\<not> WriteEnabled ch"
  shows "conn_step env a x n = Inr n \<or> conn_step env a x n = Inr (log_socket (Shut_wr (conn_sockfd c)) n)"
  using assms
  by (cases x) (simp_all add: Send_def SendInLoop_def Shutdown_def ShutdownInLoop_def ForceClose_def ForceCloseInLoop_def
      conn_HandleWrite_def with_conn_view [OF assms(1)] conn_writing_view [OF assms(1)] view_parts [OF assms(1)] quiet_def)

lemma conn_step_at:
  assumes env: "bystander g env" and at: "conn_at a p x n" "established p" and i: "has_id (a, k, fd, nm) n"
    and room: "buf_room (conn_load (the_conn a n) + op_size op)"
  obtains n' where "conn_step env a op n = Inr n'" "chan_inv n'" "has_id (a, k, fd, nm) n'" "elsewhere (a, k, fd, nm) n n'"
    "conn_at a p (x @ accepts op (the_conn a n)) n'"
    "g (net.more n') \<noteq> g (net.more n) \<Longrightarrow>
       p = Live \<and> (\<forall>q \<in> {Closing, Leaving}. conn_at a q (x @ accepts op (the_conn a n)) n')"
proof -
  note e = conn_atE [OF at]
  obtain n' where n': "conn_step env a op n = Inr n'" "conn_ready a n'"
      "sent a n' @ unsent a n' = x @ accepts op (the_conn a n)"
      "g (net.more n') = g (net.more n) \<or> g (net.more n') = g (net.more n) + 1 \<and> \<not> conn_quiet a n \<and> conn_quiet a n'"
      "conn_quiet a n \<longrightarrow> conn_quiet a n'"
    using conn_step_ready [OF e(1) bystander_calm [OF env] room] e(2) by (auto simp flip: append_assoc)
  have t: "has_id (a, k, fd, nm) n' \<and> elsewhere (a, k, fd, nm) n n'"
    using touchesD [OF touches_conn_step [OF env, of a k fd nm n op, unfolded n'(1)] i] .
  have inv: "chan_inv n'" using n'(2) by (auto simp: conn_ready_def dest: conn_viewD(2))
  have gone: "conn_channel c' \<notin> channels n' \<and> epoll_interest n' (conn_sockfd c') = None"
    if gone: "p = Gone" and c': "conns n' a = Some c'" for c'
  proof -
    obtain c ch where c: "conn_view a n c ch" "WriteEnabled ch \<longleftrightarrow> contents (output_buf c) \<noteq> []" "quiet c (ReadEnabled ch)"
        "conn_channel c \<notin> channels n" "epoll_interest n (conn_sockfd c) = None"
      using at(1) gone unfolding conn_at_def by blast
    have "\<not> WriteEnabled ch" using c(2,3) by (simp add: quiet_def)
    from conn_step_quiet [OF c(1,3) this, of env op] n'(1) have "n' = n \<or> n' = log_socket (Shut_wr (conn_sockfd c)) n" by auto
    with c(4,5) conn_viewD(1) [OF c(1)] c' show ?thesis by (auto simp: log_socket_def)
  qed
  have "conn_at a p (x @ accepts op (the_conn a n)) n'" if "p = Live \<or> p = Closing \<or> p = Leaving \<or> p = Gone"
    using n'(2,3,5) at(2) e(3) gone by (intro conn_atI) auto
  moreover have "p = Live \<or> p = Closing \<or> p = Leaving \<or> p = Gone" using at(2) by (cases p) (simp_all add: established_def)
  moreover have "p = Live \<and> (\<forall>q \<in> {Closing, Leaving}. conn_at a q (x @ accepts op (the_conn a n)) n')"
    if "g (net.more n') \<noteq> g (net.more n)"
  proof -
    have q: "\<not> conn_quiet a n" "conn_quiet a n'" using n'(4) that by auto
    with calculation(2) e(3) have "p = Live" by blast
    then show ?thesis using n'(2,3) q(2) by (auto intro!: conn_atI simp: established_def)
  qed
  ultimately show thesis using that [OF n'(1) inv] t by blast
qed

subsection \<open>The queues\<close>

text \<open>The connection a functor of the server is about.\<close>

fun about :: "srv_closure \<Rightarrow> nat option" where
  "about (Establish a) = Some a"
| "about (Remove nm m a) = Some a"
| "about (Destroy a) = Some a"
| "about f = None"

definition same_history :: "('c, 'z, 'k) service \<Rightarrow> ('c, 'z, 'k) service \<Rightarrow> nat \<Rightarrow> bool" where
  "same_history s s' a \<longleftrightarrow> main_loop s' = main_loop s \<and>
     (\<forall>b. b \<noteq> a \<longrightarrow> sv_phase s' b = sv_phase s b \<and> sv_home s' b = sv_home s b \<and> sv_id s' b = sv_id s b) \<and>
     (established (sv_phase s a) \<longrightarrow> established (sv_phase s' a) \<and> sv_home s' a = sv_home s a)"

lemma due_other: "same_history s s' a \<Longrightarrow> about u \<noteq> Some a \<Longrightarrow> due s' l u = due s l u"
  by (cases u) (auto simp: same_history_def)

lemma functor_ok_mono: "same_history s s' a \<Longrightarrow> functor_ok s l f \<Longrightarrow> functor_ok s' l f"
proof (cases f)
  case (Closure x)
  assume h: "same_history s s' a" "functor_ok s l f"
  have "established (sv_phase s' b) \<and> sv_home s' b = sv_home s b" if "established (sv_phase s b)" for b
    using that h(1) by (cases "b = a") (auto simp: same_history_def)
  with h(2) Closure show ?thesis by (cases x) fastforce+
qed simp

lemma count_own [simp]:
  "\<forall>f \<in> set fs. own_functor a f \<Longrightarrow> count_list (map Closure fs) (Closure (Other_closure u)) = 0"
  by (auto simp: count_list_0_iff)

lemma own_functor_ok: "own_functor a f \<Longrightarrow> established (sv_phase s a) \<Longrightarrow> sv_home s a = l \<Longrightarrow> functor_ok s l (Closure f)"
  by (cases f) auto

text \<open>A queue loses functors at its front and gets others at its end.\<close>

lemma functors_ok_shift:
  assumes "functors_ok s m" "same_history s s' a"
    and "pending_functors (net_at m s) = pop @ rest" "pending_functors (net_at m s') = rest @ push"
    and "list_all (functor_ok s' m) push"
    and "\<And>u. about u = Some a \<Longrightarrow>
      count_list push (Closure (Other_closure u)) + (if due s m u then 1 else 0) =
      count_list pop (Closure (Other_closure u)) + (if due s' m u then 1 else (0 :: nat))"
    and "\<And>u. about u \<noteq> Some a \<Longrightarrow> count_list push (Closure (Other_closure u)) = count_list pop (Closure (Other_closure u))"
  shows "functors_ok s' m"
proof -
  have "list_all (functor_ok s' m) rest"
    using assms(1,3) functor_ok_mono [OF assms(2)] by (auto simp: functors_ok_def list_all_iff)
  moreover have "count_list (rest @ push) (Closure (Other_closure u)) = (if due s' m u then 1 else 0)" for u
  proof -
    have "count_list pop (Closure (Other_closure u)) + count_list rest (Closure (Other_closure u)) = (if due s m u then 1 else 0)"
      using assms(1,3) unfolding functors_ok_def by (metis count_list_append)
    moreover have "count_list (rest @ push) (Closure (Other_closure u)) =
        count_list rest (Closure (Other_closure u)) + count_list push (Closure (Other_closure u))" by simp
    ultimately show ?thesis
      using assms(6,7) [of u] due_other [OF assms(2), of u m] by (cases "about u = Some a") fastforce+
  qed
  ultimately show ?thesis using assms(4,5) by (simp add: functors_ok_def)
qed

lemma functors_ok_same:
  assumes "functors_ok s m" "same_history s s' a" "sv_phase s' a = sv_phase s a"
    and "sv_home s' a = sv_home s a" "sv_id s' a = sv_id s a"
    and "pending_functors (net_at m s') = pending_functors (net_at m s) @ map Closure fs"
    and "\<forall>f \<in> set fs. own_functor a f" "fs \<noteq> [] \<Longrightarrow> established (sv_phase s a) \<and> sv_home s a = m"
  shows "functors_ok s' m"
proof (rule functors_ok_shift [OF assms(1,2), where pop = "[]" and push = "map Closure fs"])
  show "list_all (functor_ok s' m) (map Closure fs)"
    using assms(2-5,7,8) by (cases fs) (auto simp: list_all_iff same_history_def intro!: own_functor_ok)
  show "count_list (map Closure fs) (Closure (Other_closure u)) + (if due s m u then 1 else 0) =
      count_list [] (Closure (Other_closure u)) + (if due s' m u then 1 else 0)" if "about u = Some a" for u
    using assms(2-5,7) that by (cases u) (auto simp: same_history_def)
qed (use assms(6,7) in auto)

subsection \<open>The map and the server\<close>

lemma map_ok_keep:
  assumes "map_ok s" "connections (sv_server s') = connections (sv_server s)" "sv_home s' = sv_home s" "sv_id s' = sv_id s"
    and "\<And>b. in_map (sv_phase s' b) = in_map (sv_phase s b)"
  shows "map_ok s'"
  using assms by (simp add: map_ok_def)

lemma map_ok_erase:
  assumes "map_ok s" "in_map (sv_phase s a)" "\<not> in_map (sv_phase s' a)"
    and "connections (sv_server s') = (connections (sv_server s))(id_name (sv_id s a) := None)"
    and "sv_home s' = sv_home s" "sv_id s' = sv_id s" "\<And>b. b \<noteq> a \<Longrightarrow> sv_phase s' b = sv_phase s b"
  shows "map_ok s'"
proof -
  have a: "connections (sv_server s) (id_name (sv_id s a)) = Some (sv_home s a, a)" using assms(1,2) by (simp add: map_ok_def)
  have "connections (sv_server s') nm = Some (l, b) \<longleftrightarrow> in_map (sv_phase s' b) \<and> sv_home s' b = l \<and> id_name (sv_id s' b) = nm" for nm l b
  proof (cases "b = a")
    case True
    with a assms(1,3,4) show ?thesis by (auto simp: map_ok_def)
  next
    case False
    then have "id_name (sv_id s b) \<noteq> id_name (sv_id s a)" if "in_map (sv_phase s b)"
      using a that assms(1) unfolding map_ok_def by (metis option.inject prod.inject)
    with False assms(1,4-7) show ?thesis by (auto simp: map_ok_def)
  qed
  then show ?thesis by (simp add: map_ok_def)
qed

lemma server_ok_keep:
  assumes "server_ok s" "\<And>l. loop_tid (net_at l s') = loop_tid (net_at l s)"
    and "sv_server s' = (sv_server s)\<lparr>connections := C\<rparr>" "dom C \<subseteq> dom (connections (sv_server s))"
  shows "server_ok s'"
proof -
  have "names_ok (sv_server s')"
    using assms(1,3) subsetD [OF assms(4)] by (simp add: server_ok_def names_ok_def)
  moreover have "main_loop s' = main_loop s" "main_tid s' = main_tid s"
    using assms(2,3) by (simp_all add: main_loop_def main_tid_def)
  ultimately show ?thesis
    using assms(1-3) by (cases "srv_pool (sv_server s)") (simp_all add: server_ok_def)
qed

text \<open>One of the functors of the server, queued in a loop by a thread.\<close>

definition enqueue :: "int \<Rightarrow> nat \<Rightarrow> srv_closure \<Rightarrow> ('c, 'z, 'k) world \<Rightarrow> ('c, 'z, 'k) world" where
  "enqueue tid l f w = w\<lparr>w_net := (w_net w)(l := QueueInLoop tid (Closure (Other_closure f)) (w_net w l))\<rparr>"

lemma QueueInLoop_of_eq: "QueueInLoop_of tid l f w = Inr (enqueue tid l f w)"
  by (simp add: QueueInLoop_of_def on_net_def enqueue_def)

lemma RemoveTcpConnection_eq:
  "RemoveTcpConnection tid nm l a srv w =
     (if IsInLoopThread tid (w_net w (srv_loop srv))
      then Inr (srv\<lparr>connections := (connections srv)(nm := None)\<rparr>, enqueue tid l (Destroy a) w)
      else Inr (srv, enqueue tid (srv_loop srv) (Remove nm l a) w))"
  by (simp add: RemoveTcpConnection_def RemoveInLoop_def QueueInLoop_of_eq)

lemma enqueue_net: "w_net (enqueue tid l f w) m =
    (if m = l then QueueInLoop tid (Closure (Other_closure f)) (w_net w l) else w_net w m)"
  "w_next_conn (enqueue tid l f w) = w_next_conn w" "w_kern (enqueue tid l f w) = w_kern w"
  by (simp_all add: enqueue_def)

lemma enqueue_same: "same_conns (w_net w m) (w_net (enqueue tid l f w) m)"
  by (simp add: enqueue_net)

lemma enqueue_pending: "pending_functors (w_net (enqueue tid l f w) m) =
    pending_functors (w_net w m) @ (if m = l then [Closure (Other_closure f)] else [])"
  by (simp add: enqueue_net)

subsection \<open>Events\<close>

lemma grows_trans: "grows s s' \<Longrightarrow> grows s' s'' \<Longrightarrow> grows s s''"
  unfolding grows_def by (metis append.assoc order_trans)

text \<open>A connection whose handler has called \<open>close_cb_\<close>: the removal, or the order to remove it.\<close>

lemma closed_ok:
  assumes s: "server_ok s" "map_ok s" "conns_ok s" "\<And>l. net_ok s l" "\<And>l. functors_ok s l"
    and a: "sv_phase s a = Live" "l = sv_home s a" "nm = id_name (sv_id s a)" "tid = loop_tid (net_at l s)"
    and quiet: "\<And>q. q \<in> {Closing, Leaving} \<Longrightarrow> conn_at a q (sv_taken s a) (net_at l s)"
  obtains srv w where "RemoveTcpConnection tid nm l a (sv_server s) (sv_world s) = Inr (srv, w)"
    "service_ok (s\<lparr>sv_server := srv, sv_world := w,
       sv_phase := (sv_phase s)(a := if tid = main_tid s then Leaving else Closing)\<rparr>)"
    "grows s (s\<lparr>sv_server := srv, sv_world := w,
       sv_phase := (sv_phase s)(a := if tid = main_tid s then Leaving else Closing)\<rparr>)"
proof -
  have home: "tid = main_tid s \<longleftrightarrow> l = main_loop s" using s(1) a(4) by (auto simp: server_ok_def main_tid_def)
  define srv where "srv = (if tid = main_tid s then (sv_server s)\<lparr>connections := (connections (sv_server s))(nm := None)\<rparr> else sv_server s)"
  define f where "f = (if tid = main_tid s then Destroy a else Remove nm l a)"
  define dst where "dst = (if tid = main_tid s then l else main_loop s)"
  define w where "w = enqueue tid dst f (sv_world s)"
  define s' where "s' = s\<lparr>sv_server := srv, sv_world := w,
       sv_phase := (sv_phase s)(a := if tid = main_tid s then Leaving else Closing)\<rparr>"
  have run: "RemoveTcpConnection tid nm l a (sv_server s) (sv_world s) = Inr (srv, w)"
    by (simp add: RemoveTcpConnection_eq IsInLoopThread_def main_tid_def net_at_def main_loop_def srv_def f_def dst_def w_def)
  have net: "same_conns (net_at m s) (net_at m s')" for m by (simp add: s'_def net_at_def w_def enqueue_same)
  have main: "main_loop s' = main_loop s" by (simp add: s'_def main_loop_def srv_def)
  have id: "has_id (sv_id s a) (net_at l s)" using s(3) a(1,2) by (simp add: conns_ok_def)
  have "moves a s s'"
    unfolding moves_def
    using a(1,2) net [of l] id quiet [of "if tid = main_tid s then Leaving else Closing"] s(4) [of l] net
      same_conns_facts(1,3) [OF net [of l]] conn_at_same [OF net [of l]] same_conns_frame [OF net [of l]]
    by (simp add: s'_def net_ok_def w_def enqueue_net)
  note ok = moves_conns_ok [OF this s(3)] moves_net_ok [OF this s(3,4)]
  have hist: "same_history s s' a" using a(1) main by (auto simp: same_history_def s'_def established_def)
  have map: "map_ok s'"
  proof (cases "tid = main_tid s")
    case True
    then show ?thesis using s(2) a(1,3)
      by (intro map_ok_erase [OF s(2), of a]) (simp_all add: s'_def srv_def in_map_def)
  next
    case False
    then show ?thesis using a(1) by (intro map_ok_keep [OF s(2)]) (auto simp: s'_def srv_def in_map_def)
  qed
  have "server_ok s'"
  proof (rule server_ok_keep [OF s(1), where C = "connections srv"])
    show "loop_tid (net_at m s') = loop_tid (net_at m s)" for m using net [of m] by (simp add: same_conns_def)
    show "dom (connections srv) \<subseteq> dom (connections (sv_server s))" by (auto simp: srv_def)
  qed (simp add: s'_def srv_def)
  moreover have "functors_ok s' m" for m
  proof (rule functors_ok_shift [OF s(5) hist, where pop = "[]" and rest = "pending_functors (net_at m s)"
        and push = "if m = dst then [Closure (Other_closure f)] else []"])
    show "pending_functors (net_at m s') = pending_functors (net_at m s) @ (if m = dst then [Closure (Other_closure f)] else [])"
      by (simp add: s'_def net_at_def w_def enqueue_pending)
    show "count_list (if m = dst then [Closure (Other_closure f)] else []) (Closure (Other_closure u)) + (if due s m u then 1 else 0) =
        count_list [] (Closure (Other_closure u)) + (if due s' m u then 1 else 0)" if "about u = Some a" for u
      using that a(1,2,3) main home by (cases u) (auto simp: s'_def f_def dst_def main_loop_def srv_def)
    show "count_list (if m = dst then [Closure (Other_closure f)] else []) (Closure (Other_closure u)) =
        count_list [] (Closure (Other_closure u))" if "about u \<noteq> Some a" for u
      using that by (auto simp: f_def)
  qed (auto simp: f_def)
  ultimately have "service_ok s'" using map ok by (simp add: service_ok_def)
  moreover have "grows s s'" using a(1) by (simp add: grows_def s'_def net_at_def w_def enqueue_pending)
  ultimately show thesis using run that s'_def by blast
qed

text \<open>A handler has changed one connection, and with it perhaps the phase it is in.\<close>

definition with_net :: "nat \<Rightarrow> (srv_closure, 'c, 'z) net_scheme \<Rightarrow> phase \<Rightarrow> string \<Rightarrow> ('c, 'z, 'k) service \<Rightarrow> ('c, 'z, 'k) service" where
  "with_net a n q x s =
     s\<lparr>sv_world := (sv_world s)\<lparr>w_net := (w_net (sv_world s))(sv_home s a := n)\<rparr>,
       sv_phase := (sv_phase s)(a := q), sv_taken := (sv_taken s)(a := x)\<rparr>"

lemma with_net_simps [simp]:
  "sv_server (with_net a n q x s) = sv_server s" "sv_home (with_net a n q x s) = sv_home s" "sv_id (with_net a n q x s) = sv_id s"
  "sv_phase (with_net a n q x s) = (sv_phase s)(a := q)" "sv_taken (with_net a n q x s) = (sv_taken s)(a := x)"
  "main_loop (with_net a n q x s) = main_loop s" "w_next_conn (sv_world (with_net a n q x s)) = w_next_conn (sv_world s)"
  "net_at m (with_net a n q x s) = (if m = sv_home s a then n else net_at m s)"
  by (simp_all add: with_net_def main_loop_def net_at_def)

lemma with_net_ok:
  assumes s: "server_ok s" "map_ok s" "conns_ok s" "\<And>l. net_ok s l" and a: "sv_phase s a \<noteq> Unborn"
    and n: "chan_inv n" "has_id (sv_id s a) n" "elsewhere (sv_id s a) (net_at (sv_home s a) s) n" "conn_at a q x n"
    and q: "q \<noteq> Unborn" "in_map q = in_map (sv_phase s a)" "established (sv_phase s a) \<Longrightarrow> established q"
  shows "server_ok (with_net a n q x s)" "map_ok (with_net a n q x s)" "conns_ok (with_net a n q x s)"
    "net_ok (with_net a n q x s) m" "same_history s (with_net a n q x s) a"
proof -
  have f: "frame (sv_id s a) (net_at (sv_home s a) s) n" using elsewhere_frame [OF n(3)] .
  have tids: "loop_tid (net_at l (with_net a n q x s)) = loop_tid (net_at l s)" for l
    using f by (cases "sv_id s a") (simp add: frame.simps)
  have "moves a s (with_net a n q x s)" using a q(1) n(1,2,4) f by (simp add: moves_def)
  then show "conns_ok (with_net a n q x s)" "net_ok (with_net a n q x s) m"
    using moves_conns_ok moves_net_ok s(3,4) by blast+
  show "map_ok (with_net a n q x s)" by (rule map_ok_keep [OF s(2)]) (use q(2) in auto)
  show "server_ok (with_net a n q x s)"
    by (rule server_ok_keep [OF s(1), where C = "connections (sv_server s)"]) (use tids in auto)
  show "same_history s (with_net a n q x s) a" using q(3) by (simp add: same_history_def)
qed

lemma born_id:
  assumes "conns_ok s" "sv_phase s a \<noteq> Unborn"
  obtains k fd nm where "sv_id s a = (a, k, fd, nm)" "has_id (a, k, fd, nm) (net_at (sv_home s a) s)"
    "conn_at a (sv_phase s a) (sv_taken s a) (net_at (sv_home s a) s)"
proof -
  have "fst (sv_id s a) = a" using assms by (simp add: conns_ok_def)
  then obtain k fd nm where i: "sv_id s a = (a, k, fd, nm)" by (metis prod.collapse)
  with assms show thesis by (intro that [OF i]) (auto simp: conns_ok_def)
qed

lemma service_conn_ok:
  assumes s: "service_ok s" and env: "bystander g env" and a: "established (sv_phase s a)" and x: "fits a x s"
  shows "\<exists>s'. service_conn g env a x s = Inr s' \<and> service_ok s' \<and> grows s s'"
proof -
  have ok: "server_ok s" "map_ok s" "conns_ok s" "\<And>l. net_ok s l" "\<And>l. functors_ok s l"
    using s by (simp_all add: service_ok_def)
  define l n where "l = sv_home s a" and "n = net_at l s"
  have born: "sv_phase s a \<noteq> Unborn" using a by (simp add: established_def)
  obtain k fd nm where i: "sv_id s a = (a, k, fd, nm)" and id: "has_id (a, k, fd, nm) n"
      and at: "conn_at a (sv_phase s a) (sv_taken s a) n"
    using born_id [OF ok(3) born] unfolding n_def l_def by blast
  have "buf_room (conn_load (the_conn a n) + op_size x)" using x by (simp add: fits_def n_def l_def)
  from conn_step_at [OF env at a id this] obtain n' where n': "conn_step env a x n = Inr n'" "chan_inv n'"
      "has_id (a, k, fd, nm) n'" "elsewhere (a, k, fd, nm) n n'"
      "conn_at a (sv_phase s a) (sv_taken s a @ accepts x (the_conn a n)) n'"
      "g (net.more n') \<noteq> g (net.more n) \<Longrightarrow> sv_phase s a = Live \<and>
         (\<forall>q \<in> {Closing, Leaving}. conn_at a q (sv_taken s a @ accepts x (the_conn a n)) n')"
    by blast
  define s1 where "s1 = with_net a n' (sv_phase s a) (sv_taken s a @ accepts x (the_conn a n)) s"
  have s1: "server_ok s1" "map_ok s1" "conns_ok s1" "net_ok s1 m" "same_history s s1 a" for m
    unfolding s1_def using with_net_ok [OF ok(1-4) born n'(2) _ _ n'(5)] n'(3,4) born i unfolding n_def l_def by simp_all
  obtain fs where fs: "pending_functors n' = pending_functors n @ map Closure fs" "\<forall>f \<in> set fs. own_functor a f"
    using n'(4) by (auto simp: elsewhere.simps queues_own_def)
  have grown: "grows s s1" using fs(1) by (simp add: grows_def s1_def n_def l_def)
  have functors: "functors_ok s1 m" for m
  proof -
    show ?thesis
    proof (rule functors_ok_same [OF ok(5) s1(5)])
      show "sv_phase s1 a = sv_phase s a" "sv_home s1 a = sv_home s a" "sv_id s1 a = sv_id s a" by (simp_all add: s1_def)
      show "pending_functors (net_at m s1) = pending_functors (net_at m s) @ map Closure (if m = l then fs else [])"
        using fs(1) by (simp add: s1_def n_def l_def)
    qed (use fs(2) a in \<open>auto simp: l_def split: if_splits\<close>)
  qed
  show ?thesis
  proof (cases "g (net.more n') = g (net.more n)")
    case True
    then have "service_conn g env a x s = Inr s1"
      using n'(1) by (simp add: service_conn_def Let_def l_def [symmetric] n_def [symmetric] s1_def with_net_def)
    with s1(1-4) functors grown show ?thesis by (simp add: service_ok_def)
  next
    case False
    have "conn_name (the_conn a n') = nm" using n'(3) by (auto simp: the_conn_def has_id.simps split: option.splits)
    moreover have "sv_phase s1 a = Live" "l = sv_home s1 a" "nm = id_name (sv_id s1 a)" "loop_tid n' = loop_tid (net_at l s1)"
      using n'(6) [OF False] i by (simp_all add: s1_def l_def id_fields)
    moreover have "\<And>q. q \<in> {Closing, Leaving} \<Longrightarrow> conn_at a q (sv_taken s1 a) (net_at l s1)"
      using n'(6) [OF False] by (auto simp: s1_def l_def)
    ultimately obtain srv w where "RemoveTcpConnection (loop_tid n') (conn_name (the_conn a n')) l a (sv_server s1) (sv_world s1) = Inr (srv, w)"
        "service_ok (s1\<lparr>sv_server := srv, sv_world := w,
           sv_phase := (sv_phase s1)(a := if loop_tid n' = main_tid s1 then Leaving else Closing)\<rparr>)"
        "grows s1 (s1\<lparr>sv_server := srv, sv_world := w,
           sv_phase := (sv_phase s1)(a := if loop_tid n' = main_tid s1 then Leaving else Closing)\<rparr>)"
      using closed_ok [OF s1(1-4) functors] by metis
    with grows_trans [OF grown] show ?thesis
      using False n'(1) by (simp add: service_conn_def Let_def l_def [symmetric] n_def [symmetric] s1_def with_net_def)
  qed
qed

subsection \<open>Functors\<close>

text \<open>A popped functor; what it leaves is the state but for the queue.\<close>

lemma pop_functor_simps [simp]:
  "sv_server (pop_functor l s) = sv_server s" "sv_phase (pop_functor l s) = sv_phase s"
  "sv_home (pop_functor l s) = sv_home s" "sv_id (pop_functor l s) = sv_id s" "sv_taken (pop_functor l s) = sv_taken s"
  "w_next_conn (sv_world (pop_functor l s)) = w_next_conn (sv_world s)" "main_loop (pop_functor l s) = main_loop s"
  by (simp_all add: pop_functor_def main_loop_def)

lemma pop_functor_net: "net_at m (pop_functor l s) =
    (if m = l then (net_at l s)\<lparr>pending_functors := tl (pending_functors (net_at l s))\<rparr> else net_at m s)"
  by (simp add: pop_functor_def net_at_def)

lemma pop_same: "same_conns (net_at m s) (net_at m (pop_functor l s))"
  by (simp add: pop_functor_net)

lemma pop_functor_ok:
  assumes "service_ok s"
  shows "server_ok (pop_functor l s)" "map_ok (pop_functor l s)" "conns_ok (pop_functor l s)" "net_ok (pop_functor l s) m"
    "same_history s (pop_functor l s) a"
proof -
  note ok = assms [unfolded service_ok_def]
  have tid: "loop_tid (net_at m (pop_functor l s)) = loop_tid (net_at m s)" for m by (simp add: pop_functor_net)
  show "server_ok (pop_functor l s)"
    by (rule server_ok_keep [where s = s and C = "connections (sv_server s)"]) (use ok tid in simp_all)
  show "map_ok (pop_functor l s)" by (rule map_ok_keep [where s = s]) (use ok in simp_all)
  show "conns_ok (pop_functor l s)"
    using ok by (simp add: conns_ok_def same_conns_facts(1) [OF pop_same] conn_at_same [OF pop_same])
  show "net_ok (pop_functor l s) m"
  proof -
    have e: "chan_store (net_at m (pop_functor l s)) = chan_store (net_at m s)" "chan_next (net_at m (pop_functor l s)) = chan_next (net_at m s)"
      "socket_log (net_at m (pop_functor l s)) = socket_log (net_at m s)" using pop_same [of m s l] by (simp_all add: same_conns_def)
    show ?thesis using ok by (simp add: net_ok_def same_conns_facts(3) [OF pop_same] e)
  qed
  show "same_history s (pop_functor l s) a" by (simp add: same_history_def)
qed

text \<open>A functor that a connection has queued.\<close>

lemma pop_own_ok:
  assumes "service_ok s" "pending_functors (net_at l s) = Closure f # fs" "own_functor a f"
  shows "service_ok (pop_functor l s)"
proof -
  have no: "f \<noteq> Other_closure u" for u using assms(3) by auto
  have "functors_ok (pop_functor l s) m" for m
  proof (rule functors_ok_shift [where s = s and a = a and push = "[]"
        and pop = "if m = l then [Closure f] else []" and rest = "if m = l then fs else pending_functors (net_at m s)"])
    show "functors_ok s m" using assms(1) by (simp add: service_ok_def)
    show "same_history s (pop_functor l s) a" by (rule pop_functor_ok(5) [OF assms(1)])
    have "due (pop_functor l s) m u = due s m u" for u by (cases u) simp_all
    then show "count_list [] (Closure (Other_closure u)) + (if due s m u then 1 else 0) =
        count_list (if m = l then [Closure f] else []) (Closure (Other_closure u)) + (if due (pop_functor l s) m u then 1 else 0)" for u
      using no by auto
  qed (use assms(2) no in \<open>auto simp: pop_functor_net\<close>)
  with pop_functor_ok [OF assms(1)] assms(1) show ?thesis by (simp add: service_ok_def)
qed

lemma functor_op_own: "functor_op w f = Some (b, x) \<Longrightarrow> own_functor a f \<Longrightarrow> b = a"
  by (cases f) auto

lemma functor_op_some: "own_functor a f \<Longrightarrow> \<exists>x. functor_op w f = Some (a, x)"
  by (cases f) auto

lemma run_own_ok:
  assumes s: "service_ok s" and env: "bystander g env"
    and f: "pending_functors (net_at l s) = Closure f # fs" "\<And>u. f \<noteq> Other_closure u"
    and x: "functor_fits w (Closure f) s"
  shows "\<exists>s'. service_functor K io g env r w l s = Inr s' \<and> service_ok s' \<and> grows (pop_functor l s) s'"
proof -
  have "list_all (functor_ok s l) (pending_functors (net_at l s))" using s by (simp add: service_ok_def functors_ok_def)
  then have "functor_ok s l (Closure f)" using f(1) by simp
  then obtain a where a: "own_functor a f" "established (sv_phase s a)" using f(2) by (cases f) auto
  from functor_op_some [OF a(1)] obtain y where y: "functor_op w f = Some (a, y)" by blast
  have "the_conn a (net_at (sv_home s a) (pop_functor l s)) = the_conn a (net_at (sv_home s a) s)"
    by (simp add: the_conn_def pop_functor_net)
  then have "fits a y (pop_functor l s)" using x y by (simp add: fits_def functor_fits_def)
  moreover have "service_functor K io g env r w l s = service_conn g env a y (pop_functor l s)"
    using f y a(1) by (cases f) (simp_all add: service_functor_def)
  ultimately show ?thesis
    using service_conn_ok [OF pop_own_ok [OF s f(1) a(1)] env, of a y] a(2) by simp
qed

text \<open>A functor of the server that runs in the loop of its connection.\<close>

lemma run_in_loop_ok:
  assumes s: "service_ok s" and f: "pending_functors (net_at l s) = Closure (Other_closure f) # fs" "about f = Some a"
    and a: "sv_home s a = l" "sv_phase s a \<noteq> Unborn"
    and n: "srv_other env f (net_at l (pop_functor l s)) = Inr n" "chan_inv n" "has_id (sv_id s a) n"
      "elsewhere (sv_id s a) (net_at l (pop_functor l s)) n" "conn_at a q (sv_taken s a) n"
    and q: "established q" "in_map q = in_map (sv_phase s a)" "phase_rank (sv_phase s a) \<le> phase_rank q"
    and due: "\<And>u m. about u = Some a \<Longrightarrow> due s m u \<longleftrightarrow> u = f \<and> m = l"
      "\<And>u m. about u = Some a \<Longrightarrow> \<not> due (with_net a n q (sv_taken s a) (pop_functor l s)) m u"
  shows "\<exists>w. on_net l (srv_other env f) (sv_world (pop_functor l s)) = Inr w \<and>
    service_ok ((pop_functor l s)\<lparr>sv_world := w, sv_phase := (sv_phase s)(a := q)\<rparr>) \<and>
    grows (pop_functor l s) ((pop_functor l s)\<lparr>sv_world := w, sv_phase := (sv_phase s)(a := q)\<rparr>)"
proof -
  let ?p = "pop_functor l s"
  let ?s = "with_net a n q (sv_taken s a) ?p"
  have e: "has_id (sv_id ?p a) n" "elsewhere (sv_id ?p a) (net_at (sv_home ?p a) ?p) n" "sv_phase ?p a \<noteq> Unborn"
    "q \<noteq> Unborn" "in_map q = in_map (sv_phase ?p a)" "established (sv_phase ?p a) \<Longrightarrow> established q"
    using n(3,4) a q by (auto simp: established_def)
  note ok = with_net_ok [OF pop_functor_ok(1-4) [OF s] e(3) n(2) e(1,2) n(5) e(4-6)]
  have hist: "same_history s ?s a" using ok(5) pop_functor_ok(5) [OF s, of l a] by (simp add: same_history_def)
  obtain gs where gs: "pending_functors n = pending_functors (net_at l ?p) @ map Closure gs" "\<forall>h \<in> set gs. own_functor a h"
    using n(4) s a by (cases "sv_id s a") (auto simp: elsewhere.simps queues_own_def service_ok_def conns_ok_def)
  have grown: "grows ?p ?s" using gs(1) a(1) q(3) by (simp add: grows_def)
  have "functors_ok ?s m" for m
  proof (rule functors_ok_shift [OF _ hist, where pop = "if m = l then [Closure (Other_closure f)] else []"
        and rest = "if m = l then fs else pending_functors (net_at m s)" and push = "if m = l then map Closure gs else []"])
    show "functors_ok s m" using s by (simp add: service_ok_def)
    show "pending_functors (net_at m ?s) = (if m = l then fs else pending_functors (net_at m s)) @ (if m = l then map Closure gs else [])"
      using gs(1) f(1) a(1) by (simp add: pop_functor_net)
    show "list_all (functor_ok ?s m) (if m = l then map Closure gs else [])"
      using gs(2) q(1) a(1) by (auto simp: list_all_iff intro!: own_functor_ok)
  qed (use f gs(2) due in auto)
  then have "service_ok ?s" using ok by (simp add: service_ok_def)
  moreover have "on_net l (srv_other env f) (sv_world ?p) = Inr (sv_world ?s)"
    using n(1) a(1) by (simp add: on_net_def net_at_def with_net_def)
  moreover have "?s = ?p\<lparr>sv_world := sv_world ?s, sv_phase := (sv_phase s)(a := q)\<rparr>"
    by (simp add: with_net_def pop_functor_def)
  ultimately show ?thesis using grown by metis
qed

lemma run_Establish_ok:
  assumes s: "service_ok s" and env: "bystander g env"
    and f: "pending_functors (net_at l s) = Closure (Other_closure (Establish a)) # fs" "due s l (Establish a)"
  shows "\<exists>s'. service_run K io env r l (Establish a) (pop_functor l s) = Inr s' \<and> service_ok s' \<and>
    grows (pop_functor l s) s' \<and> took_effect (Establish a) s'"
proof -
  let ?n = "net_at l (pop_functor l s)"
  have a: "sv_phase s a = Filed" "sv_home s a = l" using f(2) by simp_all
  have "sv_phase (pop_functor l s) a \<noteq> Unborn" using a by simp
  from born_id [OF pop_functor_ok(3) [OF s] this] a obtain k fd nm where i: "sv_id s a = (a, k, fd, nm)"
    and id: "has_id (a, k, fd, nm) ?n" and at: "conn_at a Filed (sv_taken s a) ?n" by auto
  obtain c ch where c: "conn_view a ?n c ch" "callbacks_set c" "conn_state c = kConnecting" "\<not> ReadEnabled ch"
      "wire (conn_sockfd c) (socket_log ?n) @ contents (output_buf c) = sv_taken s a"
      "WriteEnabled ch \<longleftrightarrow> contents (output_buf c) \<noteq> []"
    using at unfolding conn_at_def by blast
  have en: "enabled False (contents (output_buf c) \<noteq> []) ch" using c(4,6) by (simp add: enabled_def)
  from EstablishConnection_view [OF c(1) bystander_calm [OF env] en c(3) bystander_keeps [OF env]]
  obtain n ch' where n: "EstablishConnection (loop_tid ?n) env a ?n = Inr n" "conn_view a n (c\<lparr>conn_state := kConnected\<rparr>) ch'"
      "enabled True (contents (output_buf c) \<noteq> []) ch'" "wire (conn_sockfd c) (socket_log n) = wire (conn_sockfd c) (socket_log ?n)"
    by blast
  have t: "has_id (a, k, fd, nm) n \<and> elsewhere (a, k, fd, nm) ?n n"
    using touchesD [OF touches_EstablishConnection [OF env, of a k fd nm ?n "loop_tid ?n", unfolded n(1)] id] .
  have at: "conn_at a Live (sv_taken s a) n"
    unfolding conn_at_def using n(2-4) c(2,5)
    by (intro exI [of _ "c\<lparr>conn_state := kConnected\<rparr>"] exI [of _ ch']) (simp add: callbacks_set_def enabled_def)
  have "\<exists>w. on_net l (srv_other env (Establish a)) (sv_world (pop_functor l s)) = Inr w \<and>
      service_ok ((pop_functor l s)\<lparr>sv_world := w, sv_phase := (sv_phase s)(a := Live)\<rparr>) \<and>
      grows (pop_functor l s) ((pop_functor l s)\<lparr>sv_world := w, sv_phase := (sv_phase s)(a := Live)\<rparr>)"
  proof (rule run_in_loop_ok [OF s f(1) _ a(2)])
    show "due s m u \<longleftrightarrow> u = Establish a \<and> m = l" if "about u = Some a" for u m using that a by (cases u) auto
    show "\<not> due (with_net a n Live (sv_taken s a) (pop_functor l s)) m u" if "about u = Some a" for u m
      using that by (cases u) auto
  qed (use n(1) conn_viewD(2) [OF n(2)] t at i a in \<open>auto simp: established_def in_map_def\<close>)
  then show ?thesis by auto
qed

lemma run_Destroy_ok:
  assumes s: "service_ok s" and env: "bystander g env"
    and f: "pending_functors (net_at l s) = Closure (Other_closure (Destroy a)) # fs" "due s l (Destroy a)"
  shows "\<exists>s'. service_run K io env r l (Destroy a) (pop_functor l s) = Inr s' \<and> service_ok s' \<and>
    grows (pop_functor l s) s' \<and> took_effect (Destroy a) s'"
proof -
  let ?n = "net_at l (pop_functor l s)"
  have a: "sv_phase s a = Leaving" "sv_home s a = l" using f(2) by simp_all
  have "sv_phase (pop_functor l s) a \<noteq> Unborn" using a by simp
  from born_id [OF pop_functor_ok(3) [OF s] this] a obtain k fd nm where i: "sv_id s a = (a, k, fd, nm)"
    and id: "has_id (a, k, fd, nm) ?n" and at: "conn_at a Leaving (sv_taken s a) ?n" by auto
  obtain c ch where c: "conn_view a ?n c ch" "callbacks_set c" "quiet c (ReadEnabled ch)"
      "wire (conn_sockfd c) (socket_log ?n) @ contents (output_buf c) = sv_taken s a"
      "WriteEnabled ch \<longleftrightarrow> contents (output_buf c) \<noteq> []"
    using at unfolding conn_at_def by blast
  have en: "enabled False False ch" using c(3,5) by (simp add: enabled_def quiet_def)
  have "ch_owned ch" using id c(1) by (auto simp: has_id.simps conn_view_def can_register_def split: option.splits)
  from DestroyConnection_view [OF c(1) bystander_calm [OF env] en this bystander_keeps [OF env]]
  obtain n ch' where n: "DestroyConnection (loop_tid ?n) env a ?n = Inr n" "conn_view a n (c\<lparr>conn_state := kDisconnected\<rparr>) ch'"
      "enabled False False ch'" "conn_channel c \<notin> channels n" "epoll_interest n (conn_sockfd c) = None"
      "wire (conn_sockfd c) (socket_log n) = wire (conn_sockfd c) (socket_log ?n)"
    by blast
  have t: "has_id (a, k, fd, nm) n \<and> elsewhere (a, k, fd, nm) ?n n"
    using touchesD [OF touches_DestroyConnection [OF env, of a k fd nm ?n "loop_tid ?n", unfolded n(1)] id] .
  have at: "conn_at a Gone (sv_taken s a) n"
    unfolding conn_at_def using n(2-6) c(2-4)
    by (intro exI [of _ "c\<lparr>conn_state := kDisconnected\<rparr>"] exI [of _ ch']) (simp add: callbacks_set_def enabled_def quiet_def)
  have "\<exists>w. on_net l (srv_other env (Destroy a)) (sv_world (pop_functor l s)) = Inr w \<and>
      service_ok ((pop_functor l s)\<lparr>sv_world := w, sv_phase := (sv_phase s)(a := Gone)\<rparr>) \<and>
      grows (pop_functor l s) ((pop_functor l s)\<lparr>sv_world := w, sv_phase := (sv_phase s)(a := Gone)\<rparr>)"
  proof (rule run_in_loop_ok [OF s f(1) _ a(2)])
    show "due s m u \<longleftrightarrow> u = Destroy a \<and> m = l" if "about u = Some a" for u m using that a by (cases u) auto
    show "\<not> due (with_net a n Gone (sv_taken s a) (pop_functor l s)) m u" if "about u = Some a" for u m
      using that by (cases u) auto
  qed (use n(1) conn_viewD(2) [OF n(2)] t at i a in \<open>auto simp: established_def in_map_def\<close>)
  then show ?thesis by auto
qed

lemma run_Remove_ok:
  assumes s: "service_ok s"
    and f: "pending_functors (net_at l s) = Closure (Other_closure (Remove nm m a)) # fs" "due s l (Remove nm m a)"
  shows "\<exists>s'. service_run K io env r l (Remove nm m a) (pop_functor l s) = Inr s' \<and> service_ok s' \<and>
    grows (pop_functor l s) s' \<and> took_effect (Remove nm m a) s'"
proof -
  have a: "sv_phase s a = Closing" "l = main_loop s" "m = sv_home s a" "nm = id_name (sv_id s a)" using f(2) by simp_all
  let ?p = "pop_functor l s"
  let ?tid = "loop_tid (net_at l ?p)"
  define srv where "srv = (sv_server s)\<lparr>connections := (connections (sv_server s))(nm := None)\<rparr>"
  define w where "w = enqueue ?tid m (Destroy a) (sv_world ?p)"
  define s' where "s' = ?p\<lparr>sv_server := srv, sv_world := w, sv_phase := (sv_phase s)(a := Leaving)\<rparr>"
  have run: "service_run K io env r l (Remove nm m a) ?p = Inr s'"
    using a(2) by (simp add: RemoveInLoop_def QueueInLoop_of_eq IsInLoopThread_def main_loop_def net_at_def srv_def w_def s'_def)
  have net: "same_conns (net_at j ?p) (net_at j s')" for j by (simp add: s'_def net_at_def w_def enqueue_same)
  note ok = pop_functor_ok [OF s]
  have born: "sv_phase ?p a \<noteq> Unborn" using a(1) by simp
  obtain k fd nm' where i: "sv_id s a = (a, k, fd, nm')" "has_id (a, k, fd, nm') (net_at m ?p)"
      "conn_at a Closing (sv_taken s a) (net_at m ?p)"
    using born_id [OF ok(3) born] a by auto
  then have "conn_at a Leaving (sv_taken s a) (net_at m s')"
    unfolding conn_at_same [OF net] unfolding conn_at_def by auto
  then have "moves a ?p s'"
    unfolding moves_def
    using born i(1,2) net a(3) ok(4) [of l m] same_conns_facts(1,3) [OF net [of m]] same_conns_frame [OF net [of m]]
    by (simp add: s'_def net_ok_def w_def enqueue_net)
  note moved = moves_conns_ok [OF this ok(3)] moves_net_ok [OF this ok(3,4)]
  have hist: "same_history s s' a" using a(1) by (auto simp: same_history_def s'_def established_def main_loop_def srv_def)
  have "map_ok s'"
    by (rule map_ok_erase [OF ok(2) [of l], of a]) (use a in \<open>simp_all add: s'_def srv_def in_map_def\<close>)
  moreover have "server_ok s'"
  proof (rule server_ok_keep [OF ok(1) [of l], where C = "connections srv"])
    show "loop_tid (net_at j s') = loop_tid (net_at j ?p)" for j using net [of j] by (simp add: same_conns_def)
    show "dom (connections srv) \<subseteq> dom (connections (sv_server ?p))" by (auto simp: srv_def)
  qed (simp add: s'_def srv_def)
  moreover have "functors_ok s' j" for j
  proof (rule functors_ok_shift [OF _ hist, where pop = "if j = l then [Closure (Other_closure (Remove nm m a))] else []"
        and rest = "if j = l then fs else pending_functors (net_at j s)"
        and push = "if j = m then [Closure (Other_closure (Destroy a))] else []"])
    show "functors_ok s j" using s by (simp add: service_ok_def)
    show "pending_functors (net_at j s') = (if j = l then fs else pending_functors (net_at j s)) @
        (if j = m then [Closure (Other_closure (Destroy a))] else [])"
      using f(1) pop_functor_net [of j l s] by (auto simp: s'_def net_at_def w_def enqueue_pending)
    show "count_list (if j = m then [Closure (Other_closure (Destroy a))] else []) (Closure (Other_closure u)) + (if due s j u then 1 else 0) =
        count_list (if j = l then [Closure (Other_closure (Remove nm m a))] else []) (Closure (Other_closure u)) + (if due s' j u then 1 else 0)"
      if "about u = Some a" for u
      using that a by (cases u) (auto simp: s'_def main_loop_def srv_def)
    show "count_list (if j = m then [Closure (Other_closure (Destroy a))] else []) (Closure (Other_closure u)) =
        count_list (if j = l then [Closure (Other_closure (Remove nm m a))] else []) (Closure (Other_closure u))"
      if "about u \<noteq> Some a" for u
      using that by auto
  qed (use f(1) in auto)
  ultimately have "service_ok s'" using moved by (simp add: service_ok_def)
  moreover have "grows ?p s'" using a(1) by (simp add: grows_def s'_def net_at_def w_def enqueue_pending)
  moreover have "took_effect (Remove nm m a) s'" by (simp add: s'_def)
  ultimately show ?thesis using run by blast
qed

lemma service_functor_ok:
  assumes s: "service_ok s" and env: "bystander g env" and f: "pending_functors (net_at l s) = f # fs"
    and x: "functor_fits w f s"
  shows "\<exists>s'. service_functor K io g env r w l s = Inr s' \<and> service_ok s' \<and> grows (pop_functor l s) s' \<and>
    (\<forall>u. f = Closure (Other_closure u) \<longrightarrow> took_effect u s')"
proof -
  have ok: "list_all (functor_ok s l) (pending_functors (net_at l s))"
    "count_list (pending_functors (net_at l s)) (Closure (Other_closure u)) = (if due s l u then 1 else 0)" for u
    using s by (simp_all add: service_ok_def functors_ok_def)
  show ?thesis
  proof (cases f)
    case (Timer_functor t)
    then show ?thesis using ok(1) f by simp
  next
    case (Closure u)
    show ?thesis
    proof (cases "\<exists>v. u = Other_closure v")
      case False
      with run_own_ok [OF s env, of l u fs w K io r] f x Closure show ?thesis by blast
    next
      case True
      then obtain v where v: "u = Other_closure v" by blast
      have "due s l v" using ok(2) [of v] f Closure v by (auto split: if_splits)
      moreover have "service_functor K io g env r w l s = service_run K io env r l v (pop_functor l s)"
        using f Closure v by (simp add: service_functor_def)
      ultimately show ?thesis
        using f Closure v run_Establish_ok [OF s env, of l] run_Destroy_ok [OF s env, of l] run_Remove_ok [OF s, of l]
        by (cases v) auto
    qed
  qed
qed

subsection \<open>A send from another thread\<close>

lemma service_send_ok:
  assumes s: "service_ok s" and env: "bystander g env" and a: "established (sv_phase s a)"
    and tid: "tid \<noteq> loop_tid (net_at (sv_home s a) s)"
  shows "\<exists>s'. service_send env tid a m s = Inr s' \<and> service_ok s' \<and> grows s s'"
proof -
  have ok: "server_ok s" "map_ok s" "conns_ok s" "\<And>l. net_ok s l" "\<And>l. functors_ok s l"
    using s by (simp_all add: service_ok_def)
  let ?n = "net_at (sv_home s a) s"
  let ?f = "Conn_SendInLoop a m"
  have born: "sv_phase s a \<noteq> Unborn" using a by (simp add: established_def)
  obtain k fd nm where i: "sv_id s a = (a, k, fd, nm)" "has_id (a, k, fd, nm) ?n" "conn_at a (sv_phase s a) (sv_taken s a) ?n"
    using born_id [OF ok(3) born] .
  obtain c ch where c: "conn_view a ?n c ch" using i(3) by (auto simp: conn_at_def)
  define n' where "n' = (if conn_state c = kConnected then QueueInLoop tid (Closure ?f) ?n else ?n)"
  have run: "Send tid env (Write_ok 0) a m ?n = Inr n'"
    using tid by (simp add: Send_def with_conn_view [OF c] IsInLoopThread_def n'_def)
  have same: "same_conns ?n n'" by (simp add: n'_def)
  have t: "has_id (a, k, fd, nm) n' \<and> elsewhere (a, k, fd, nm) ?n n'"
    using touchesD [OF touches_Send [OF env, of a k fd nm ?n tid "Write_ok 0" m, unfolded run] i(2)] .
  have at: "conn_at a (sv_phase s a) (sv_taken s a) n'" "chan_inv n'"
    using i(3) c conn_at_same [OF same] same_conns_facts(3) [OF same] by (auto dest: conn_viewD(2))
  let ?s = "with_net a n' (sv_phase s a) (sv_taken s a) s"
  have i': "has_id (sv_id s a) n'" "elsewhere (sv_id s a) ?n n'" using t i(1) by simp_all
  note ok' = with_net_ok [OF ok(1-4) born at(2) i' at(1) born refl]
  obtain gs where gs: "pending_functors n' = pending_functors ?n @ map Closure gs" "\<forall>h \<in> set gs. own_functor a h"
    using t by (auto simp: elsewhere.simps queues_own_def)
  have "functors_ok ?s j" for j
  proof (rule functors_ok_same [OF ok(5) ok'(5), where fs = "if j = sv_home s a then gs else []"])
    show "pending_functors (net_at j ?s) = pending_functors (net_at j s) @ map Closure (if j = sv_home s a then gs else [])"
      using gs(1) by simp
  qed (use gs(2) a in \<open>auto split: if_splits\<close>)
  then have "service_ok ?s" using ok' by (simp add: service_ok_def)
  moreover have "grows s ?s" using gs(1) by (simp add: grows_def)
  moreover have "service_send env tid a m s = Inr ?s"
    using run by (simp add: service_send_def on_net_def net_at_def with_net_def)
  ultimately show ?thesis by blast
qed

subsection \<open>A new connection\<close>

text \<open>An accept that brings no connection changes the acceptor and the kernel only.\<close>

lemma service_ok_idle:
  assumes "service_ok s" "acc_loop acc = main_loop s" "w_net w = w_net (sv_world s)" "w_next_conn w = w_next_conn (sv_world s)"
  shows "service_ok (s\<lparr>sv_server := (sv_server s)\<lparr>srv_acceptor := acc\<rparr>, sv_world := w\<rparr>)" (is "service_ok ?s")
proof -
  have net: "net_at l ?s = net_at l s" for l by (simp add: net_at_def assms(3))
  have main: "main_loop ?s = main_loop s" by (simp add: main_loop_def)
  have due: "due ?s l u = due s l u" for l u by (cases u) (simp_all add: main)
  have one: "functor_ok ?s l f = functor_ok s l f" for l f
  proof (cases f)
    case (Closure x)
    then show ?thesis by (cases x) simp_all
  qed simp
  then have "functor_ok ?s = functor_ok s" by (intro ext)
  then have "functors_ok ?s l = functors_ok s l" for l by (simp add: functors_ok_def net due)
  moreover have "net_ok ?s l = net_ok s l" for l by (simp add: net_ok_def net)
  moreover have "main_tid ?s = main_tid s" by (simp add: main_tid_def main net)
  ultimately show ?thesis
    using assms(1,2)
    by (cases "srv_pool (sv_server s)") (simp_all add: service_ok_def server_ok_def main net names_ok_def map_ok_def conns_ok_def assms(4))
qed

text \<open>The new connection in its loop.\<close>

lemma equipped_at:
  assumes fresh: "fresh_fd fd n" and wire: "wire fd (socket_log n) = []" and env: "bystander g env" and m: "m \<noteq> None"
  obtains s1 s2 s3 s4 s5 where "new_connection a nm fd lo pe n = Inr s1" "SetConnectionCallBack cb a s1 = Inr s2"
    "SetMessageCallBack m a s2 = Inr s3" "SetCloseCallBack (Some r) a s3 = Inr s4"
    "(if IsInLoopThread tid s4 then srv_other env (Establish a) s4
      else Inr (QueueInLoop tid (Closure (Other_closure (Establish a))) s4)) = Inr s5"
    "has_id (a, chan_next n, fd, nm) s5" "frame (a, chan_next n, fd, nm) (n\<lparr>chan_next := Suc (chan_next n)\<rparr>) s5" "chan_inv s5"
    "conn_at a (if IsInLoopThread tid n then Live else Filed) [] s5"
    "\<exists>fs. pending_functors s5 = pending_functors n @ (if IsInLoopThread tid n then map Closure fs else [Closure (Other_closure (Establish a))]) \<and>
       (\<forall>f \<in> set fs. own_functor a f)"
proof -
  let ?i = "(a, chan_next n, fd, nm)"
  obtain s1 s2 s3 s4 c ch where s: "new_connection a nm fd lo pe n = Inr s1" "SetConnectionCallBack cb a s1 = Inr s2"
      "SetMessageCallBack m a s2 = Inr s3" "SetCloseCallBack (Some r) a s3 = Inr s4"
    and c: "conn_view a s4 c ch" "enabled False False ch" "conn_state c = kConnecting" "begins c nm fd lo pe cb m r"
    and same: "loop_tid s4 = loop_tid n" "pending_functors s4 = pending_functors n" "socket_log s4 = socket_log n"
    using equip_connection [OF fresh] by blast
  have "touches ?i s1 (Inr s2)" "touches ?i s2 (Inr s3)" "touches ?i s3 (Inr s4)"
    unfolding s(2-4) [symmetric] set_callback_defs by (intro touches_upd_conn; simp)+
  then have born: "born ?i n s4" using new_connection_born [OF s(1)] born_touches by blast
  have buf: "contents (output_buf c) = []" "callbacks_set c" "conn_sockfd c = fd"
    using c(4) m by (auto simp: begins_def conn_load_def callbacks_set_def)
  have thread: "IsInLoopThread tid s4 = IsInLoopThread tid n" by (simp add: IsInLoopThread_def same)
  show thesis
  proof (cases "IsInLoopThread tid n")
    case True
    have en: "enabled False False ch" using c(2) .
    from EstablishConnection_view [OF c(1) bystander_calm [OF env] en c(3) bystander_keeps [OF env]]
    obtain s5 ch' where e: "EstablishConnection (loop_tid s4) env a s4 = Inr s5" "conn_view a s5 (c\<lparr>conn_state := kConnected\<rparr>) ch'"
        "enabled True False ch'" "wire (conn_sockfd c) (socket_log s5) = wire (conn_sockfd c) (socket_log s4)"
      by blast
    have t: "touches ?i s4 (Inr s5)" using touches_EstablishConnection [OF env, of a "chan_next n" fd nm s4 "loop_tid s4"] e(1) by simp
    have id: "has_id ?i s4" using born by simp
    have "elsewhere ?i s4 s5" using touchesD [OF t id] by simp
    then obtain fs where fs: "pending_functors s5 = pending_functors s4 @ map Closure fs" "\<forall>f \<in> set fs. own_functor a f"
      by (auto simp: elsewhere.simps queues_own_def)
    have b: "has_id ?i s5" "elsewhere ?i (n\<lparr>chan_next := Suc (chan_next n)\<rparr>) s5" using born_touches [OF born t] by simp_all
    have "conn_at a Live [] s5"
      unfolding conn_at_def using e(2-4) buf wire same(3)
      by (intro exI [of _ "c\<lparr>conn_state := kConnected\<rparr>"] exI [of _ ch']) (simp add: enabled_def callbacks_set_def)
    with that [OF s] True thread e(1) b(1) elsewhere_frame [OF b(2)] conn_viewD(2) [OF e(2)] fs same(2) show thesis by auto
  next
    case False
    define s5 where "s5 = QueueInLoop tid (Closure (Other_closure (Establish a))) s4"
    have q: "same_conns s4 s5" by (simp add: s5_def)
    have "conn_at a Filed [] s4"
      unfolding conn_at_def using c(1-3) buf wire same(3) by (intro exI [of _ c] exI [of _ ch]) (simp add: enabled_def)
    then have "conn_at a Filed [] s5" unfolding conn_at_same [OF q] .
    moreover have "has_id ?i s5" "elsewhere ?i (n\<lparr>chan_next := Suc (chan_next n)\<rparr>) s4"
      using born same_conns_facts(1) [OF q] by simp_all
    moreover have "chan_inv s5" using conn_viewD(2) [OF c(1)] same_conns_facts(3) [OF q] by simp
    moreover have "pending_functors s5 = pending_functors n @ [Closure (Other_closure (Establish a))] \<and> (\<forall>f \<in> set []. own_functor a f)"
      using same(2) by (simp add: s5_def)
    ultimately show thesis
      using that [OF s, of s5] False thread frame_trans [OF elsewhere_frame same_conns_frame [OF q]]
      by (simp add: s5_def [symmetric]) (metis empty_iff list.set(1))
  qed
qed

text \<open>The history with one more connection.\<close>

definition with_conn_born ::
  "nat \<Rightarrow> phase \<Rightarrow> nat \<Rightarrow> conn_id \<Rightarrow> 'c tcp_server \<Rightarrow> ('c, 'z, 'k) world \<Rightarrow> ('c, 'z, 'k) service \<Rightarrow> ('c, 'z, 'k) service" where
  "with_conn_born a q l i srv w s =
     s\<lparr>sv_server := srv, sv_world := w, sv_phase := (sv_phase s)(a := q), sv_home := (sv_home s)(a := l),
       sv_id := (sv_id s)(a := i), sv_taken := (sv_taken s)(a := [])\<rparr>"

lemma born_conns_ok:
  assumes ok: "conns_ok s" "\<And>m. net_ok s m" and a: "a = w_next_conn (sv_world s)" "w_next_conn w = a + 1"
    and n: "k = chan_next (net_at l s)" "frame (a, k, fd, nm) ((net_at l s)\<lparr>chan_next := Suc k\<rparr>) (w_net w l)" "chan_inv (w_net w l)"
      "has_id (a, k, fd, nm) (w_net w l)" "conn_at a q [] (w_net w l)" "\<And>m. m \<noteq> l \<Longrightarrow> w_net w m = net_at m s"
    and fd: "\<And>b. sv_phase s b \<noteq> Unborn \<Longrightarrow> id_fd (sv_id s b) \<noteq> fd" and q: "q \<noteq> Unborn"
  shows "conns_ok (with_conn_born a q l (a, k, fd, nm) srv w s)" "net_ok (with_conn_born a q l (a, k, fd, nm) srv w s) m"
proof -
  let ?s = "with_conn_born a q l (a, k, fd, nm) srv w s"
  have f: "sv_phase ?s = (sv_phase s)(a := q)" "sv_home ?s = (sv_home s)(a := l)" "sv_id ?s = (sv_id s)(a := (a, k, fd, nm))"
    "sv_taken ?s = (sv_taken s)(a := [])" "w_next_conn (sv_world ?s) = a + 1" "net_at m ?s = w_net w m" for m
    using a(2) by (simp_all add: with_conn_born_def net_at_def)
  have unborn: "sv_phase s a = Unborn" using ok(1) a(1) by (auto simp: conns_ok_def)
  have other: "fst (sv_id s b) = b \<and> has_id (sv_id s b) (w_net w (sv_home s b)) \<and>
      conn_at b (sv_phase s b) (sv_taken s b) (w_net w (sv_home s b)) \<and> (sv_home s b = l \<longrightarrow> id_chan (sv_id s b) \<noteq> k)"
    if born: "sv_phase s b \<noteq> Unborn" for b
  proof -
    obtain j e nn where b: "sv_id s b = (b, j, e, nn)" "has_id (b, j, e, nn) (net_at (sv_home s b) s)"
        "conn_at b (sv_phase s b) (sv_taken s b) (net_at (sv_home s b) s)"
      using born_id [OF ok(1) born] .
    show ?thesis
    proof (cases "sv_home s b = l")
      case False
      with b n(6) show ?thesis by simp
    next
      case True
      let ?n = "(net_at l s)\<lparr>chan_next := Suc k\<rparr>"
      have "chan_store (net_at l s) k = None" using ok(2) [of l] n(1) by (simp add: net_ok_def)
      then have "j \<noteq> k" using b(2) True by (auto simp: has_id.simps split: option.splits)
      moreover have "b \<noteq> a" "e \<noteq> fd" using born unborn fd [OF born] b(1) by (auto simp: id_fields)
      moreover have "has_id (b, j, e, nn) ?n" "conn_at b (sv_phase s b) (sv_taken s b) ?n"
        using b(2,3) True
        by (simp_all add: has_id.simps conn_at_def conn_view_def can_register_def chan_inv_def cong: option.case_cong)
      ultimately show ?thesis
        using frame_view(6) [OF n(2), of b j e nn] conn_at_frame [OF n(2), of b j e nn] n(3) b(1) True by (simp add: id_fields)
    qed
  qed
  show "conns_ok ?s"
    unfolding conns_ok_def f
  proof (intro conjI allI impI)
    show "((sv_phase s)(a := q)) b \<noteq> Unborn \<longleftrightarrow> b < a + 1" for b using ok(1) a(1) q by (auto simp: conns_ok_def less_Suc_eq)
    fix b
    assume b: "((sv_phase s)(a := q)) b \<noteq> Unborn"
    show "fst (((sv_id s)(a := (a, k, fd, nm))) b) = b" "has_id (((sv_id s)(a := (a, k, fd, nm))) b) (w_net w (((sv_home s)(a := l)) b))"
      "conn_at b (((sv_phase s)(a := q)) b) (((sv_taken s)(a := [])) b) (w_net w (((sv_home s)(a := l)) b))"
      using other [of b] b n(4,5) by (auto split: if_splits)
    fix d
    assume d: "((sv_phase s)(a := q)) d \<noteq> Unborn" "b \<noteq> d"
    show "id_fd (((sv_id s)(a := (a, k, fd, nm))) b) \<noteq> id_fd (((sv_id s)(a := (a, k, fd, nm))) d)"
      using b d fd ok(1) by (auto simp: id_fields conns_ok_def split: if_splits)
    show "((sv_home s)(a := l)) b = ((sv_home s)(a := l)) d \<Longrightarrow>
        id_chan (((sv_id s)(a := (a, k, fd, nm))) b) \<noteq> id_chan (((sv_id s)(a := (a, k, fd, nm))) d)"
      using b d other ok(1) by (auto simp: id_fields conns_ok_def split: if_splits)
  qed
  show "net_ok ?s m"
  proof (cases "m = l")
    case False
    with ok(2) [of m] n(6) [of m] unborn show ?thesis unfolding net_ok_def f by (auto split: if_splits)
  next
    case True
    have "chan_store (w_net w l) j = None" if "Suc k \<le> j" for j
      using that n(1,2) ok(2) [of l] by (simp add: frame.simps net_ok_def)
    moreover have "chan_next (w_net w l) = Suc k" using n(2) by (simp add: frame.simps)
    moreover have "wire d (socket_log (w_net w l)) = []"
      if "\<forall>b. ((sv_phase s)(a := q)) b \<noteq> Unborn \<longrightarrow> ((sv_home s)(a := l)) b = l \<longrightarrow> id_fd (((sv_id s)(a := (a, k, fd, nm))) b) \<noteq> d" for d
    proof -
      have "d \<noteq> fd" using that q by (auto simp: id_fields dest: spec [of _ a])
      moreover have "\<forall>b. sv_phase s b \<noteq> Unborn \<longrightarrow> sv_home s b = l \<longrightarrow> id_fd (sv_id s b) \<noteq> d"
        using that unborn by (metis fun_upd_other)
      ultimately show ?thesis using n(2) ok(2) [of l] by (simp add: frame.simps net_ok_def)
    qed
    ultimately show ?thesis using n(3) True unfolding net_ok_def f by simp
  qed
qed

lemma map_ok_add:
  assumes "map_ok s" "connections (sv_server s) nm = None" "connections srv = (connections (sv_server s))(nm \<mapsto> (l, a))"
    and "in_map q" "sv_phase s a = Unborn"
  shows "map_ok (with_conn_born a q l (a, k, fd, nm) srv w s)"
proof -
  have new: "\<not> (in_map (sv_phase s b) \<and> id_name (sv_id s b) = nm)" for b
    using assms(1,2) unfolding map_ok_def by (metis option.distinct(1))
  have un: "\<not> in_map (sv_phase s a)" using assms(5) by (simp add: in_map_def)
  show ?thesis
    using assms(1,3,4) new un unfolding map_ok_def with_conn_born_def by (auto simp: id_fields split: if_splits)
qed

lemma accepted_ok:
  assumes s: "service_ok s" and env: "bystander g env" and id: "next_connid (sv_server s) < INT_MAX"
    and w: "w_net w = w_net (sv_world s)" "w_next_conn w = w_next_conn (sv_world s)"
    and fd: "0 \<le> fd" "\<And>m. epoll_interest (net_at m s) fd = None" "\<And>b. sv_phase s b \<noteq> Unborn \<Longrightarrow> id_fd (sv_id s b) \<noteq> fd"
    and l: "l = chosen_loop (sv_server s)" and a: "a = w_next_conn (sv_world s)"
  shows "\<exists>srv' w'. NewTcpConnection K io env r (main_tid s) fd peer (sv_server s) w = Inr (srv', w') \<and>
    srv_acceptor srv' = srv_acceptor (sv_server s) \<and> w_next_conn w' = a + 1 \<and>
    (\<forall>m. \<exists>push. pending_functors (w_net w' m) = pending_functors (net_at m s) @ push) \<and>
    service_ok (with_conn_born a (if IsInLoopThread (main_tid s) (net_at l s) then Live else Filed) l
      (a, chan_next (net_at l s), fd, connection_name (sv_server s)) srv' w' s)"
proof -
  have ok: "server_ok s" "map_ok s" "conns_ok s" "\<And>m. net_ok s m" "\<And>m. functors_ok s m"
    using s by (simp_all add: service_ok_def)
  let ?n = "net_at l s" and ?srv = "sv_server s" and ?tid = "main_tid s"
  let ?q = "if IsInLoopThread ?tid ?n then Live else Filed"
  let ?nm = "connection_name ?srv"
  have n: "w_net w m = net_at m s" for m by (simp add: w(1) net_at_def)
  have "main_tid s = loop_tid (net_at (srv_loop ?srv) s)" by (simp add: main_tid_def main_loop_def)
  then have ready: "server_ready ?tid ?srv w"
    using ok(1) id by (cases "srv_pool ?srv") (auto simp: server_ok_def server_ready_def n main_loop_def)
  have fresh: "fresh_fd fd ?n" using ok(4) [of l] fd(1,2) by (simp add: fresh_fd_def net_ok_def)
  have wire: "wire fd (socket_log ?n) = []" using ok(4) [of l] fd(3) by (auto simp: net_ok_def)
  have m: "srv_message_cb ?srv \<noteq> None" using ok(1) by (simp add: server_ok_def)
  obtain s1 s2 s3 s4 s5 where chain:
      "new_connection a ?nm fd (fst (LocalAddr K fd (w_kern w))) peer ?n = Inr s1"
      "SetConnectionCallBack (srv_connection_cb ?srv) a s1 = Inr s2" "SetMessageCallBack (srv_message_cb ?srv) a s2 = Inr s3"
      "SetCloseCallBack (Some r) a s3 = Inr s4"
      "(if IsInLoopThread ?tid s4 then srv_other env (Establish a) s4
        else Inr (QueueInLoop ?tid (Closure (Other_closure (Establish a))) s4)) = Inr s5"
    and s5: "has_id (a, chan_next ?n, fd, ?nm) s5" "frame (a, chan_next ?n, fd, ?nm) (?n\<lparr>chan_next := Suc (chan_next ?n)\<rparr>) s5"
      "chan_inv s5" "conn_at a ?q [] s5"
    and queue: "\<exists>fs. pending_functors s5 = pending_functors ?n @
        (if IsInLoopThread ?tid ?n then map Closure fs else [Closure (Other_closure (Establish a))]) \<and> (\<forall>f \<in> set fs. own_functor a f)"
    using equipped_at [OF fresh wire env m, of a ?nm "fst (LocalAddr K fd (w_kern w))" peer "srv_connection_cb ?srv" r ?tid] by blast
  obtain pl w0 where run: "NewTcpConnection K io env r ?tid fd peer ?srv w =
      Inr (?srv\<lparr>srv_pool := pl, next_connid := next_connid ?srv + 1,
             connections := (connections ?srv)(?nm \<mapsto> (l, a))\<rparr>, w0\<lparr>w_net := (w_net w)(l := s5)\<rparr>)"
    "w_next_conn w0 = a + 1" "case pl of None \<Rightarrow> srv_pool ?srv = None | Some p \<Rightarrow> srv_pool ?srv \<noteq> None \<and> pool_ok ?tid p"
    using NewTcpConnection_run [OF ready l _ chain(1-4)[folded n] chain(5), of io] a w(2) by auto
  define srv where "srv = ?srv\<lparr>srv_pool := pl, next_connid := next_connid ?srv + 1, connections := (connections ?srv)(?nm \<mapsto> (l, a))\<rparr>"
  define w' where "w' = w0\<lparr>w_net := (w_net w)(l := s5)\<rparr>"
  define s' where "s' = with_conn_born a ?q l (a, chan_next ?n, fd, ?nm) srv w' s"
  have net: "net_at m s' = (if m = l then s5 else net_at m s)" for m by (simp add: s'_def with_conn_born_def net_at_def w'_def w(1))
  have unborn: "sv_phase s a = Unborn" using ok(3) a by (auto simp: conns_ok_def)
  have main: "main_loop s' = main_loop s" by (simp add: s'_def with_conn_born_def main_loop_def srv_def)
  have tids: "loop_tid (net_at m s') = loop_tid (net_at m s)" for m using s5(2) by (simp add: net frame.simps)
  have "conns_ok s'" "net_ok s' m" for m
    unfolding s'_def using s5 run(2) fd(3) a
    by (auto intro!: born_conns_ok [OF ok(3,4)] simp: w'_def n)
  moreover have "map_ok s'"
    unfolding s'_def using names_fresh ok(1,2) unborn
    by (intro map_ok_add) (auto simp: server_ok_def srv_def in_map_def)
  moreover have "server_ok s'"
  proof -
    have "names_ok srv" using ok(1) by (simp add: srv_def server_ok_def names_ok_add)
    moreover have "main_tid s' = main_tid s" using tids by (simp add: main_tid_def main)
    moreover have "sv_server s' = srv" by (simp add: s'_def with_conn_born_def)
    ultimately show ?thesis
      using ok(1) run(3) main tids by (cases pl) (simp_all add: server_ok_def srv_def)
  qed
  moreover have "functors_ok s' m" for m
  proof -
    obtain fs where fs: "pending_functors s5 = pending_functors ?n @
        (if IsInLoopThread ?tid ?n then map Closure fs else [Closure (Other_closure (Establish a))])" "\<forall>f \<in> set fs. own_functor a f"
      using queue by blast
    let ?push = "if m \<noteq> l then [] else if IsInLoopThread ?tid ?n then map Closure fs else [Closure (Other_closure (Establish a))]"
    have hist: "same_history s s' a"
      unfolding same_history_def main using unborn by (simp add: s'_def with_conn_born_def established_def)
    have phase: "sv_phase s' a = ?q" "sv_home s' a = l" by (simp_all add: s'_def with_conn_born_def)
    show ?thesis
    proof (rule functors_ok_shift [OF ok(5) hist, where pop = "[]" and push = ?push and rest = "pending_functors (net_at m s)"])
      show "pending_functors (net_at m s') = pending_functors (net_at m s) @ ?push" using fs(1) by (simp add: net)
      show "list_all (functor_ok s' m) ?push"
        using fs(2) phase by (auto simp: list_all_iff established_def intro!: own_functor_ok)
      show "count_list ?push (Closure (Other_closure u)) + (if due s m u then 1 else 0) =
          count_list [] (Closure (Other_closure u)) + (if due s' m u then 1 else 0)" if "about u = Some a" for u
        using that fs(2) unborn phase by (cases u) auto
      show "count_list ?push (Closure (Other_closure u)) = count_list [] (Closure (Other_closure u))" if "about u \<noteq> Some a" for u
        using that fs(2) by auto
    qed simp
  qed
  ultimately have "service_ok s'" by (simp add: service_ok_def)
  moreover have "\<exists>push. pending_functors (w_net w' m) = pending_functors (net_at m s) @ push" for m
    using queue by (cases "m = l") (auto simp: w'_def n)
  ultimately show ?thesis using run(1,2) unfolding s'_def srv_def w'_def
    by (intro exI conjI) (assumption | simp)+
qed

lemma shed_connection_same:
  "shed_connection K acc w = (acc', w') \<Longrightarrow> w_net w' = w_net w \<and> w_next_conn w' = w_next_conn w \<and> acc_loop acc' = acc_loop acc"
  by (auto simp: shed_connection_def on_kern_def split: prod.splits)

text \<open>An accept brings a connection, or nothing the connections could notice.\<close>

lemma service_accept_cases:
  assumes s: "service_ok s" and env: "bystander g env" and id: "next_connid (sv_server s) < INT_MAX" and fd: "gives_new_fd K s"
    and a: "Accept K (acc_socket (srv_acceptor (sv_server s))) (w_kern (sv_world s)) = ((fd, peer, err), k')"
  defines "c \<equiv> w_next_conn (sv_world s)" and "l \<equiv> chosen_loop (sv_server s)"
  shows "\<exists>s'. service_accept K io env r s = Inr s' \<and> service_ok s' \<and> grows s s' \<and>
    (if Valid fd
     then \<exists>srv w. w_next_conn w = c + 1 \<and>
       s' = with_conn_born c (if IsInLoopThread (main_tid s) (net_at l s) then Live else Filed) l
         (c, chan_next (net_at l s), fd, connection_name (sv_server s)) srv w s
     else w_next_conn (sv_world s') = c \<and> sv_phase s' = sv_phase s)"
proof -
  let ?srv = "sv_server s" and ?w = "sv_world s"
  let ?acc = "srv_acceptor ?srv"
  have acc: "acc_loop ?acc = main_loop s" and unborn: "sv_phase s c = Unborn"
    using s by (auto simp: service_ok_def server_ok_def conns_ok_def c_def)
  have thread: "IsInLoopThread (main_tid s) (w_net ?w (acc_loop ?acc))"
    by (simp add: IsInLoopThread_def main_tid_def net_at_def acc)
  define w where "w = ?w\<lparr>w_kern := k'\<rparr>"
  have w: "w_net w = w_net ?w" "w_next_conn w = w_next_conn ?w" by (simp_all add: w_def)
  have on: "on_kern (Accept K (acc_socket ?acc)) ?w = ((fd, peer, err), w)" by (simp add: on_kern_def a w_def)
  have idle: ?thesis
    if "\<not> Valid fd" "acceptor_HandleRead K (main_tid s) (Some (NewTcpConnection K io env r (main_tid s))) ?acc ?srv ?w = Inr (acc', ?srv, w')"
      "acc_loop acc' = main_loop s" "w_net w' = w_net ?w" "w_next_conn w' = w_next_conn ?w" for acc' w'
    using that service_ok_idle [OF s that(3-5)]
    by (intro exI [of _ "s\<lparr>sv_server := ?srv\<lparr>srv_acceptor := acc'\<rparr>, sv_world := w'\<rparr>"]) (simp add: service_accept_def net_at_def c_def grows_def)
  show ?thesis
  proof (cases "Valid fd")
    case True
    let ?peer = "case peer of Some b \<Rightarrow> b | None \<Rightarrow> InetAddr_port 0 False"
    let ?p = "if IsInLoopThread (main_tid s) (net_at l s) then Live else Filed"
    let ?i = "(c, chan_next (net_at l s), fd, connection_name ?srv)"
    have new: "0 \<le> fd" "\<And>m. epoll_interest (net_at m s) fd = None" "\<And>b. sv_phase s b \<noteq> Unborn \<Longrightarrow> id_fd (sv_id s b) \<noteq> fd"
      using True fd by (simp_all add: gives_new_fd_def a Valid_def)
    from accepted_ok [OF s env id w new l_def [THEN meta_eq_to_obj_eq] c_def [THEN meta_eq_to_obj_eq], of K io r ?peer] obtain srv' w' where
      n: "NewTcpConnection K io env r (main_tid s) fd ?peer ?srv w = Inr (srv', w')" "srv_acceptor srv' = ?acc"
        "w_next_conn w' = c + 1" "\<forall>m. \<exists>push. pending_functors (w_net w' m) = pending_functors (net_at m s) @ push"
      and ok': "service_ok (with_conn_born c ?p l ?i srv' w' s)" by blast
    have "srv'\<lparr>srv_acceptor := ?acc\<rparr> = srv'" using n(2) by (cases srv') simp
    then have "service_accept K io env r s = Inr (with_conn_born c ?p l ?i srv' w' s)"
      using True thread on n(1,3) a
      by (simp add: service_accept_def Let_def acceptor_HandleRead_def with_conn_born_def net_at_def c_def l_def)
    moreover have "grows s (with_conn_born c ?p l ?i srv' w' s)"
      using n(4) unborn by (auto simp: grows_def net_at_def with_conn_born_def)
    ultimately show ?thesis using True ok' n(3) by (intro exI [of _ "with_conn_born c ?p l ?i srv' w' s"]) auto
  next
    case False
    show ?thesis
    proof (cases "err = EMFILE \<or> err = ENFILE")
      case True
      obtain acc' w' where sh: "shed_connection K ?acc w = (acc', w')" by fastforce
      have "acceptor_HandleRead K (main_tid s) (Some (NewTcpConnection K io env r (main_tid s))) ?acc ?srv ?w = Inr (acc', ?srv, w')"
        using False True thread on sh by (simp add: acceptor_HandleRead_def)
      from idle [OF False this] shed_connection_same [OF sh] acc w show ?thesis by auto
    next
      case no: False
      then have "acceptor_HandleRead K (main_tid s) (Some (NewTcpConnection K io env r (main_tid s))) ?acc ?srv ?w = Inr (?acc, ?srv, w)"
        using False thread on by (simp add: acceptor_HandleRead_def)
      from idle [OF False this] acc w show ?thesis by auto
    qed
  qed
qed

lemma service_accept_ok:
  assumes "service_ok s" "bystander g env" "next_connid (sv_server s) < INT_MAX" "gives_new_fd K s"
  shows "\<exists>s'. service_accept K io env r s = Inr s' \<and> service_ok s' \<and> grows s s'"
proof -
  obtain fd peer err k' where
    "Accept K (acc_socket (srv_acceptor (sv_server s))) (w_kern (sv_world s)) = ((fd, peer, err), k')" by (metis prod.collapse)
  from service_accept_cases [OF assms this] show ?thesis by blast
qed

end
