(* ===== verification/ServiceRuns.thy ===== *)
theory ServiceRuns
  imports Service
begin

section \<open>Every interleaving of a server\<close>

text \<open>
  What holds of a server with any number of connections, in any loops, after any sequence
  of the steps of \<open>Service\<close>: no step fails, the map and the queues agree with the
  connections, streams stay apart, and every functor of the server takes effect in its
  turn.
\<close>

text \<open>A step leaves the queues to grow, or takes the first functor off one and runs it.\<close>

definition advances :: "('c, 'z, 'k) service \<Rightarrow> ('c, 'z, 'k) service \<Rightarrow> bool" where
  "advances s s' \<longleftrightarrow> grows s s' \<or> (\<exists>l f fs. pending_functors (net_at l s) = f # fs \<and> grows (pop_functor l s) s' \<and>
     (\<forall>u. f = Closure (Other_closure u) \<longrightarrow> took_effect u s'))"

lemma service_step_ok:
  assumes "service_step K io g env r s x" "service_ok s" "bystander g env"
  shows "\<exists>s'. x = Inr s' \<and> service_ok s' \<and> advances s s'"
  using assms(1)
proof cases
  case accept
  with service_accept_ok [OF assms(2,3)] show ?thesis unfolding advances_def by blast
next
  case (event a op)
  with service_conn_ok [OF assms(2,3)] show ?thesis unfolding advances_def by blast
next
  case (run l f fs w)
  obtain s' where "service_functor K io g env r w l s = Inr s'" "service_ok s'" "grows (pop_functor l s) s'"
      "\<forall>u. f = Closure (Other_closure u) \<longrightarrow> took_effect u s'"
    using service_functor_ok [OF assms(2,3) run(2,3)] by blast
  with run(1,2) show ?thesis unfolding advances_def by blast
next
  case (send a tid m)
  with service_send_ok [OF assms(2,3)] show ?thesis unfolding advances_def by blast
qed

lemma service_reach_ok:
  assumes "service_reach K io g env r s0 s" "service_init s0" "bystander g env"
  shows "service_ok s"
  using assms(1)
proof induction
  case start
  then show ?case using service_init_ok [OF assms(2)] .
next
  case (step s s')
  then show ?case using service_step_ok [OF step(2,3) assms(3)] by simp
qed

lemma born_conn:
  assumes "conns_ok s" "sv_phase s a \<noteq> Unborn"
  defines "c \<equiv> the_conn a (net_at (sv_home s a) s)"
  shows "conn_name c = id_name (sv_id s a) \<and> conn_sockfd c = id_fd (sv_id s a) \<and> conns (net_at (sv_home s a) s) a \<noteq> None \<and>
    (conn_state c = kConnecting \<longleftrightarrow> sv_phase s a = Filed)"
proof -
  obtain k fd nm where "sv_id s a = (a, k, fd, nm)" "has_id (a, k, fd, nm) (net_at (sv_home s a) s)"
      "conn_at a (sv_phase s a) (sv_taken s a) (net_at (sv_home s a) s)"
    using born_id [OF assms(1,2)] .
  then show ?thesis
    by (auto simp: c_def has_id.simps conn_at_def id_fields the_conn_def dest!: conn_viewD(1) split: option.splits)
qed

subsection \<open>Turns of a loop\<close>

text \<open>A loop takes at least \<open>n\<close> turns, whatever else happens between them.\<close>

inductive service_turns ::
  "'k kernel \<Rightarrow> (srv_closure, 'c, 'z) socket_answers \<Rightarrow> ('z \<Rightarrow> nat) \<Rightarrow> (srv_closure, 'c, 'z) conn_env \<Rightarrow> 'c \<Rightarrow> nat \<Rightarrow>
   nat \<Rightarrow> ('c, 'z, 'k) service \<Rightarrow> ('c, 'z, 'k) service \<Rightarrow> bool" for K io g env r l where
  none: "service_turns K io g env r l 0 s s"
| other: "service_turns K io g env r l n s s' \<Longrightarrow> service_step K io g env r s' (Inr s'') \<Longrightarrow>
    service_turns K io g env r l n s s''"
| turn: "service_turns K io g env r l n s s' \<Longrightarrow> pending_functors (net_at l s') = f # fs \<Longrightarrow>
    functor_fits w f s' \<Longrightarrow> service_functor K io g env r w l s' = Inr s'' \<Longrightarrow> service_turns K io g env r l (Suc n) s s''"

text \<open>The functor is still behind \<open>k\<close> others, or it has run.\<close>

definition waits :: "nat \<Rightarrow> srv_closure \<Rightarrow> nat \<Rightarrow> ('c, 'z, 'k) service \<Rightarrow> bool" where
  "waits l u k s \<longleftrightarrow> took_effect u s \<or>
     (\<exists>pre post. pending_functors (net_at l s) = pre @ Closure (Other_closure u) # post \<and> length pre < k)"

lemma took_effect_grows: "grows s s' \<Longrightarrow> took_effect u s \<Longrightarrow> took_effect u s'"
proof (cases u)
  case (Destroy a)
  assume "grows s s'" "took_effect u s"
  then have "phase_rank Gone \<le> phase_rank (sv_phase s' a)" using Destroy by (auto simp: grows_def dest: spec [of _ a])
  then have "sv_phase s' a = Gone" by (cases "sv_phase s' a") simp_all
  with Destroy show ?thesis by simp
qed (auto simp: grows_def intro: order_trans)

lemma took_effect_pop [simp]: "took_effect u (pop_functor l s) = took_effect u s"
  by (cases u) simp_all

lemma waits_grows: "grows s s' \<Longrightarrow> waits l u k s \<Longrightarrow> waits l u k s'"
proof -
  assume g: "grows s s'" and w: "waits l u k s"
  then obtain push where push: "pending_functors (net_at l s') = pending_functors (net_at l s) @ push" by (auto simp: grows_def)
  have "took_effect u s' \<or>
    (\<exists>post. pending_functors (net_at l s') = pre @ Closure (Other_closure u) # post)"
    if "pending_functors (net_at l s) = pre @ Closure (Other_closure u) # post" for pre post
    using push that by simp
  then show "waits l u k s'" using w took_effect_grows [OF g] unfolding waits_def by metis
qed

lemma waits_pop:
  assumes "waits l u k s" "pending_functors (net_at j s) = f # fs" "f = Closure (Other_closure u) \<Longrightarrow> j \<noteq> l"
  shows "waits l u (if j = l then k - 1 else k) (pop_functor j s)"
proof (cases "took_effect u s")
  case False
  then obtain pre post where q: "pending_functors (net_at l s) = pre @ Closure (Other_closure u) # post" "length pre < k"
    using assms(1) by (auto simp: waits_def)
  show ?thesis
  proof (cases "j = l")
    case True
    then obtain p where "pre = f # p" using q(1) assms(2,3) by (cases pre) auto
    with q True show ?thesis
      unfolding waits_def by (intro disjI2 exI [of _ p] exI [of _ post]) (simp add: pop_functor_net)
  qed (use q in \<open>auto simp: waits_def pop_functor_net\<close>)
qed (simp add: waits_def)

lemma waits_run:
  assumes "waits l u k s" "pending_functors (net_at j s) = f # fs" "grows (pop_functor j s) s'"
    and "\<forall>v. f = Closure (Other_closure v) \<longrightarrow> took_effect v s'"
  shows "waits l u (if j = l then k - 1 else k) s'"
proof (cases "f = Closure (Other_closure u)")
  case True
  with assms(4) show ?thesis by (simp add: waits_def)
next
  case False
  from waits_grows [OF assms(3) waits_pop [OF assms(1,2)]] False show ?thesis by blast
qed

lemma waits_mono: "waits l u k s \<Longrightarrow> k \<le> m \<Longrightarrow> waits l u m s"
  by (auto simp: waits_def)

lemma waits_advances: "advances s s' \<Longrightarrow> waits l u k s \<Longrightarrow> waits l u k s'"
proof -
  assume s: "advances s s'" "waits l u k s"
  have "waits l u k s'" if "waits l u (if j = l then k - 1 else k) s'" for j
    using that by (rule waits_mono) simp
  with s waits_grows waits_run show ?thesis unfolding advances_def by metis
qed

lemma turns_waits:
  assumes "service_turns K io g env r l n s s'" "bystander g env" "service_ok s" "waits l u k s"
  shows "service_ok s' \<and> waits l u (k - n) s'"
  using assms(1,3,4)
proof induction
  case (other n s s' s'')
  have ok: "service_ok s'" "waits l u (k - n) s'" using other by blast+
  have "service_ok s''" "advances s' s''" using service_step_ok [OF other(2) ok(1) assms(2)] by simp_all
  with waits_advances [OF _ ok(2)] show ?case by blast
next
  case (turn n s s' f fs w s'')
  have ok: "service_ok s'" "waits l u (k - n) s'" using turn by blast+
  obtain t where "service_functor K io g env r w l s' = Inr t" "service_ok t" "grows (pop_functor l s') t"
      "\<forall>v. f = Closure (Other_closure v) \<longrightarrow> took_effect v t"
    using service_functor_ok [OF ok(1) assms(2) turn(2,3)] by blast
  with waits_run [OF ok(2) turn(2), of t] turn(4) show ?case by simp
qed simp

subsection \<open>A server with two loops\<close>

text \<open>A kernel with new descriptors for its connections, and a server that deals to the loops 1 and 2.\<close>

definition number_kernel :: "(nat \<times> nat) kernel" where
  "number_kernel = count_kernel\<lparr>sys_accept4 := (\<lambda>fd (free, backlog).
     if backlog = 0 then (Sys_fail 11, free, backlog) else (Sys (int backlog + 8, InetAddr_port 80 False), free, backlog - 1))\<rparr>"

definition demo_service :: "(nat, nat, nat \<times> nat) service" where
  "demo_service =
     \<lparr>sv_server = demo_server\<lparr>srv_pool := Some \<lparr>pool_started = True, pool_next = 0, pool_tid = 0, pool_loops = [1, 2]\<rparr>\<rparr>,
      sv_world = \<lparr>w_net = (\<lambda>l. empty_net\<lparr>loop_tid := int l\<rparr>), w_kern = (9, 5), w_next_conn = 0\<rparr>,
      sv_phase = (\<lambda>a. Unborn), sv_home = (\<lambda>a. 0), sv_id = (\<lambda>a. (0, 0, 0, [])), sv_taken = (\<lambda>a. [])\<rparr>"

lemma demo_service_init: "service_init demo_service"
  by (simp add: service_init_def server_ok_def demo_service_def demo_server_def names_ok_def net_at_def main_loop_def main_tid_def
      pool_ok_def empty_net_def chan_inv_def)

lemma count_env_bystander: "bystander id count_env"
  by (simp add: bystander_def count_env_def same_net_def)

abbreviation demo_reach :: "(nat, nat, nat \<times> nat) service \<Rightarrow> bool" where
  "demo_reach \<equiv> service_reach number_kernel demo_io id count_env 3 demo_service"

abbreviation demo_step :: "(nat, nat, nat \<times> nat) service \<Rightarrow> (nat, nat, nat \<times> nat) service res \<Rightarrow> bool" where
  "demo_step \<equiv> service_step number_kernel demo_io id count_env 3"

text \<open>Its first connection is filed, with \<open>EstablishConnection\<close> queued in loop 1, whose next turn establishes it.\<close>

lemma demo_accept:
  "\<exists>s. demo_reach s \<and> service_ok s \<and> w_next_conn (sv_world s) = 1 \<and> sv_phase s 0 = Filed \<and> sv_home s 0 = 1 \<and>
     pending_functors (net_at 1 s) = [Closure (Other_closure (Establish 0))]"
proof -
  let ?s = demo_service
  have a: "Accept number_kernel (acc_socket (srv_acceptor (sv_server ?s))) (w_kern (sv_world ?s)) =
      ((13, Some (InetAddr_port 80 False), 0), (9, 4))"
    by (simp add: Accept_def number_kernel_def demo_service_def)
  have id: "next_connid (sv_server ?s) < INT_MAX" by (simp add: demo_service_def demo_server_def INT_MAX_def)
  have fd: "gives_new_fd number_kernel ?s"
    using a by (simp add: gives_new_fd_def Let_def) (simp add: demo_service_def net_at_def empty_net_def)
  have l: "chosen_loop (sv_server ?s) = 1" "\<not> IsInLoopThread (main_tid ?s) (net_at 1 ?s)" "w_next_conn (sv_world ?s) = 0"
    by (simp_all add: demo_service_def demo_server_def chosen_loop_def IsInLoopThread_def main_tid_def main_loop_def net_at_def empty_net_def)
  obtain s srv w where s: "service_accept number_kernel demo_io count_env 3 ?s = Inr s" "service_ok s" "w_next_conn w = 1"
      "s = with_conn_born 0 Filed 1 (0, chan_next (net_at 1 ?s), 13, connection_name (sv_server ?s)) srv w ?s"
    using service_accept_cases [OF service_init_ok [OF demo_service_init] count_env_bystander id fd a, of demo_io 3] l
    by (auto simp: Valid_def)
  have born: "w_next_conn (sv_world s) = 1" "sv_phase s 0 = Filed" "sv_home s 0 = 1" "\<And>a. sv_phase s a \<noteq> Unborn \<Longrightarrow> a = 0"
    using s(3,4) by (auto simp: with_conn_born_def demo_service_def split: if_splits)
  have q: "functor_ok s 1 f" if "f \<in> set (pending_functors (net_at 1 s))" for f
    using s(2) that by (auto simp: service_ok_def functors_ok_def list_all_iff)
  have count: "count_list (pending_functors (net_at 1 s)) (Closure (Other_closure u)) = (if due s 1 u then 1 else 0)" for u
    using s(2) by (simp add: service_ok_def functors_ok_def)
  have only: "f = Closure (Other_closure (Establish 0))" if "f \<in> set (pending_functors (net_at 1 s))" for f
  proof (cases f)
    case (Closure x)
    note ok = q [OF that]
    have "\<not> established (sv_phase s a)" for a using born(2,4) by (cases "a = 0") (auto simp: established_def)
    with ok Closure have "\<exists>u. x = Other_closure u" by (cases x) auto
    then obtain u where x: "x = Other_closure u" ..
    from that have "due s 1 u" using count [of u] x Closure by (auto simp: count_list_0_iff split: if_splits)
    moreover have "sv_phase s a \<noteq> Closing" "sv_phase s a \<noteq> Leaving" "sv_phase s a = Filed \<Longrightarrow> a = 0" for a
      using born(2) born(4) [of a] by (cases "a = 0"; force)+
    ultimately have "u = Establish 0" by (cases u) auto
    with x Closure show ?thesis by simp
  qed (use q [OF that] in simp)
  have "count_list (pending_functors (net_at 1 s)) (Closure (Other_closure (Establish 0))) = 1" using count [of "Establish 0"] born by simp
  then have "pending_functors (net_at 1 s) = [Closure (Other_closure (Establish 0))]"
    using only by (cases "pending_functors (net_at 1 s)" rule: remdups_adj.cases) (auto split: if_splits)
  moreover have "demo_step ?s (Inr s)" using service_step.accept [OF id fd] s(1) by metis
  then have "demo_reach s" by (rule service_reach.step [OF service_reach.start])
  ultimately show ?thesis using s(2) born by blast
qed

lemma demo_establish:
  "\<exists>s s'. demo_reach s \<and> sv_phase s 0 = Filed \<and> pending_functors (net_at 1 s) = [Closure (Other_closure (Establish 0))] \<and>
     demo_step s (Inr s') \<and> service_turns number_kernel demo_io id count_env 3 1 1 s s'"
proof -
  obtain s where s: "demo_reach s" "service_ok s" "sv_phase s 0 = Filed" "sv_home s 0 = 1"
      "pending_functors (net_at 1 s) = [Closure (Other_closure (Establish 0))]" using demo_accept by blast
  have fits: "functor_fits (Write_ok 0) (Closure (Other_closure (Establish 0))) s" by (simp add: functor_fits_def)
  obtain s' where s': "service_functor number_kernel demo_io id count_env 3 (Write_ok 0) 1 s = Inr s'"
    using service_functor_ok [OF s(2) count_env_bystander s(5) fits] by blast
  have "demo_step s (Inr s')" using service_step.run [OF s(5) fits] s' by metis
  moreover have "service_turns number_kernel demo_io id count_env 3 1 (Suc 0) s s'"
    by (rule service_turns.turn [OF service_turns.none s(5) fits s'])
  ultimately show ?thesis using s by auto
qed

subsection \<open>Properties\<close>



text \<open>
  C3: The map of a server and the queues agree with the connections, under every
  interleaving. Each connection is in the map under its name, with its loop, until its
  removal has run in the loop of the server; and just one functor carries it on: while it
  is not established \<open>EstablishConnection\<close> is queued once in its loop, when it has closed
  its removal is queued once in the loop of the server, when it has been removed
  \<open>DestroyConnection\<close> is queued once in its loop, and else none is queued anywhere.
\<close>

theorem service_registry:
  assumes "service_init s0" "bystander g env" "service_reach K io g env r s0 s"
  shows "(\<forall>nm l a. connections (sv_server s) nm = Some (l, a) \<longleftrightarrow>
      sv_phase s a \<in> {Filed, Live, Closing} \<and> l = sv_home s a \<and> nm = conn_name (the_conn a (net_at l s))) \<and>
    (\<forall>a < w_next_conn (sv_world s). conns (net_at (sv_home s a) s) a \<noteq> None \<and>
      (conn_state (the_conn a (net_at (sv_home s a) s)) = kConnecting \<longleftrightarrow> sv_phase s a = Filed)) \<and>
    (\<forall>l a. count_list (pending_functors (net_at l s)) (Closure (Other_closure (Establish a))) =
      (if sv_phase s a = Filed \<and> l = sv_home s a then 1 else 0)) \<and>
    (\<forall>l nm m a. count_list (pending_functors (net_at l s)) (Closure (Other_closure (Remove nm m a))) =
      (if sv_phase s a = Closing \<and> l = srv_loop (sv_server s) \<and> m = sv_home s a \<and> nm = conn_name (the_conn a (net_at m s)) then 1 else 0)) \<and>
    (\<forall>l a. count_list (pending_functors (net_at l s)) (Closure (Other_closure (Destroy a))) =
      (if sv_phase s a = Leaving \<and> l = sv_home s a then 1 else 0))"
proof -
  have ok: "map_ok s" "conns_ok s" "\<And>l. functors_ok s l"
    using service_reach_ok [OF assms(3,1,2)] by (simp_all add: service_ok_def)
  note name = born_conn [OF ok(2)]
  have count: "count_list (pending_functors (net_at l s)) (Closure (Other_closure u)) = (if due s l u then 1 else 0)" for l u
    using ok(3) by (simp add: functors_ok_def)
  have "connections (sv_server s) nm = Some (l, a) \<longleftrightarrow>
      sv_phase s a \<in> {Filed, Live, Closing} \<and> l = sv_home s a \<and> nm = conn_name (the_conn a (net_at l s))" for nm l a
    using ok(1) name [of a] by (cases "sv_phase s a = Unborn") (auto simp: map_ok_def in_map_def)
  moreover have "conns (net_at (sv_home s a) s) a \<noteq> None \<and>
      (conn_state (the_conn a (net_at (sv_home s a) s)) = kConnecting \<longleftrightarrow> sv_phase s a = Filed)"
    if "a < w_next_conn (sv_world s)" for a
    using ok(2) that name [of a] by (simp add: conns_ok_def)
  moreover have "due s l (Remove nm m a) \<longleftrightarrow> sv_phase s a = Closing \<and> l = srv_loop (sv_server s) \<and> m = sv_home s a \<and>
      nm = conn_name (the_conn a (net_at m s))" for l nm m a
    using name [of a] by (cases "sv_phase s a = Unborn") (auto simp: main_loop_def)
  ultimately show ?thesis by (simp add: count eq_commute [of _ "sv_home s _"])
qed

theorem service_registry_witness:
  "\<exists>s. demo_reach s \<and> connections (sv_server s) (conn_name (the_conn 0 (net_at 1 s))) = Some (1, 0) \<and>
     count_list (pending_functors (net_at 1 s)) (Closure (Other_closure (Establish 0))) = 1"
proof -
  obtain s where s: "demo_reach s" "sv_phase s 0 = Filed" "sv_home s 0 = 1" using demo_accept by blast
  note r = service_registry [OF demo_service_init count_env_bystander s(1)]
  from r s(2,3) have "connections (sv_server s) (conn_name (the_conn 0 (net_at 1 s))) = Some (1, 0)" by (metis insertCI)
  moreover from r s(2,3) have "count_list (pending_functors (net_at 1 s)) (Closure (Other_closure (Establish 0))) = 1" by metis
  ultimately show ?thesis using s(1) by blast
qed



lemma took_effect_state:
  assumes "took_effect u s" "service_ok s"
  shows "case u of
      Establish a \<Rightarrow> conn_state (the_conn a (net_at (sv_home s a) s)) \<noteq> kConnecting
    | Remove nm m a \<Rightarrow> connections (sv_server s) nm \<noteq> Some (m, a)
    | Destroy a \<Rightarrow> (let n = net_at (sv_home s a) s in
        conn_channel (the_conn a n) \<notin> channels n \<and> epoll_interest n (conn_sockfd (the_conn a n)) = None)
    | _ \<Rightarrow> True"
proof -
  have ok: "conns_ok s" "map_ok s" using assms(2) by (simp_all add: service_ok_def)
  show ?thesis
  proof (cases u)
    case (Establish a)
    then have "sv_phase s a \<noteq> Unborn" "sv_phase s a \<noteq> Filed" using assms(1) by auto
    with born_conn [OF ok(1)] Establish show ?thesis by simp
  next
    case (Remove nm m a)
    then have "\<not> in_map (sv_phase s a)" using assms(1) by (auto simp: in_map_def)
    with ok(2) Remove show ?thesis by (simp add: map_ok_def)
  next
    case (Destroy a)
    then have gone: "sv_phase s a = Gone" using assms(1) by simp
    then have "sv_phase s a \<noteq> Unborn" by simp
    from born_id [OF ok(1) this] gone have "conn_at a Gone (sv_taken s a) (net_at (sv_home s a) s)" by metis
    then obtain c ch where c: "conn_view a (net_at (sv_home s a) s) c ch"
        "conn_channel c \<notin> channels (net_at (sv_home s a) s)" "epoll_interest (net_at (sv_home s a) s) (conn_sockfd c) = None"
      unfolding conn_at_def by blast
    with Destroy show ?thesis by (simp add: conn_view_the [OF c(1)])
  qed simp_all
qed

text \<open>
  C4: Every functor of the server takes effect in its turn. If one is pending in a loop
  behind \<open>length pre\<close> others, then once the loop has taken one turn more than that,
  whatever has happened in between in any loop and thread, the connection has been
  established, or is no longer in the map, or its channel is out of its loop and of
  epoll, as the functor says. As no turn fails, a closed connection is
  destroyed after finitely many turns.
\<close>

theorem service_functors_drain:
  assumes "service_init s0" "bystander g env" "service_reach K io g env r s0 s"
    and "pending_functors (net_at l s) = pre @ Closure (Other_closure u) # post"
    and "service_turns K io g env r l n s s'" "length pre < n"
  shows "case u of
      Establish a \<Rightarrow> conn_state (the_conn a (net_at (sv_home s' a) s')) \<noteq> kConnecting
    | Remove nm m a \<Rightarrow> connections (sv_server s') nm \<noteq> Some (m, a)
    | Destroy a \<Rightarrow> (let n = net_at (sv_home s' a) s' in
        conn_channel (the_conn a n) \<notin> channels n \<and> epoll_interest n (conn_sockfd (the_conn a n)) = None)
    | _ \<Rightarrow> True"
proof -
  have "waits l u (length pre + 1) s" using assms(4) by (auto simp: waits_def)
  from turns_waits [OF assms(5,2) service_reach_ok [OF assms(3,1,2)] this]
  have "service_ok s'" "waits l u (length pre + 1 - n) s'" by blast+
  with assms(6) show ?thesis using took_effect_state by (simp add: waits_def)
qed

theorem service_functors_drain_witness:
  "\<exists>s s'. demo_reach s \<and> sv_phase s 0 = Filed \<and> service_turns number_kernel demo_io id count_env 3 1 1 s s' \<and>
     conn_state (the_conn 0 (net_at (sv_home s' 0) s')) \<noteq> kConnecting"
proof -
  obtain s s' where s: "demo_reach s" "sv_phase s 0 = Filed" "service_turns number_kernel demo_io id count_env 3 1 1 s s'"
      "pending_functors (net_at 1 s) = [] @ Closure (Other_closure (Establish 0)) # []"
    using demo_establish by auto
  with service_functors_drain [OF demo_service_init count_env_bystander s(1,4,3)] show ?thesis by auto
qed

end
