(* ===== verification/Connector.thy ===== *)
theory Connector
  imports TcpConnection
begin

section \<open>\<open>net/Connector\<close>: connecting and trying again\<close>

text \<open>
  A connector with the loop it lives in and the kernel. Its functors, its timer and the
  handlers of its channel are closures of the loop; \<open>'z\<close> of the record is what its owner
  adds to the state. What happens to a connected descriptor is up to the owner's callback.
  \<open>self\<close>, the \<open>shared_ptr\<close> that functors carry, keeps the connector alive until they ran.
\<close>

subsection \<open>State\<close>

datatype connector_state = C_Disconnected | C_Connecting | C_Connected

datatype cli_closure =
    Connector_start
  | Connector_stop
  | Connector_retry
  | Connector_reset
  | Connector_write
  | Connector_error
  | Client_destroy nat
  | Client_set_close nat

record connector =
  ctor_addr :: sockaddr_in
  ctor_start :: bool
  ctor_state :: connector_state
  ctor_channel :: "nat option"
  retry_duration :: duration
  ctor_tie :: nat

record ('c, 'z, 'k) client_world =
  cw_net :: "(cli_closure, 'c, 'z) net_scheme"
  cw_kern :: 'k
  cw_ctor :: connector

text \<open>0.1 and 30 seconds; both are whole numbers of nanoseconds as \<open>double\<close>s, too.\<close>

definition kInitRetryDuration :: duration where
  "kInitRetryDuration = Duration 100000000"

definition kMaxRetryDuration :: duration where
  "kMaxRetryDuration = Duration 30000000000"

definition new_connector :: "sockaddr_in \<Rightarrow> nat \<Rightarrow> connector" where
  "new_connector addr self =
     \<lparr>ctor_addr = addr, ctor_start = False, ctor_state = C_Disconnected, ctor_channel = None,
      retry_duration = kInitRetryDuration, ctor_tie = self\<rparr>"

definition delete_connector :: "connector \<Rightarrow> unit res" where
  "delete_connector t = assert_then (ctor_channel t = None) (Inr ())"

definition on_cnet ::
  "((cli_closure, 'c, 'z) net_scheme \<Rightarrow> (cli_closure, 'c, 'z) net_scheme res) \<Rightarrow> ('c, 'z, 'k, 'm) client_world_scheme \<Rightarrow>
   ('c, 'z, 'k, 'm) client_world_scheme res" where
  "on_cnet f w = res_bind (f (cw_net w)) (\<lambda>s. Inr (w\<lparr>cw_net := s\<rparr>))"

definition on_ckern ::
  "('k \<Rightarrow> 'a \<times> 'k) \<Rightarrow> ('c, 'z, 'k, 'm) client_world_scheme \<Rightarrow> 'a \<times> ('c, 'z, 'k, 'm) client_world_scheme" where
  "on_ckern f w = (let (r, k) = f (cw_kern w) in (r, w\<lparr>cw_kern := k\<rparr>))"

definition upd_ctor ::
  "(connector \<Rightarrow> connector) \<Rightarrow> ('c, 'z, 'k, 'm) client_world_scheme \<Rightarrow> ('c, 'z, 'k, 'm) client_world_scheme" where
  "upd_ctor g w = w\<lparr>cw_ctor := g (cw_ctor w)\<rparr>"

definition queue_cli :: "int \<Rightarrow> cli_closure \<Rightarrow> ('c, 'z, 'k, 'm) client_world_scheme \<Rightarrow> ('c, 'z, 'k, 'm) client_world_scheme" where
  "queue_cli tid f w = w\<lparr>cw_net := QueueInLoop tid (Closure (Other_closure f)) (cw_net w)\<rparr>"

subsection \<open>One attempt\<close>

text \<open>The channel leaves the loop at once; the pointer to it is reset by a functor, since the
  channel may be handling an event.\<close>

definition ResetChannel ::
  "int \<Rightarrow> ('c, 'z, 'k, 'm) client_world_scheme \<Rightarrow> (int \<times> ('c, 'z, 'k, 'm) client_world_scheme) res" where
  "ResetChannel tid w =
     (case ctor_channel (cw_ctor w) of
        None \<Rightarrow> Inl Undefined
      | Some ch \<Rightarrow>
          res_bind (on_cnet (DisableReadWrite tid ch) w) (\<lambda>w1.
          res_bind (on_cnet (Channel_Close tid ch) w1) (\<lambda>w2.
          with_chan ch (cw_net w2) (\<lambda>c. Inr (ch_fd c, queue_cli tid Connector_reset w2)))))"

definition reset_functor ::
  "('c, 'z, 'k, 'm) client_world_scheme \<Rightarrow> ('c, 'z, 'k, 'm) client_world_scheme res" where
  "reset_functor w =
     (case ctor_channel (cw_ctor w) of
        None \<Rightarrow> Inr w
      | Some ch \<Rightarrow> on_cnet (drop_channel ch) (upd_ctor (\<lambda>t. t\<lparr>ctor_channel := None\<rparr>) w))"

definition Retry ::
  "'k kernel \<Rightarrow> int \<Rightarrow> timestamp \<Rightarrow> int \<Rightarrow> ('c, 'z, 'k, 'm) client_world_scheme \<Rightarrow>
   ('c, 'z, 'k, 'm) client_world_scheme res" where
  "Retry K tid clock fd w =
     (let w1 = upd_ctor (\<lambda>t. t\<lparr>ctor_state := C_Disconnected\<rparr>) (snd (on_ckern (socket_Close K fd) w));
          delay = retry_duration (cw_ctor w1) in
      if ctor_start (cw_ctor w1) then
        res_bind (on_cnet (\<lambda>s. res_bind (RunAfter tid clock delay (Other_closure Connector_retry) s) (\<lambda>(i, s'). Inr s')) w1) (\<lambda>w2.
        res_bind (duration_mul delay 2) (\<lambda>d.
        Inr (upd_ctor (\<lambda>t. t\<lparr>retry_duration := if kMaxRetryDuration < d then kMaxRetryDuration else d\<rparr>) w2)))
      else Inr w1)"

definition Connecting ::
  "int \<Rightarrow> int \<Rightarrow> ('c, 'z, 'k, 'm) client_world_scheme \<Rightarrow> ('c, 'z, 'k, 'm) client_world_scheme res" where
  "Connecting tid fd w =
     (let w1 = upd_ctor (\<lambda>t. t\<lparr>ctor_state := C_Connecting\<rparr>) w in
      assert_then (ctor_channel (cw_ctor w1) = None)
        (let (ch, s) = new_channel fd (cw_net w1);
             w2 = upd_ctor (\<lambda>t. t\<lparr>ctor_channel := Some ch\<rparr>) (w1\<lparr>cw_net := s\<rparr>) in
         res_bind (on_cnet (SetWriteHandler (Other_closure Connector_write) ch) w2) (\<lambda>w3.
         res_bind (on_cnet (SetErrorHandler (Other_closure Connector_error) ch) w3) (\<lambda>w4.
         res_bind (on_cnet (Tie (ctor_tie (cw_ctor w4)) ch) w4)
           (on_cnet (EnableWrite tid ch))))))"

text \<open>
  The errors after which \<open>connect\<close> goes on in the background (\<open>EINPROGRESS\<close>, \<open>EINTR\<close>, \<open>EISCONN\<close>,
  and none), and those worth a new attempt (\<open>EADDRINUSE\<close>, \<open>EADDRNOTAVAIL\<close>, \<open>EAGAIN\<close>,
  \<open>ECONNREFUSED\<close>, \<open>ENETUNREACH\<close>, \<open>ETIMEDOUT\<close>).
\<close>

definition goes_on :: "nat list" where "goes_on = [0, 115, 4, 106]"

definition try_again :: "nat list" where "try_again = [98, 99, 11, 111, 101, 110]"

definition Connect ::
  "'k kernel \<Rightarrow> int \<Rightarrow> timestamp \<Rightarrow> ('c, 'z, 'k, 'm) client_world_scheme \<Rightarrow>
   ('c, 'z, 'k, 'm) client_world_scheme res" where
  "Connect K tid clock w =
     (let (fd, w1) = on_ckern (CreateNonblockSocket K) w;
          ((r, e), w2) = on_ckern (socket_Connect K fd (ctor_addr (cw_ctor w1))) w1;
          save_errno = (if r then 0 else e) in
      if save_errno \<in> set goes_on then Connecting tid fd w2
      else if save_errno \<in> set try_again then Retry K tid clock fd w2
      else Inr (snd (on_ckern (socket_Close K fd) w2)))"

subsection \<open>Start, stop, restart, timer\<close>

definition StartInLoop ::
  "'k kernel \<Rightarrow> int \<Rightarrow> timestamp \<Rightarrow> ('c, 'z, 'k, 'm) client_world_scheme \<Rightarrow>
   ('c, 'z, 'k, 'm) client_world_scheme res" where
  "StartInLoop K tid clock w =
     assert_then (IsInLoopThread tid (cw_net w))
       (assert_then (ctor_state (cw_ctor w) = C_Disconnected)
         (if ctor_start (cw_ctor w) then Connect K tid clock w else Inr w))"

definition ctor_Start ::
  "'k kernel \<Rightarrow> int \<Rightarrow> timestamp \<Rightarrow> ('c, 'z, 'k, 'm) client_world_scheme \<Rightarrow>
   ('c, 'z, 'k, 'm) client_world_scheme res" where
  "ctor_Start K tid clock w =
     (let w = upd_ctor (\<lambda>t. t\<lparr>ctor_start := True\<rparr>) w in
      if IsInLoopThread tid (cw_net w) then StartInLoop K tid clock w
      else Inr (queue_cli tid Connector_start w))"

definition StopInLoop ::
  "'k kernel \<Rightarrow> int \<Rightarrow> ('c, 'z, 'k, 'm) client_world_scheme \<Rightarrow> ('c, 'z, 'k, 'm) client_world_scheme res" where
  "StopInLoop K tid w =
     assert_then (IsInLoopThread tid (cw_net w))
       (if ctor_state (cw_ctor w) = C_Connecting then
          res_bind (ResetChannel tid (upd_ctor (\<lambda>t. t\<lparr>ctor_state := C_Disconnected\<rparr>) w)) (\<lambda>(fd, w1).
          Inr (snd (on_ckern (socket_Close K fd) w1)))
        else Inr w)"

definition ctor_Stop ::
  "'k kernel \<Rightarrow> int \<Rightarrow> ('c, 'z, 'k, 'm) client_world_scheme \<Rightarrow> ('c, 'z, 'k, 'm) client_world_scheme res" where
  "ctor_Stop K tid w =
     (let w = upd_ctor (\<lambda>t. t\<lparr>ctor_start := False\<rparr>) w in
      if IsInLoopThread tid (cw_net w) then StopInLoop K tid w else Inr (queue_cli tid Connector_stop w))"

definition ctor_Restart ::
  "'k kernel \<Rightarrow> int \<Rightarrow> timestamp \<Rightarrow> ('c, 'z, 'k, 'm) client_world_scheme \<Rightarrow>
   ('c, 'z, 'k, 'm) client_world_scheme res" where
  "ctor_Restart K tid clock w =
     assert_then (IsInLoopThread tid (cw_net w))
       (let w = upd_ctor (\<lambda>t. t\<lparr>ctor_state := C_Disconnected, retry_duration := kInitRetryDuration, ctor_start := True\<rparr>) w in
        if ctor_start (cw_ctor w) then Connect K tid clock w else Inr w)"

text \<open>The timer that \<open>Retry\<close> sets.\<close>

definition RetryInLoop ::
  "'k kernel \<Rightarrow> int \<Rightarrow> timestamp \<Rightarrow> ('c, 'z, 'k, 'm) client_world_scheme \<Rightarrow>
   ('c, 'z, 'k, 'm) client_world_scheme res" where
  "RetryInLoop K tid clock w =
     assert_then (IsInLoopThread tid (cw_net w))
       (assert_then (ctor_state (cw_ctor w) = C_Disconnected)
         (if ctor_start (cw_ctor w) then Connect K tid clock w else Inr w))"

subsection \<open>The handlers of the channel\<close>

type_synonym ('c, 'z, 'k, 'm) connect_cb =
  "int \<Rightarrow> ('c, 'z, 'k, 'm) client_world_scheme \<Rightarrow> ('c, 'z, 'k, 'm) client_world_scheme res"

definition ctor_HandleWrite ::
  "'k kernel \<Rightarrow> int \<Rightarrow> timestamp \<Rightarrow> ('c, 'z, 'k, 'm) connect_cb option \<Rightarrow> ('c, 'z, 'k, 'm) client_world_scheme \<Rightarrow>
   ('c, 'z, 'k, 'm) client_world_scheme res" where
  "ctor_HandleWrite K tid clock conn_cb w =
     res_bind (ResetChannel tid w) (\<lambda>(fd, w1).
     let (err, w2) = on_ckern (SocketError K fd) w1 in
     if err \<noteq> 0 then Retry K tid clock fd w2
     else
       let (local, w3) = on_ckern (LocalAddr K fd) w2; (peer, w4) = on_ckern (PeerAddr K fd) w3 in
       res_bind (IpPortString local) (\<lambda>ls.
       res_bind (IpPortString peer) (\<lambda>ps.
       if ls = ps then Retry K tid clock fd w4
       else
         let w5 = upd_ctor (\<lambda>t. t\<lparr>ctor_state := C_Connected\<rparr>) w4 in
         if ctor_start (cw_ctor w5) then (case conn_cb of None \<Rightarrow> Inl Bad_function | Some f \<Rightarrow> f fd w5)
         else Inr (snd (on_ckern (socket_Close K fd) w5)))))"

definition ctor_HandleError ::
  "'k kernel \<Rightarrow> int \<Rightarrow> timestamp \<Rightarrow> ('c, 'z, 'k, 'm) client_world_scheme \<Rightarrow>
   ('c, 'z, 'k, 'm) client_world_scheme res" where
  "ctor_HandleError K tid clock w =
     (if ctor_state (cw_ctor w) = C_Connecting then
        res_bind (ResetChannel tid w) (\<lambda>(fd, w1).
        let (err, w2) = on_ckern (SocketError K fd) w1 in Retry K tid clock fd w2)
      else Inr w)"

subsection \<open>The state under the operations\<close>

lemma on_cnet_Inr: "f (cw_net w) = Inr s \<Longrightarrow> on_cnet f w = Inr (w\<lparr>cw_net := s\<rparr>)"
  by (simp add: on_cnet_def)

lemma on_ckern_simps [simp]: "cw_net (snd (on_ckern f w)) = cw_net w" "cw_ctor (snd (on_ckern f w)) = cw_ctor w"
  "cw_kern (snd (on_ckern f w)) = snd (f (cw_kern w))" "fst (on_ckern f w) = fst (f (cw_kern w))"
  by (simp_all add: on_ckern_def split: prod.splits)

lemma upd_ctor_simps [simp]: "cw_net (upd_ctor g w) = cw_net w" "cw_kern (upd_ctor g w) = cw_kern w"
  "cw_ctor (upd_ctor g w) = g (cw_ctor w)"
  by (simp_all add: upd_ctor_def)

lemma queue_cli_simps [simp]: "cw_kern (queue_cli tid f w) = cw_kern w" "cw_ctor (queue_cli tid f w) = cw_ctor w"
  "cw_net (queue_cli tid f w) = QueueInLoop tid (Closure (Other_closure f)) (cw_net w)"
  by (simp_all add: queue_cli_def)

lemma queue_loop [simp]: "loop_tid (QueueInLoop tid f s) = loop_tid s" "channels (QueueInLoop tid f s) = channels s" "chan_store (QueueInLoop tid f s) = chan_store s"
  "epoll_interest (QueueInLoop tid f s) = epoll_interest s" "chan_next (QueueInLoop tid f s) = chan_next s"
  "mgr_next (QueueInLoop tid f s) = mgr_next s" "mgr_timers (QueueInLoop tid f s) = mgr_timers s"
  "mgr_heap (QueueInLoop tid f s) = mgr_heap s" "mgr_timer_num (QueueInLoop tid f s) = mgr_timer_num s"
  by (simp_all add: QueueInLoop_def Push_functor_def WakeUp_def Let_def)

lemma mgr_ok_cong:
  "mgr_heap t = mgr_heap s \<Longrightarrow> mgr_timers t = mgr_timers s \<Longrightarrow> mgr_next t = mgr_next s \<Longrightarrow>
   mgr_timer_num t = mgr_timer_num s \<Longrightarrow> mgr_ok t = mgr_ok s"
proof -
  assume eq: "mgr_heap t = mgr_heap s" "mgr_timers t = mgr_timers s" "mgr_next t = mgr_next s"
    "mgr_timer_num t = mgr_timer_num s"
  then have "when_of t = when_of s" by (simp add: when_of_def fun_eq_iff)
  with eq show ?thesis by (simp add: mgr_ok_def)
qed

text \<open>The loop of a connector, in its thread, with room for \<open>n\<close> more timers.\<close>

definition loop_ready :: "nat \<Rightarrow> int \<Rightarrow> ('f, 'z) loop \<Rightarrow> bool" where
  "loop_ready n tid s \<longleftrightarrow> chan_inv s \<and> mgr_ok s \<and> mgr_next s + n < size_mod \<and> loop_tid s = tid \<and>
     (\<forall>a \<ge> chan_next s. chan_store s a = None)"

lemma loop_ready_queue: "loop_ready n tid s \<Longrightarrow> loop_ready n tid (QueueInLoop t f s)"
proof -
  have "mgr_ok (QueueInLoop t f s) = mgr_ok s" "chan_inv (QueueInLoop t f s) = chan_inv s"
    by (rule mgr_ok_cong chan_inv_cong; simp)+
  then show "loop_ready n tid s \<Longrightarrow> loop_ready n tid (QueueInLoop t f s)" by (simp add: loop_ready_def)
qed

text \<open>A channel of the connector that waits on a descriptor for the connection.\<close>

definition connecting_on :: "int \<Rightarrow> ('c, 'z, 'k, 'm) client_world_scheme \<Rightarrow> bool" where
  "connecting_on fd w \<longleftrightarrow> ctor_state (cw_ctor w) = C_Connecting \<and> 0 \<le> fd \<and>
     (\<exists>a c. ctor_channel (cw_ctor w) = Some a \<and> a \<in> channels (cw_net w) \<and> chan_store (cw_net w) a = Some c \<and>
        ch_fd c = fd \<and> ch_events c = EPOLLOUT \<and> ch_owned c \<and> ch_read_cb c = None \<and>
        ch_write_cb c = Some (Other_closure Connector_write) \<and> ch_error_cb c = Some (Other_closure Connector_error))"

lemma Connecting_ok:
  fixes w :: "('c, 'z, 'k, 'm) client_world_scheme"
  assumes "loop_ready n tid (cw_net w)" "0 \<le> fd" "epoll_interest (cw_net w) fd = None" "ctor_channel (cw_ctor w) = None"
  shows "\<exists>w'. Connecting tid fd w = Inr w' \<and> connecting_on fd w' \<and> loop_ready n tid (cw_net w') \<and> cw_kern w' = cw_kern w \<and>
    ctor_start (cw_ctor w') = ctor_start (cw_ctor w) \<and> retry_duration (cw_ctor w') = retry_duration (cw_ctor w) \<and>
    epoll_interest (cw_net w') fd = Some (EPOLLOUT, chan_next (cw_net w)) \<and>
    mgr_timers (cw_net w') = mgr_timers (cw_net w) \<and> pending_functors (cw_net w') = pending_functors (cw_net w)"
proof -
  define a where "a = chan_next (cw_net w)"
  define c :: "cli_closure closure channel" where
    "c = \<lparr>ch_fd = fd, ch_events = 0, ch_revents = 0, ch_event_handling = False, ch_read_cb = None,
           ch_write_cb = Some (Other_closure Connector_write), ch_error_cb = Some (Other_closure Connector_error),
           ch_tie = Some (ctor_tie (cw_ctor w)), ch_owned = True\<rparr>"
  define s where "s = (cw_net w)\<lparr>chan_next := Suc a, chan_store := (chan_store (cw_net w))(a \<mapsto> c)\<rparr>"
  have fresh: "a \<notin> channels (cw_net w)" "chan_inv (cw_net w)" "loop_tid s = tid"
    using assms(1) chan_invD(3) [of "cw_net w" a] by (auto simp: loop_ready_def a_def s_def)
  have inv: "chan_inv s"
    using fresh unfolding chan_inv_def s_def by auto
  have reg: "can_register a c s" using assms(2,3) by (simp add: can_register_def s_def c_def)
  note s' = set_events_eq [OF inv reg, of "\<lambda>e. e OR EPOLLOUT"]
  note inv' = chan_inv_register [OF inv reg, of "c\<lparr>ch_events := EPOLLOUT\<rparr>"]
  let ?s = "s\<lparr>chan_store := (chan_store s)(a \<mapsto> c\<lparr>ch_events := EPOLLOUT\<rparr>), channels := insert a (channels s),
      epoll_interest := (epoll_interest s)(ch_fd c \<mapsto> (EPOLLOUT, a))\<rparr>"
  let ?w = "upd_ctor (\<lambda>t. t\<lparr>ctor_state := C_Connecting, ctor_channel := Some a\<rparr>) w"
  have "EnableWrite tid a s = Inr ?s" using s' fresh(3) by (simp add: EnableWrite_def c_def)
  then have "Connecting tid fd w = Inr (?w\<lparr>cw_net := ?s\<rparr>)"
    using assms(4)
    by (simp add: Connecting_def new_channel_def a_def [symmetric] on_cnet_def SetWriteHandler_def SetErrorHandler_def
        Tie_def upd_chan_def with_chan_def set_chan_def upd_ctor_def s_def c_def)
  moreover have "mgr_ok ?s = mgr_ok (cw_net w)" by (rule mgr_ok_cong) (simp_all add: s_def)
  then have "loop_ready n tid ?s"
    using inv' assms(1) by (simp add: loop_ready_def s_def c_def a_def)
  ultimately show ?thesis using assms(2)
    by (intro exI [of _ "?w\<lparr>cw_net := ?s\<rparr>"]) (auto simp: connecting_on_def a_def [symmetric] c_def s_def)
qed

text \<open>\<open>ResetChannel\<close>: the channel is out of the loop and mute, the pointer waits for the functor.\<close>

definition mute :: "nat \<Rightarrow> ('f, 'z) loop \<Rightarrow> bool" where
  "mute a s \<longleftrightarrow> a \<notin> channels s \<and> (\<exists>c. chan_store s a = Some c \<and> ch_events c = 0 \<and> ch_owned c \<and>
     ch_read_cb c = None \<and> ch_write_cb c = None \<and> ch_error_cb c = None)"

definition detaches :: "int \<Rightarrow> ('c, 'z, 'k, 'm) client_world_scheme \<Rightarrow> ('c, 'z, 'k, 'm) client_world_scheme \<Rightarrow> bool" where
  "detaches fd w w' \<longleftrightarrow>
     (\<exists>s. w' = w\<lparr>cw_net := s\<rparr> \<and> (\<forall>n tid. loop_ready n tid (cw_net w) \<longrightarrow> loop_ready n tid s) \<and> mgr_timers s = mgr_timers (cw_net w) \<and>
        mgr_next s = mgr_next (cw_net w) \<and> epoll_interest s = (epoll_interest (cw_net w))(fd := None) \<and>
        pending_functors s = pending_functors (cw_net w) @ [Closure (Other_closure Connector_reset)] \<and>
        (\<forall>a. ctor_channel (cw_ctor w) = Some a \<longrightarrow> mute a s))"

lemma ResetChannel_ok:
  assumes "loop_ready n tid (cw_net w)" "connecting_on fd w"
  shows "\<exists>w'. ResetChannel tid w = Inr (fd, w') \<and> detaches fd w w'"
proof -
  obtain a c where a: "ctor_channel (cw_ctor w) = Some a" "a \<in> channels (cw_net w)" "chan_store (cw_net w) a = Some c"
      "ch_fd c = fd" "ch_events c = EPOLLOUT" "ch_owned c" "0 \<le> fd"
    using assms(2) by (auto simp: connecting_on_def)
  let ?s = "cw_net w"
  have ready: "chan_inv ?s" "mgr_ok ?s" "tid = loop_tid ?s" "\<forall>b \<ge> chan_next ?s. chan_store ?s b = None"
    using assms(1) by (auto simp: loop_ready_def)
  have reg: "can_register a c ?s" using a by (simp add: can_register_def)
  let ?c1 = "c\<lparr>ch_events := 0\<rparr>"
  define s1 where "s1 = ?s\<lparr>chan_store := (chan_store ?s)(a \<mapsto> ?c1), channels := insert a (channels ?s),
      epoll_interest := (epoll_interest ?s)(ch_fd c \<mapsto> (0, a))\<rparr>"
  have off: "DisableReadWrite tid a ?s = Inr s1"
    using set_events_eq [OF ready(1) reg, of "\<lambda>e. e AND NOT (EPOLLIN OR EPOLLOUT)"] ready(3) a(5)
    by (simp add: DisableReadWrite_def s1_def epoll_bits)
  have inv1: "chan_inv s1" using chan_inv_register [OF ready(1) reg, of ?c1] by (simp add: s1_def)
  have store1: "chan_store s1 a = Some ?c1" "a \<in> channels s1" "loop_tid s1 = tid" using ready(3) by (simp_all add: s1_def)
  let ?c2 = "?c1\<lparr>ch_read_cb := None, ch_write_cb := None, ch_error_cb := None\<rparr>"
  define s2 where "s2 = s1\<lparr>chan_store := (chan_store s1)(a \<mapsto> ?c2), channels := channels s1 - {a},
      epoll_interest := (epoll_interest s1)(ch_fd ?c1 := None)\<rparr>"
  have close: "Channel_Close tid a s1 = Inr s2"
    using store1 a(6) by (simp add: Channel_Close_def RemoveChannel_def release_channel_def loop_op_defs s2_def)
  have inv2: "chan_inv s2"
    using chan_inv_unregister [OF inv1 store1(1,2), of "Some ?c2"] by (simp add: s2_def)
  have fields: "mgr_heap s2 = mgr_heap ?s" "mgr_timers s2 = mgr_timers ?s" "mgr_next s2 = mgr_next ?s"
    "mgr_timer_num s2 = mgr_timer_num ?s" "pending_functors s2 = pending_functors ?s" "loop_tid s2 = tid"
    "chan_store s2 a = Some ?c2" "a \<notin> channels s2" "\<forall>b \<ge> chan_next s2. chan_store s2 b = None"
    "epoll_interest s2 = (epoll_interest ?s)(fd := None)"
    using ready(3,4) a(3,4) by (auto simp: s2_def s1_def)
  let ?f = "Closure (Other_closure Connector_reset)"
  have "mgr_ok s2 = mgr_ok ?s" by (rule mgr_ok_cong) (use fields in simp_all)
  then have "mgr_ok s2" using ready(2) by simp
  moreover have "mgr_ok (QueueInLoop tid ?f s2) = mgr_ok s2" by (rule mgr_ok_cong) simp_all
  moreover have "chan_inv (QueueInLoop tid ?f s2) = chan_inv s2" by (rule chan_inv_cong) simp_all
  ultimately have "loop_ready n' tid' ?s \<longrightarrow> loop_ready n' tid' (QueueInLoop tid ?f s2)" for n' tid'
    using inv2 ready(3) fields by (auto simp: loop_ready_def)
  then have "detaches fd w (w\<lparr>cw_net := QueueInLoop tid ?f s2\<rparr>)"
    unfolding detaches_def using fields ready(3) a(1,6) by (intro exI [of _ "QueueInLoop tid ?f s2"]) (simp add: mute_def)
  moreover have "ResetChannel tid w = Inr (fd, w\<lparr>cw_net := QueueInLoop tid ?f s2\<rparr>)"
    using a(1,4) off close fields(7) by (simp add: ResetChannel_def on_cnet_def with_chan_def queue_cli_def)
  ultimately show ?thesis by blast
qed

lemma detaches_ready: "detaches fd w w' \<Longrightarrow> loop_ready n tid (cw_net w) \<Longrightarrow> loop_ready n tid (cw_net w')"
  by (auto simp: detaches_def)

lemma detaches_same: "detaches fd w w' \<Longrightarrow> cw_ctor w' = cw_ctor w \<and> cw_kern w' = cw_kern w"
  by (auto simp: detaches_def)

text \<open>\<open>Retry\<close>: one timer is added, and nothing else of the loop changes.\<close>

lemma AddTimer_frame:
  "AddTimer True cb t d m = Inr (i, q, m') \<Longrightarrow>
   \<exists>h. m' = m\<lparr>mgr_timers := (mgr_timers m)(mgr_next m \<mapsto> new_timer cb t d), mgr_next := Suc (mgr_next m),
         mgr_timer_num := mgr_timer_num m + 1, mgr_heap := h\<rparr>"
  by (auto simp: AddTimer_def make_timer_def timer_RunInLoop_def PushTimer_def res_iff)

definition sets_timer :: "'f \<Rightarrow> timestamp \<Rightarrow> ('f, 'z) loop \<Rightarrow> ('f, 'z) loop \<Rightarrow> bool" where
  "sets_timer f t s s' \<longleftrightarrow> mgr_ok s' \<and>
     (\<exists>h. s' = s\<lparr>mgr_timers := (mgr_timers s)(mgr_next s \<mapsto> new_timer f t (Duration 0)),
        mgr_next := Suc (mgr_next s), mgr_timer_num := mgr_timer_num s + 1, mgr_heap := h\<rparr>)"

lemma RunAfter_ok:
  assumes "loop_ready (Suc n) tid s" "i64 (nanosecond clock + Nanoseconds delay)"
  shows "\<exists>i s'. RunAfter tid clock delay f s = Inr (i, s') \<and>
    sets_timer f (Timestamp (nanosecond clock + Nanoseconds delay)) s s'"
proof -
  let ?t = "Timestamp (nanosecond clock + Nanoseconds delay)"
  obtain i s' where s': "AddTimer True f ?t (Duration 0) s = Inr (i, [], s')" "mgr_ok s'"
    using AddTimer_ok [of s f ?t "Duration 0"] assms(1) by (auto simp: loop_ready_def)
  moreover have "timestamp_add clock delay = Inr ?t" using assms(2) by (simp add: timestamp_add_def)
  moreover have "IsInLoopThread tid s" using assms(1) by (simp add: loop_ready_def IsInLoopThread_def)
  ultimately show ?thesis using AddTimer_frame [OF s'(1)]
    by (simp add: RunAfter_def add_timer_def queue_tasks_def sets_timer_def)
qed

definition next_delay :: "duration \<Rightarrow> duration" where
  "next_delay d = Duration (min (2 * Nanoseconds d) (Nanoseconds kMaxRetryDuration))"

definition delay_ok :: "duration \<Rightarrow> bool" where
  "delay_ok d \<longleftrightarrow> 0 \<le> Nanoseconds d \<and> d \<le> kMaxRetryDuration"

definition clock_ok :: "timestamp \<Rightarrow> bool" where
  "clock_ok t \<longleftrightarrow> 0 \<le> nanosecond t \<and> nanosecond t + Nanoseconds kMaxRetryDuration \<le> i64_max"

lemma doubled:
  assumes "delay_ok d"
  shows "\<exists>e. duration_mul d 2 = Inr e \<and> (if kMaxRetryDuration < e then kMaxRetryDuration else e) = next_delay d"
proof -
  have "i64 (Nanoseconds d * 2)"
    using assms by (simp add: delay_ok_def duration_order kMaxRetryDuration_def i64_def i64_min_def i64_max_def)
  then show ?thesis by (simp add: duration_mul_def next_delay_def duration_order min_def)
qed

lemma sets_timer_ready: "sets_timer f t s s' \<Longrightarrow> loop_ready (Suc n) tid s \<Longrightarrow> loop_ready n tid s'"
  by (auto simp: sets_timer_def loop_ready_def chan_inv_def)

lemma next_delay_ok: "delay_ok d \<Longrightarrow> delay_ok (next_delay d)"
  by (simp add: delay_ok_def next_delay_def duration_order)

text \<open>What a failed attempt leaves: the descriptor closed, and one timer for the next attempt.\<close>

definition retries_after ::
  "'k kernel \<Rightarrow> timestamp \<Rightarrow> int \<Rightarrow> ('c, 'z, 'k, 'm) client_world_scheme \<Rightarrow> ('c, 'z, 'k, 'm) client_world_scheme \<Rightarrow> bool" where
  "retries_after K clock fd w w' \<longleftrightarrow>
     (let d = retry_duration (cw_ctor w) in
      cw_kern w' = snd (socket_Close K fd (cw_kern w)) \<and>
      cw_ctor w' = (cw_ctor w)\<lparr>ctor_state := C_Disconnected, retry_duration := next_delay d\<rparr> \<and>
      sets_timer (Other_closure Connector_retry) (Timestamp (nanosecond clock + Nanoseconds d)) (cw_net w) (cw_net w'))"

lemma Retry_ok:
  assumes "loop_ready (Suc n) tid (cw_net w)" "ctor_start (cw_ctor w)" "delay_ok (retry_duration (cw_ctor w))" "clock_ok clock"
  shows "\<exists>w'. Retry K tid clock fd w = Inr w' \<and> retries_after K clock fd w w'"
proof -
  let ?d = "retry_duration (cw_ctor w)"
  have "i64 (nanosecond clock + Nanoseconds ?d)"
    using assms(3,4) by (auto simp: delay_ok_def clock_ok_def i64_def i64_min_def duration_order)
  then obtain i s' where s': "RunAfter tid clock ?d (Other_closure Connector_retry) (cw_net w) = Inr (i, s')"
      "sets_timer (Other_closure Connector_retry) (Timestamp (nanosecond clock + Nanoseconds ?d)) (cw_net w) s'"
    using RunAfter_ok [OF assms(1)] by blast
  obtain e where e: "duration_mul ?d 2 = Inr e" "(if kMaxRetryDuration < e then kMaxRetryDuration else e) = next_delay ?d"
    using doubled [OF assms(3)] by blast
  let ?w1 = "upd_ctor (\<lambda>t. t\<lparr>ctor_state := C_Disconnected\<rparr>) (snd (on_ckern (socket_Close K fd) w))"
  let ?w2 = "upd_ctor (\<lambda>t. t\<lparr>retry_duration := next_delay ?d\<rparr>) (?w1\<lparr>cw_net := s'\<rparr>)"
  have "Retry K tid clock fd w = Inr ?w2"
    using assms(2) s'(1) e by (simp add: Retry_def on_cnet_def Let_def)
  moreover have "retries_after K clock fd w ?w2"
    using s'(2) by (simp add: retries_after_def upd_ctor_def)
  ultimately show ?thesis by blast
qed

lemma Retry_stopped:
  assumes "\<not> ctor_start (cw_ctor w)"
  shows "Retry K tid clock fd w =
    Inr (upd_ctor (\<lambda>t. t\<lparr>ctor_state := C_Disconnected\<rparr>) (snd (on_ckern (socket_Close K fd) w)))"
  using assms by (simp add: Retry_def Let_def)

text \<open>\<open>reset_functor\<close> destroys a channel that is mute, unless it is handling an event.\<close>

lemma reset_functor_ok:
  assumes "ctor_channel (cw_ctor w) = Some a" "mute a (cw_net w)"
    and "\<And>c. chan_store (cw_net w) a = Some c \<Longrightarrow> \<not> ch_event_handling c"
  shows "\<exists>w'. reset_functor w = Inr w' \<and> ctor_channel (cw_ctor w') = None \<and> ctor_state (cw_ctor w') = ctor_state (cw_ctor w) \<and>
    chan_store (cw_net w') a = None \<and> channels (cw_net w') = channels (cw_net w)"
  using assms
  by (auto simp: reset_functor_def mute_def on_cnet_def drop_channel_def upd_chan_def with_chan_def release_channel_def
      set_chan_def)

subsection \<open>Properties\<close>

text \<open>Idle, started, and able to make an attempt.\<close>

definition can_attempt :: "nat \<Rightarrow> int \<Rightarrow> timestamp \<Rightarrow> ('c, 'z, 'k, 'm) client_world_scheme \<Rightarrow> bool" where
  "can_attempt n tid clock w \<longleftrightarrow> loop_ready n tid (cw_net w) \<and> ctor_state (cw_ctor w) = C_Disconnected \<and>
     ctor_start (cw_ctor w) \<and> ctor_channel (cw_ctor w) = None \<and> delay_ok (retry_duration (cw_ctor w)) \<and> clock_ok clock"

text \<open>The answer of the kernel to \<open>socket\<close> and \<open>connect\<close>: descriptor, error and its new state.\<close>

definition connect_answer :: "'k kernel \<Rightarrow> sockaddr_in \<Rightarrow> 'k \<Rightarrow> int \<times> nat \<times> 'k" where
  "connect_answer K addr k =
     (let (fd, k1) = CreateNonblockSocket K k; ((r, e), k2) = socket_Connect K fd addr k1 in (fd, if r then 0 else e, k2))"

lemma Connect_answer:
  assumes "connect_answer K (ctor_addr (cw_ctor w)) (cw_kern w) = (fd, e, k)"
  shows "Connect K tid clock w =
    (if e \<in> set goes_on then Connecting tid fd (w\<lparr>cw_kern := k\<rparr>)
     else if e \<in> set try_again then Retry K tid clock fd (w\<lparr>cw_kern := k\<rparr>)
     else Inr (w\<lparr>cw_kern := snd (socket_Close K fd k)\<rparr>))"
  using assms by (auto simp: Connect_def connect_answer_def on_ckern_def split: prod.splits)

text \<open>
  C18: An attempt to connect goes exactly one way. Started or woken by its timer, an idle
  connector opens one descriptor and, by the error of \<open>connect\<close>, either waits on it, in
  the state kConnecting with a channel registered for writing; or closes it and has one
  timer for the next attempt; or closes it and stays idle. No assertion fails.
\<close>

theorem connector_attempt:
  assumes "can_attempt (Suc n) tid clock w" "connect_answer K (ctor_addr (cw_ctor w)) (cw_kern w) = (fd, e, k)"
    and "0 \<le> fd" "epoll_interest (cw_net w) fd = None"
  shows "\<exists>w'. StartInLoop K tid clock w = Inr w' \<and> RetryInLoop K tid clock w = Inr w' \<and>
    (if e \<in> set goes_on then connecting_on fd w' \<and> loop_ready (Suc n) tid (cw_net w') \<and> cw_kern w' = k \<and>
         epoll_interest (cw_net w') fd = Some (EPOLLOUT, chan_next (cw_net w)) \<and>
         mgr_timers (cw_net w') = mgr_timers (cw_net w)
     else if e \<in> set try_again then retries_after K clock fd (w\<lparr>cw_kern := k\<rparr>) w'
     else w' = w\<lparr>cw_kern := snd (socket_Close K fd k)\<rparr>)"
proof -
  note a = assms(1) [unfolded can_attempt_def]
  have "IsInLoopThread tid (cw_net w)" using a by (simp add: IsInLoopThread_def loop_ready_def)
  then have same: "StartInLoop K tid clock w = Connect K tid clock w" "RetryInLoop K tid clock w = Connect K tid clock w"
    using a by (simp_all add: StartInLoop_def RetryInLoop_def)
  show ?thesis
    unfolding same Connect_answer [OF assms(2)]
    using Connecting_ok [of "Suc n" tid "w\<lparr>cw_kern := k\<rparr>" fd] Retry_ok [of n tid "w\<lparr>cw_kern := k\<rparr>" clock K fd] a assms(3,4)
    by auto
qed

text \<open>A kernel that numbers the sockets and answers every \<open>connect\<close> with one error.\<close>

definition try_kernel :: "nat \<Rightarrow> nat kernel" where
  "try_kernel e =
     \<lparr>sys_socket = (\<lambda>k. (Sys (int k + 10), k + 1)), sys_bind = (\<lambda>fd a k. (Sys (), k)), sys_listen = (\<lambda>fd n k. (Sys (), k)),
      sys_accept4 = (\<lambda>fd k. (Sys_fail 11, k)), sys_connect = (\<lambda>fd a k. (Sys_fail e, k)),
      sys_shutdown = (\<lambda>fd h k. (Sys (), k)), sys_close = (\<lambda>fd k. (Sys (), k)), sys_open_null = (\<lambda>k. (Sys 4, k)),
      sys_getsockname = (\<lambda>fd k. (Sys (InetAddr_port 80 False), k)),
      sys_getpeername = (\<lambda>fd k. (Sys (InetAddr_port 81 False), k)),
      sys_get_error = (\<lambda>fd k. (Sys 0, k)), sys_setsockopt = (\<lambda>fd opt k. (Sys (), k))\<rparr>"

definition demo_client :: "(nat, nat, nat) client_world" where
  "demo_client =
     \<lparr>cw_net = empty_net, cw_kern = 0,
      cw_ctor = (new_connector (InetAddr_port 81 False) 0)\<lparr>ctor_start := True\<rparr>\<rparr>"

lemma demo_client_attempt: "can_attempt (Suc 4) 7 (Timestamp 0) demo_client"
  by (simp add: can_attempt_def loop_ready_def demo_client_def empty_net_def new_connector_def delay_ok_def clock_ok_def
      chan_inv_def mgr_ok_def heap_ok_def size_mod_def kInitRetryDuration_def kMaxRetryDuration_def duration_order
      i64_max_def)

lemma demo_connect_answer: "connect_answer (try_kernel e) addr k = (int k + 10, e, k + 1)"
  by (simp add: connect_answer_def CreateNonblockSocket_def socket_Connect_def try_kernel_def)

theorem connector_attempt_witness:
  "\<exists>w'. StartInLoop (try_kernel 115) 7 (Timestamp 0) demo_client = Inr w' \<and> connecting_on 10 w'"
proof -
  have answer: "connect_answer (try_kernel 115) (ctor_addr (cw_ctor demo_client)) (cw_kern demo_client) = (10, 115, 1)"
    by (simp add: demo_connect_answer demo_client_def)
  have "epoll_interest (cw_net demo_client) 10 = None" by (simp add: demo_client_def empty_net_def)
  with connector_attempt [OF demo_client_attempt answer] show ?thesis by (auto simp: goes_on_def)
qed

lemma HandleWrite_eq:
  assumes "ResetChannel tid w = Inr (fd, w1)" "cw_ctor w1 = cw_ctor w" "cw_kern w1 = cw_kern w" "ctor_start (cw_ctor w)"
    and "SocketError K fd (cw_kern w) = (err, k1)" "LocalAddr K fd k1 = (lo, k2)" "PeerAddr K fd k2 = (pe, k3)"
  shows "ctor_HandleWrite K tid clock (Some f) w =
     (if err = 0 \<and> (sin_addr lo, sin_port lo) \<noteq> (sin_addr pe, sin_port pe)
      then f fd (w1\<lparr>cw_kern := k3, cw_ctor := (cw_ctor w)\<lparr>ctor_state := C_Connected\<rparr>\<rparr>)
      else Retry K tid clock fd (w1\<lparr>cw_kern := if err = 0 then k3 else k1\<rparr>))"
proof (cases "err = 0")
  case True
  obtain ls ps where "IpPortString lo = Inr ls" "IpPortString pe = Inr ps" by (simp add: IpPortString_eq)
  moreover from this IpPortString_same [of lo pe]
  have "ls = ps \<longleftrightarrow> (sin_addr lo, sin_port lo) = (sin_addr pe, sin_port pe)" by simp
  ultimately show ?thesis
    using True assms by (simp add: ctor_HandleWrite_def on_ckern_def upd_ctor_def)
next
  case False
  then show ?thesis using assms by (simp add: ctor_HandleWrite_def on_ckern_def)
qed



text \<open>Attempts one after the other, each when the timer of the one before has expired.\<close>

fun attempts :: "'k kernel \<Rightarrow> int \<Rightarrow> timestamp list \<Rightarrow> ('c, 'z, 'k, 'm) client_world_scheme \<Rightarrow>
    ('c, 'z, 'k, 'm) client_world_scheme res" where
  "attempts K tid [] w = Inr w"
| "attempts K tid (t # ts) w = res_bind (RetryInLoop K tid t w) (attempts K tid ts)"

text \<open>A kernel that refuses each connection with an error worth a new attempt.\<close>

definition refuses :: "'k kernel \<Rightarrow> sockaddr_in \<Rightarrow> bool" where
  "refuses K addr \<longleftrightarrow> (\<forall>k. \<exists>fd e k'. connect_answer K addr k = (fd, e, k') \<and> e \<notin> set goes_on \<and> e \<in> set try_again)"

lemma refused_attempt:
  assumes "can_attempt (Suc n) tid clock w" "refuses K (ctor_addr (cw_ctor w))"
  shows "\<exists>w' fd k. RetryInLoop K tid clock w = Inr w' \<and> retries_after K clock fd (w\<lparr>cw_kern := k\<rparr>) w'"
proof -
  note a = assms(1) [unfolded can_attempt_def]
  obtain fd e k where k: "connect_answer K (ctor_addr (cw_ctor w)) (cw_kern w) = (fd, e, k)" "e \<notin> set goes_on" "e \<in> set try_again"
    using assms(2) unfolding refuses_def by blast
  have "RetryInLoop K tid clock w = Retry K tid clock fd (w\<lparr>cw_kern := k\<rparr>)"
    using a k by (simp add: RetryInLoop_def IsInLoopThread_def loop_ready_def Connect_answer [OF k(1)])
  moreover have "\<exists>w'. Retry K tid clock fd (w\<lparr>cw_kern := k\<rparr>) = Inr w' \<and> retries_after K clock fd (w\<lparr>cw_kern := k\<rparr>) w'"
    by (rule Retry_ok [of n]) (use a in simp_all)
  ultimately show ?thesis by metis
qed

text \<open>The delay before attempt \<open>i + 1\<close>, from the delay \<open>d\<close> of the first.\<close>

definition backoff :: "int \<Rightarrow> nat \<Rightarrow> int" where
  "backoff d i = min (d * 2 ^ i) 30000000000"

lemma backoff_next: "0 \<le> d \<Longrightarrow> d \<le> 30000000000 \<Longrightarrow> backoff (min (2 * d) 30000000000) i = backoff d (Suc i)"
proof -
  assume d: "0 \<le> d" "d \<le> 30000000000"
  have one: "(1 :: int) \<le> 2 ^ i" by simp
  show ?thesis
  proof (cases "2 * d \<le> 30000000000")
    case True
    then show ?thesis by (simp add: backoff_def min_absorb1 mult.assoc mult.left_commute)
  next
    case False
    have "(30000000000 :: int) \<le> 30000000000 * 2 ^ i" using mult_left_mono [OF one, of 30000000000] by simp
    moreover have "d * 1 \<le> d * 2 ^ i" "d * 2 ^ Suc i = 2 * (d * 2 ^ i)"
      by (rule mult_left_mono [OF one d(1)]) simp
    with False have "30000000000 \<le> d * 2 ^ Suc i" by linarith
    ultimately show ?thesis using False by (simp only: backoff_def min_absorb2 linorder_not_le less_imp_le)
  qed
qed

lemma attempts_refused:
  assumes "can_attempt (Suc (length ts)) tid clock w" "refuses K (ctor_addr (cw_ctor w))" "\<forall>t \<in> set ts. clock_ok t"
  shows "\<exists>w'. attempts K tid ts w = Inr w' \<and> mgr_next (cw_net w') = mgr_next (cw_net w) + length ts \<and>
    ctor_state (cw_ctor w') = C_Disconnected \<and>
    (\<forall>m < mgr_next (cw_net w). mgr_timers (cw_net w') m = mgr_timers (cw_net w) m) \<and>
    (\<forall>i < length ts. mgr_timers (cw_net w') (mgr_next (cw_net w) + i) =
       Some (new_timer (Other_closure Connector_retry)
         (Timestamp (nanosecond (ts ! i) + backoff (Nanoseconds (retry_duration (cw_ctor w))) i)) (Duration 0)))"
  using assms
proof (induction ts arbitrary: w)
  case Nil
  then show ?case by (simp add: can_attempt_def)
next
  case (Cons t ts)
  let ?d = "retry_duration (cw_ctor w)"
  note a = Cons.prems(1) [unfolded can_attempt_def]
  have "can_attempt (Suc (length ts)) tid t w"
    using a Cons.prems(3) by (auto simp: can_attempt_def loop_ready_def)
  from refused_attempt [OF this Cons.prems(2)] obtain w1 fd k where
    w1: "RetryInLoop K tid t w = Inr w1" "retries_after K t fd (w\<lparr>cw_kern := k\<rparr>) w1" by blast
  have ctor: "cw_ctor w1 = (cw_ctor w)\<lparr>ctor_state := C_Disconnected, retry_duration := next_delay ?d\<rparr>"
    and timer: "sets_timer (Other_closure Connector_retry) (Timestamp (nanosecond t + Nanoseconds ?d)) (cw_net w) (cw_net w1)"
    using w1(2) by (simp_all add: retries_after_def Let_def)
  have ready: "can_attempt (Suc (length ts)) tid clock w1"
    using a sets_timer_ready [OF timer, of "Suc (length ts)" tid] next_delay_ok [of ?d]
    by (simp add: can_attempt_def ctor)
  have d: "0 \<le> Nanoseconds ?d" "Nanoseconds ?d \<le> 30000000000"
    using a by (simp_all add: delay_ok_def duration_order kMaxRetryDuration_def)
  have next_d: "backoff (Nanoseconds (next_delay ?d)) i = backoff (Nanoseconds ?d) (Suc i)" for i
    using backoff_next [OF d] by (simp add: next_delay_def kMaxRetryDuration_def)
  have net: "mgr_next (cw_net w1) = Suc (mgr_next (cw_net w))"
    "mgr_timers (cw_net w1) = (mgr_timers (cw_net w))(mgr_next (cw_net w) \<mapsto>
      new_timer (Other_closure Connector_retry) (Timestamp (nanosecond t + Nanoseconds ?d)) (Duration 0))"
    using timer by (auto simp: sets_timer_def)
  have "refuses K (ctor_addr (cw_ctor w1))" using Cons.prems(2) by (simp add: ctor)
  from Cons.IH [OF ready this] Cons.prems(3) obtain w' where w': "attempts K tid ts w1 = Inr w'"
      "mgr_next (cw_net w') = Suc (mgr_next (cw_net w)) + length ts" "ctor_state (cw_ctor w') = C_Disconnected"
      "\<forall>m < Suc (mgr_next (cw_net w)). mgr_timers (cw_net w') m = mgr_timers (cw_net w1) m"
      "\<forall>i < length ts. mgr_timers (cw_net w') (Suc (mgr_next (cw_net w)) + i) =
         Some (new_timer (Other_closure Connector_retry)
           (Timestamp (nanosecond (ts ! i) + backoff (Nanoseconds ?d) (Suc i))) (Duration 0))"
    by (auto simp: net ctor next_d)
  have "mgr_timers (cw_net w') (mgr_next (cw_net w) + i) =
       Some (new_timer (Other_closure Connector_retry)
         (Timestamp (nanosecond ((t # ts) ! i) + backoff (Nanoseconds ?d) i)) (Duration 0))" if "i < length (t # ts)" for i
  proof (cases i)
    case 0
    have "backoff (Nanoseconds ?d) 0 = Nanoseconds ?d" using d by (simp add: backoff_def)
    with 0 w'(4) net(2) show ?thesis by simp
  next
    case (Suc j)
    with w'(5) that show ?thesis by simp
  qed
  with w1(1) w' net(2) show ?case by (intro exI [of _ w']) simp
qed

text \<open>
  C20: A refused connector keeps trying and backs off. As long as every attempt is refused with
  an error worth another, each is made without a failed assertion, the connector is idle
  again, and the \<open>i\<close>-th sets exactly one timer, 0.1 seconds times \<open>2 ^ i\<close> after its own
  time and never more than 30 seconds.
\<close>

theorem connector_backs_off:
  assumes "can_attempt (Suc (length ts)) tid clock w" "refuses K (ctor_addr (cw_ctor w))"
    and "\<forall>t \<in> set ts. clock_ok t" "retry_duration (cw_ctor w) = kInitRetryDuration"
  shows "\<exists>w'. attempts K tid ts w = Inr w' \<and> ctor_state (cw_ctor w') = C_Disconnected \<and>
    mgr_next (cw_net w') = mgr_next (cw_net w) + length ts \<and>
    (\<forall>m < mgr_next (cw_net w). mgr_timers (cw_net w') m = mgr_timers (cw_net w) m) \<and>
    (\<forall>i < length ts. mgr_timers (cw_net w') (mgr_next (cw_net w) + i) =
       Some (new_timer (Other_closure Connector_retry)
         (Timestamp (nanosecond (ts ! i) + min (100000000 * 2 ^ i) 30000000000)) (Duration 0)))"
  using attempts_refused [OF assms(1-3)] by (auto simp: assms(4) kInitRetryDuration_def backoff_def)

theorem connector_backs_off_witness:
  "\<exists>w'. attempts (try_kernel 111) 7 [Timestamp 0, Timestamp 200000000] demo_client = Inr w' \<and>
     ctor_state (cw_ctor w') = C_Disconnected \<and> mgr_next (cw_net w') = 2"
proof -
  let ?ts = "[Timestamp 0, Timestamp 200000000]"
  have attempt: "can_attempt (Suc (length ?ts)) 7 (Timestamp 0) demo_client"
    using demo_client_attempt by (simp add: can_attempt_def loop_ready_def)
  have refused: "refuses (try_kernel 111) (ctor_addr (cw_ctor demo_client))"
    by (simp add: refuses_def demo_connect_answer goes_on_def try_again_def)
  have clock: "\<forall>t \<in> set ?ts. clock_ok t" by (simp add: clock_ok_def kMaxRetryDuration_def i64_max_def)
  have init: "retry_duration (cw_ctor demo_client) = kInitRetryDuration" by (simp add: demo_client_def new_connector_def)
  have "mgr_next (cw_net demo_client) = 0" by (simp add: demo_client_def empty_net_def)
  with connector_backs_off [OF attempt refused clock init] show ?thesis by auto
qed


text \<open>
  A connector that is stopped keeps its retry timer. Refused, stopped, and started again
  so that it now waits for a connection, it still has the timer of the first attempt,
  which nothing has canceled; when that expires the connector fails its assertion.
\<close>

lemma connector_stale_timer:
  assumes "can_attempt 2 tid clock w"
    and "connect_answer K (ctor_addr (cw_ctor w)) (cw_kern w) = (fd, e, k)" "e \<in> set try_again" "e \<notin> set goes_on"
    and "connect_answer K (ctor_addr (cw_ctor w)) (snd (socket_Close K fd k)) = (fd', e', k')" "e' \<in> set goes_on"
    and "0 \<le> fd'" "epoll_interest (cw_net w) fd' = None"
  shows "\<exists>w1 w2 w3. ctor_Start K tid clock w = Inr w1 \<and> ctor_Stop K tid w1 = Inr w2 \<and>
    ctor_Start K tid clock w2 = Inr w3 \<and>
    mgr_timers (cw_net w3) (mgr_next (cw_net w)) = Some (new_timer (Other_closure Connector_retry)
      (Timestamp (nanosecond clock + Nanoseconds (retry_duration (cw_ctor w)))) (Duration 0)) \<and>
    RetryInLoop K tid later w3 = Inl Assertion_failed"
proof -
  note a = assms(1) [unfolded can_attempt_def]
  have in_loop: "IsInLoopThread tid (cw_net w)" using a by (simp add: IsInLoopThread_def loop_ready_def)
  obtain w1 where w1: "Retry K tid clock fd (w\<lparr>cw_kern := k\<rparr>) = Inr w1" "retries_after K clock fd (w\<lparr>cw_kern := k\<rparr>) w1"
    using Retry_ok [of 1 tid "w\<lparr>cw_kern := k\<rparr>" clock K fd] a by (auto simp: numeral_2_eq_2)
  have started: "upd_ctor (\<lambda>t. t\<lparr>ctor_start := True\<rparr>) w = w" using a by (simp add: upd_ctor_def)
  have one: "ctor_Start K tid clock w = Inr w1"
    using a in_loop w1(1) assms(3,4) by (simp add: ctor_Start_def started StartInLoop_def Connect_answer [OF assms(2)])
  have timer: "sets_timer (Other_closure Connector_retry)
      (Timestamp (nanosecond clock + Nanoseconds (retry_duration (cw_ctor w)))) (cw_net w) (cw_net w1)"
    and ctor: "cw_ctor w1 = (cw_ctor w)\<lparr>ctor_state := C_Disconnected, retry_duration := next_delay (retry_duration (cw_ctor w))\<rparr>"
    and kern: "cw_kern w1 = snd (socket_Close K fd k)"
    using w1(2) by (simp_all add: retries_after_def Let_def)
  have ready: "loop_ready 1 tid (cw_net w1)"
    using sets_timer_ready [OF timer, of 1 tid] a by (simp add: numeral_2_eq_2)
  then have in_loop1: "IsInLoopThread tid (cw_net w1)" by (simp add: IsInLoopThread_def loop_ready_def)
  let ?w2 = "upd_ctor (\<lambda>t. t\<lparr>ctor_start := False\<rparr>) w1"
  have two: "ctor_Stop K tid w1 = Inr ?w2"
    using in_loop1 by (simp add: ctor_Stop_def StopInLoop_def ctor)
  let ?w = "upd_ctor (\<lambda>t. t\<lparr>ctor_start := True\<rparr>) ?w2"
  have "epoll_interest (cw_net w1) fd' = None" using timer assms(8) by (auto simp: sets_timer_def)
  then obtain w3 where w3: "Connecting tid fd' (?w\<lparr>cw_kern := k'\<rparr>) = Inr w3" "connecting_on fd' w3"
      "mgr_timers (cw_net w3) = mgr_timers (cw_net w1)" "loop_ready 1 tid (cw_net w3)"
    using Connecting_ok [of 1 tid "?w\<lparr>cw_kern := k'\<rparr>" fd'] ready assms(7) a ctor by auto
  have "connect_answer K (ctor_addr (cw_ctor ?w)) (cw_kern ?w) = (fd', e', k')" using assms(5) by (simp add: ctor kern)
  from Connect_answer [OF this, of tid clock] have "ctor_Start K tid clock ?w2 = Inr w3"
    using in_loop1 assms(6) w3(1) by (simp add: ctor_Start_def StartInLoop_def ctor)
  moreover have "RetryInLoop K tid later w3 = Inl Assertion_failed"
    using w3(2,4) by (simp add: RetryInLoop_def connecting_on_def IsInLoopThread_def loop_ready_def)
  ultimately show ?thesis using one two w3(3) timer by (auto simp: sets_timer_def)
qed

text \<open>Its first \<open>connect\<close> is refused, later ones go on.\<close>

definition refuse_once :: "nat kernel" where
  "refuse_once = (try_kernel 111)\<lparr>sys_connect := (\<lambda>fd a k. (Sys_fail (if k = 1 then 111 else 115), k))\<rparr>"

end
