(* ===== verification/TcpClient.thy ===== *)
theory TcpClient
  imports Connector
begin

section \<open>\<open>net/TcpClient\<close>: one connection, kept by a connector\<close>

text \<open>
  The client adds to the world of its connector the connection it holds, by its address in
  the loop. The mutex guards \<open>connection_\<close> alone; each operation takes it once, so it is a
  step of the model. \<open>close_cb_\<close> of the connection is the value \<open>remove_cb\<close> here;
  \<open>RemoveTcpConnection\<close> is what it runs, last in the handler that calls it.
\<close>

subsection \<open>State and operations\<close>

record ('c, 'z, 'k) client = "('c, 'z, 'k) client_world" +
  cli_name :: string
  cli_connection_cb :: "'c option"
  cli_message_cb :: "'c option"
  cli_retry :: bool
  cli_start :: bool
  next_conn_id :: int
  cli_connection :: "nat option"
  cli_next_addr :: nat

definition new_client ::
  "sockaddr_in \<Rightarrow> string \<Rightarrow> nat \<Rightarrow> nat \<Rightarrow> (cli_closure, 'c, 'z) net_scheme \<Rightarrow> 'k \<Rightarrow> ('c, 'z, 'k) client" where
  "new_client addr name self next s k =
     \<lparr>cw_net = s\<lparr>alive_ties := insert self (alive_ties s)\<rparr>, cw_kern = k, cw_ctor = new_connector addr self,
      cli_name = name, cli_connection_cb = None, cli_message_cb = None, cli_retry = False, cli_start = False,
      next_conn_id = 1, cli_connection = None, cli_next_addr = next\<rparr>"

definition EnableRetry :: "('c, 'z, 'k) client \<Rightarrow> ('c, 'z, 'k) client" where
  "EnableRetry w = w\<lparr>cli_retry := True\<rparr>"

definition client_Connect ::
  "'k kernel \<Rightarrow> int \<Rightarrow> timestamp \<Rightarrow> ('c, 'z, 'k) client \<Rightarrow> ('c, 'z, 'k) client res" where
  "client_Connect K tid clock w =
     assert_then (\<not> cli_start w) (ctor_Start K tid clock (w\<lparr>cli_start := True\<rparr>))"

definition client_Disconnect :: "int \<Rightarrow> ('c, 'z, 'k) client \<Rightarrow> ('c, 'z, 'k) client res" where
  "client_Disconnect tid w =
     (let w = w\<lparr>cli_start := False\<rparr> in
      case cli_connection w of None \<Rightarrow> Inr w | Some a \<Rightarrow> on_cnet (Shutdown tid a) w)"

definition client_Stop :: "'k kernel \<Rightarrow> int \<Rightarrow> ('c, 'z, 'k) client \<Rightarrow> ('c, 'z, 'k) client res" where
  "client_Stop K tid w = ctor_Stop K tid (w\<lparr>cli_start := False\<rparr>)"

text \<open>The number in the name is never counted up.\<close>

definition client_NewTcpConnection ::
  "'k kernel \<Rightarrow> (cli_closure, 'c, 'z) conn_env \<Rightarrow> 'c \<Rightarrow> int \<Rightarrow> int \<Rightarrow> ('c, 'z, 'k) client \<Rightarrow> ('c, 'z, 'k) client res" where
  "client_NewTcpConnection K env remove_cb tid fd w =
     assert_then (IsInLoopThread tid (cw_net w))
       (let (peer, w1) = on_ckern (PeerAddr K fd) w in
        res_bind (IpPortString peer) (\<lambda>ip.
        let conn_name = cli_name w1 @ '':'' @ ip @ ''#'' @ to_string (next_conn_id w1);
            (local, w2) = on_ckern (LocalAddr K fd) w1;
            a = cli_next_addr w2;
            w3 = snd (on_ckern (SetKeepAlive K fd True) (w2\<lparr>cli_next_addr := a + 1\<rparr>)) in
        res_bind (on_cnet (new_connection a conn_name fd local peer) w3) (\<lambda>w4.
        res_bind (on_cnet (SetConnectionCallBack (cli_connection_cb w4) a) w4) (\<lambda>w5.
        res_bind (on_cnet (SetMessageCallBack (cli_message_cb w5) a) w5) (\<lambda>w6.
        res_bind (on_cnet (SetCloseCallBack (Some remove_cb) a) w6) (\<lambda>w7.
        on_cnet (EstablishConnection tid env a) (w7\<lparr>cli_connection := Some a\<rparr>)))))))"

definition client_RemoveTcpConnection ::
  "'k kernel \<Rightarrow> int \<Rightarrow> timestamp \<Rightarrow> nat \<Rightarrow> ('c, 'z, 'k) client \<Rightarrow> ('c, 'z, 'k) client res" where
  "client_RemoveTcpConnection K tid clock a w =
     assert_then (IsInLoopThread tid (cw_net w))
       (assert_then (cli_connection w = Some a)
         (let w1 = queue_cli tid (Client_destroy a) (w\<lparr>cli_connection := None\<rparr>) in
          if cli_retry w1 \<and> cli_start w1 then ctor_Restart K tid clock w1 else Inr w1))"

text \<open>The destructor. \<open>unique\<close> is whether the client held the only pointer to the connection;
  \<open>destroy_cb\<close> is the close callback that only queues the destruction.\<close>

definition delete_client ::
  "'k kernel \<Rightarrow> int \<Rightarrow> 'c \<Rightarrow> bool \<Rightarrow> ('c, 'z, 'k) client \<Rightarrow> ('c, 'z, 'k) client res" where
  "delete_client K tid destroy_cb unique w =
     (case cli_connection w of
        Some a \<Rightarrow>
          res_bind (if IsInLoopThread tid (cw_net w) then on_cnet (SetCloseCallBack (Some destroy_cb) a) w
                    else Inr (queue_cli tid (Client_set_close a) w)) (\<lambda>w1.
          if unique then on_cnet (ForceClose tid a) w1 else Inr w1)
      | None \<Rightarrow> ctor_Stop K tid w)"

text \<open>The closures of the connector and of the client, as the loop runs them.\<close>

fun client_run ::
  "'k kernel \<Rightarrow> (cli_closure, 'c, 'z) conn_env \<Rightarrow> 'c \<Rightarrow> 'c \<Rightarrow> int \<Rightarrow> timestamp \<Rightarrow> cli_closure \<Rightarrow>
   ('c, 'z, 'k) client \<Rightarrow> ('c, 'z, 'k) client res" where
  "client_run K env remove_cb destroy_cb tid clock Connector_start w = StartInLoop K tid clock w"
| "client_run K env remove_cb destroy_cb tid clock Connector_stop w = StopInLoop K tid w"
| "client_run K env remove_cb destroy_cb tid clock Connector_retry w = RetryInLoop K tid clock w"
| "client_run K env remove_cb destroy_cb tid clock Connector_reset w = reset_functor w"
| "client_run K env remove_cb destroy_cb tid clock Connector_write w =
     ctor_HandleWrite K tid clock (Some (client_NewTcpConnection K env remove_cb tid)) w"
| "client_run K env remove_cb destroy_cb tid clock Connector_error w = ctor_HandleError K tid clock w"
| "client_run K env remove_cb destroy_cb tid clock (Client_destroy a) w = on_cnet (DestroyConnection tid env a) w"
| "client_run K env remove_cb destroy_cb tid clock (Client_set_close a) w =
     on_cnet (SetCloseCallBack (Some destroy_cb) a) w"

subsection \<open>The connector leaves the client's fields alone\<close>

lemma on_ckern_more [simp]: "client_world.more (snd (on_ckern f w)) = client_world.more w"
  by (simp add: on_ckern_def split: prod.splits)

lemma on_cnet_more: "on_cnet f w = Inr w' \<Longrightarrow> client_world.more w' = client_world.more w"
  by (auto simp: on_cnet_def res_iff)

lemma upd_ctor_more [simp]: "client_world.more (upd_ctor g w) = client_world.more w"
  by (simp add: upd_ctor_def)

lemma Retry_more: "Retry K tid clock fd w = Inr w' \<Longrightarrow> client_world.more w' = client_world.more w"
  by (auto simp: Retry_def Let_def res_iff dest!: on_cnet_more split: if_splits)

lemma Connecting_more: "Connecting tid fd w = Inr w' \<Longrightarrow> client_world.more w' = client_world.more w"
  by (auto simp: Connecting_def Let_def res_iff dest!: on_cnet_more split: prod.splits)

lemma same_client_fields:
  fixes w w' :: "('c, 'z, 'k) client"
  assumes "client_world.more w' = client_world.more w"
  shows "cli_connection w' = cli_connection w" "cli_start w' = cli_start w" "cli_retry w' = cli_retry w"
  using assms by (cases w; cases w'; simp)+

lemma queue_cli_fields [simp]: "cli_retry (queue_cli tid f w) = cli_retry w" "cli_start (queue_cli tid f w) = cli_start w"
  "cli_connection (queue_cli tid f w) = cli_connection w"
  by (simp_all add: queue_cli_def)

lemma Shutdown_tid: "Shutdown tid a s = Inr s' \<Longrightarrow> loop_tid s' = loop_tid s"
  by (auto simp: Shutdown_def ShutdownInLoop_def with_conn_def upd_conn_def conn_writing_def with_chan_def
      split: option.splits if_splits)

subsection \<open>Connecting\<close>

definition client_conn_name :: "('c, 'z, 'k) client \<Rightarrow> sockaddr_in \<Rightarrow> string" where
  "client_conn_name w peer =
     cli_name w @ '':'' @ (case IpPortString peer of Inr ip \<Rightarrow> ip | Inl e \<Rightarrow> []) @ ''#'' @ to_string (next_conn_id w)"

lemma client_NewTcpConnection_ok:
  fixes w :: "('c, 'z, 'k) client"
  assumes "loop_tid (cw_net w) = tid" "fresh_fd fd (cw_net w)" "a = cli_next_addr w" "calm g env a" "keeps_channels env a"
    and "PeerAddr K fd (cw_kern w) = (pe, k1)" "LocalAddr K fd k1 = (lo, k2)"
  shows "\<exists>w' c. client_NewTcpConnection K env remove_cb tid fd w = Inr w' \<and> cli_connection w' = Some a \<and>
    cw_ctor w' = cw_ctor w \<and> cli_retry w' = cli_retry w \<and> cli_start w' = cli_start w \<and> chan_inv (cw_net w') \<and>
    conns (cw_net w') a = Some c \<and> connected c \<and>
    begins c (client_conn_name w pe) fd lo pe (cli_connection_cb w) (cli_message_cb w) remove_cb \<and>
    epoll_interest (cw_net w') fd = Some (EPOLLIN, conn_channel c)"
proof -
  let ?nm = "client_conn_name w pe"
  obtain ip where ip: "IpPortString pe = Inr ip" by (simp add: IpPortString_eq)
  obtain s1 s2 s3 s4 c ch where s: "new_connection a ?nm fd lo pe (cw_net w) = Inr s1"
      "SetConnectionCallBack (cli_connection_cb w) a s1 = Inr s2" "SetMessageCallBack (cli_message_cb w) a s2 = Inr s3"
      "SetCloseCallBack (Some remove_cb) a s3 = Inr s4"
    and view: "conn_view a s4 c ch" "enabled False False ch" "conn_state c = kConnecting"
    and c: "begins c ?nm fd lo pe (cli_connection_cb w) (cli_message_cb w) remove_cb" and same: "loop_tid s4 = loop_tid (cw_net w)"
    using equip_connection [OF assms(2)] by blast
  obtain s5 where s5: "EstablishConnection tid env a s4 = Inr s5" "chan_inv s5"
      "conns s5 a = Some (c\<lparr>conn_state := kConnected\<rparr>)" "epoll_interest s5 (conn_sockfd c) = Some (EPOLLIN, conn_channel c)"
    using establish_registers [OF view assms(4,5)] same assms(1) by auto
  obtain w1 where w1: "on_ckern (PeerAddr K fd) w = (pe, w1)" "w1 = w\<lparr>cw_kern := k1\<rparr>"
    using assms(6) by (simp add: on_ckern_def)
  obtain w2 where w2: "on_ckern (LocalAddr K fd) w1 = (lo, w2)" "w2 = w\<lparr>cw_kern := k2\<rparr>"
    using assms(7) w1(2) by (simp add: on_ckern_def)
  obtain k3 where k3: "snd (on_ckern (SetKeepAlive K fd True) (w2\<lparr>cli_next_addr := a + 1\<rparr>)) =
      w\<lparr>cli_next_addr := a + 1, cw_kern := k3\<rparr>"
    by (cases "SetKeepAlive K fd True k2") (simp add: on_ckern_def w2(2))
  let ?w = "w\<lparr>cli_next_addr := a + 1, cw_kern := k3, cw_net := s5, cli_connection := Some a\<rparr>"
  have "client_NewTcpConnection K env remove_cb tid fd w = Inr ?w"
    using assms(1,3) ip s s5(1) w1 w2 k3
    by (simp add: client_NewTcpConnection_def IsInLoopThread_def client_conn_name_def on_cnet_def Let_def)
  with s5 c show ?thesis
    by (intro exI [of _ ?w] exI [of _ "c\<lparr>conn_state := kConnected\<rparr>"]) (simp add: connected_def begins_def conn_load_def)
qed

text \<open>A client whose connector was started in a loop with no channel.\<close>

definition demo_tcp :: "(nat, nat, nat) client" where
  "demo_tcp = upd_ctor (\<lambda>t. t\<lparr>ctor_start := True\<rparr>) (new_client (InetAddr_port 81 False) ''cli'' 0 5 empty_net 1)"

lemma demo_tcp_ready: "loop_ready 3 7 (cw_net demo_tcp)" "epoll_interest (cw_net demo_tcp) 10 = None"
  "ctor_channel (cw_ctor demo_tcp) = None" "ctor_start (cw_ctor demo_tcp)" "cw_kern demo_tcp = 1"
  by (simp_all add: demo_tcp_def new_client_def new_connector_def empty_net_def loop_ready_def chan_inv_def mgr_ok_def
      heap_ok_def size_mod_def)

lemma demo_kernel:
  "SocketError (try_kernel e) 10 1 = (0, 1)" "LocalAddr (try_kernel e) 10 1 = (InetAddr_port 80 False, 1)"
  "PeerAddr (try_kernel e) 10 1 = (InetAddr_port 81 False, 1)"
  "sin_port (InetAddr_port 80 False) \<noteq> sin_port (InetAddr_port 81 False)"
  by (simp_all add: SocketError_def LocalAddr_def PeerAddr_def try_kernel_def InetAddr_port_def) code_simp

text \<open>
  A client connects. When the socket of its connector becomes writable without an error
  and is not connected to itself, the closure the loop runs takes the socket out of the
  connector and leaves the client holding one connection, established and registered for
  reading, with the client's callbacks, its name made of the client and the peer.
\<close>

lemma client_connects:
  fixes w :: "('c, 'z, 'k) client"
  assumes "loop_ready n tid (cw_net w)" "connecting_on fd w" "ctor_start (cw_ctor w)"
    and "a = cli_next_addr w" "calm g env a" "keeps_channels env a"
    and "SocketError K fd (cw_kern w) = (0, k1)" "LocalAddr K fd k1 = (lo, k2)" "PeerAddr K fd k2 = (pe, k3)"
    and "(sin_addr lo, sin_port lo) \<noteq> (sin_addr pe, sin_port pe)"
    and "PeerAddr K fd k3 = (pe', k4)" "LocalAddr K fd k4 = (lo', k5)"
  shows "\<exists>w' c. client_run K env remove_cb destroy_cb tid clock Connector_write w = Inr w' \<and>
    cli_connection w' = Some a \<and> ctor_state (cw_ctor w') = C_Connected \<and> chan_inv (cw_net w') \<and>
    conns (cw_net w') a = Some c \<and> connected c \<and>
    begins c (client_conn_name w pe') fd lo' pe' (cli_connection_cb w) (cli_message_cb w) remove_cb \<and>
    epoll_interest (cw_net w') fd = Some (EPOLLIN, conn_channel c)"
proof -
  obtain w1 where w1: "ResetChannel tid w = Inr (fd, w1)" "detaches fd w w1"
    using ResetChannel_ok [OF assms(1,2)] by blast
  then obtain s where s: "w1 = w\<lparr>cw_net := s\<rparr>" "loop_ready n tid s" "epoll_interest s fd = None"
    using assms(1) by (auto simp: detaches_def)
  let ?w = "w1\<lparr>cw_kern := k3, cw_ctor := (cw_ctor w)\<lparr>ctor_state := C_Connected\<rparr>\<rparr>"
  have fresh: "fresh_fd fd (cw_net ?w)"
    using s assms(2) by (simp add: fresh_fd_def loop_ready_def connecting_on_def)
  have fields: "loop_tid (cw_net ?w) = tid" "a = cli_next_addr ?w" "PeerAddr K fd (cw_kern ?w) = (pe', k4)"
    "client_conn_name ?w pe' = client_conn_name w pe'"
    using s assms(4,11) by (simp_all add: loop_ready_def client_conn_name_def)
  have "client_run K env remove_cb destroy_cb tid clock Connector_write w = client_NewTcpConnection K env remove_cb tid fd ?w"
    using HandleWrite_eq [OF w1(1) _ _ assms(3,7-9), where clock = clock] s(1) assms(10) by auto
  with client_NewTcpConnection_ok [OF fields(1) fresh fields(2) assms(5,6) fields(3) assms(12), of remove_cb] s(1) fields(4)
  show ?thesis by auto
qed

text \<open>
  C21: A client whose connection has ended lets it go and tries again when it was told to. The
  destruction of the connection is queued, last, the client holds none, and with
  \<open>retry_\<close> and \<open>start_\<close> set its connector makes one attempt at once with the delay back at 0.1
  seconds; else neither the connector nor the kernel is touched.
\<close>

theorem client_reconnects:
  fixes w :: "('c, 'z, 'k) client"
  assumes "loop_ready (Suc n) tid (cw_net w)" "cli_connection w = Some a" "ctor_channel (cw_ctor w) = None" "clock_ok clock"
    and "connect_answer K (ctor_addr (cw_ctor w)) (cw_kern w) = (fd, e, k)" "0 \<le> fd" "epoll_interest (cw_net w) fd = None"
    and "w0 = upd_ctor (\<lambda>t. t\<lparr>ctor_state := C_Disconnected, retry_duration := kInitRetryDuration, ctor_start := True\<rparr>)
      (queue_cli tid (Client_destroy a) (w\<lparr>cli_connection := None\<rparr>))"
  shows "\<exists>w'. client_RemoveTcpConnection K tid clock a w = Inr w' \<and> cli_connection w' = None \<and>
    pending_functors (cw_net w') = pending_functors (cw_net w) @ [Closure (Other_closure (Client_destroy a))] \<and>
    (if cli_retry w \<and> cli_start w
     then (if e \<in> set goes_on then connecting_on fd w' \<and> cw_kern w' = k
           else if e \<in> set try_again then retries_after K clock fd (w0\<lparr>cw_kern := k\<rparr>) w'
           else w' = w0\<lparr>cw_kern := snd (socket_Close K fd k)\<rparr>)
     else cw_ctor w' = cw_ctor w \<and> cw_kern w' = cw_kern w)"
proof -
  have in_loop: "IsInLoopThread tid (cw_net w)" using assms(1) by (simp add: loop_ready_def IsInLoopThread_def)
  let ?q = "queue_cli tid (Client_destroy a) (w\<lparr>cli_connection := None\<rparr>)"
  have fields: "cw_net w0 = QueueInLoop tid (Closure (Other_closure (Client_destroy a))) (cw_net w)"
    "cw_kern w0 = cw_kern w" "cw_ctor w0 = (cw_ctor w)\<lparr>ctor_state := C_Disconnected, retry_duration := kInitRetryDuration, ctor_start := True\<rparr>"
    "cli_connection w0 = None"
    by (simp_all add: assms(8) queue_cli_def upd_ctor_def)
  show ?thesis
  proof (cases "cli_retry w \<and> cli_start w")
    case False
    have "client_RemoveTcpConnection K tid clock a w = Inr ?q"
      using in_loop assms(2) False by (auto simp: client_RemoveTcpConnection_def Let_def queue_cli_def)
    with False show ?thesis by (intro exI [of _ ?q]) (auto simp: queue_cli_def)
  next
    case True
    have ready: "loop_ready (Suc n) tid (cw_net w0)"
      using assms(1) by (simp add: fields loop_ready_queue)
    have "client_RemoveTcpConnection K tid clock a w = Connect K tid clock w0"
      using in_loop assms(2) True
      by (simp add: client_RemoveTcpConnection_def ctor_Restart_def Let_def assms(8) IsInLoopThread_def)
    moreover have "connect_answer K (ctor_addr (cw_ctor w0)) (cw_kern w0) = (fd, e, k)" using assms(5) by (simp add: fields)
    ultimately have run: "client_RemoveTcpConnection K tid clock a w =
      (if e \<in> set goes_on then Connecting tid fd (w0\<lparr>cw_kern := k\<rparr>)
       else if e \<in> set try_again then Retry K tid clock fd (w0\<lparr>cw_kern := k\<rparr>)
       else Inr (w0\<lparr>cw_kern := snd (socket_Close K fd k)\<rparr>))"
      using Connect_answer by metis
    have "delay_ok kInitRetryDuration"
      by (simp add: delay_ok_def kInitRetryDuration_def kMaxRetryDuration_def duration_order)
    then obtain w1 where w1: "Retry K tid clock fd (w0\<lparr>cw_kern := k\<rparr>) = Inr w1" "retries_after K clock fd (w0\<lparr>cw_kern := k\<rparr>) w1"
      using Retry_ok [of n tid "w0\<lparr>cw_kern := k\<rparr>" clock K fd] ready assms(4) by (auto simp: fields)
    obtain w2 where w2: "Connecting tid fd (w0\<lparr>cw_kern := k\<rparr>) = Inr w2" "connecting_on fd w2" "cw_kern w2 = k"
        "pending_functors (cw_net w2) = pending_functors (cw_net w0)"
      using Connecting_ok [of "Suc n" tid "w0\<lparr>cw_kern := k\<rparr>" fd] ready assms(3,6,7) by (auto simp: fields)
    have "pending_functors (cw_net w1) = pending_functors (cw_net w0)"
      using w1(2) by (auto simp: retries_after_def sets_timer_def Let_def)
    then show ?thesis
      using True run w1 w2 fields same_client_fields(1) [OF Retry_more [OF w1(1)]] same_client_fields(1) [OF Connecting_more [OF w2(1)]]
      by auto
  qed
qed

theorem client_reconnects_witness:
  "\<exists>w'. client_RemoveTcpConnection (try_kernel 115) 7 (Timestamp 0) 5
       (demo_tcp\<lparr>cli_connection := Some 5, cli_retry := True, cli_start := True\<rparr>) = Inr w' \<and>
     cli_connection w' = None \<and> connecting_on 11 w'"
proof -
  let ?w = "demo_tcp\<lparr>cli_connection := Some 5, cli_retry := True, cli_start := True\<rparr>"
  have ready: "loop_ready (Suc 2) 7 (cw_net ?w)" using demo_tcp_ready(1) by (simp add: numeral_3_eq_3)
  have w: "cli_connection ?w = Some 5" "ctor_channel (cw_ctor ?w) = None" using demo_tcp_ready(3) by simp_all
  have clock: "clock_ok (Timestamp 0)" by (simp add: clock_ok_def kMaxRetryDuration_def i64_max_def)
  have answer: "connect_answer (try_kernel 115) (ctor_addr (cw_ctor ?w)) (cw_kern ?w) = (11, 115, 2)"
    by (simp add: demo_connect_answer demo_tcp_ready(5))
  have "epoll_interest (cw_net ?w) 11 = None" by (simp add: demo_tcp_def new_client_def empty_net_def)
  with client_reconnects [OF ready w clock answer _ _ refl] show ?thesis by (auto simp: goes_on_def)
qed

text \<open>
  A client connects once. The connector stays in the state kConnected through the end of
  the connection (unless it is to retry), \<open>Disconnect\<close> and \<open>Stop\<close>, and a further \<open>Connect\<close>
  fails its assertion.
\<close>

lemma client_never_reconnects:
  assumes "ctor_state (cw_ctor w) = C_Connected" "IsInLoopThread tid (cw_net w)"
    and "client_Disconnect tid w = Inr w' \<or> client_Stop K tid w = Inr w' \<or>
      (\<not> cli_retry w \<and> client_RemoveTcpConnection K tid clock a w = Inr w')"
  shows "ctor_state (cw_ctor w') = C_Connected \<and> IsInLoopThread tid (cw_net w') \<and>
    client_Connect K tid later w' = Inl Assertion_failed"
proof -
  have "ctor_state (cw_ctor w') = C_Connected \<and> IsInLoopThread tid (cw_net w')"
    using assms
    by (auto simp: client_Disconnect_def client_Stop_def ctor_Stop_def StopInLoop_def client_RemoveTcpConnection_def
        on_cnet_def res_iff Let_def IsInLoopThread_def dest: Shutdown_tid split: option.splits if_splits)
  then show ?thesis by (cases "cli_start w'") (simp_all add: client_Connect_def ctor_Start_def StartInLoop_def)
qed

end
