(* ===== verification/LogStream.thy ===== *)
theory LogStream
  imports Text
begin

section \<open>\<open>log/LogStream\<close>: formatting into a fixed buffer\<close>

text \<open>
  \<open>FixBuffer\<close> is its array and the index \<open>cur_\<close>; what was never written is part of the
  array the constructor is given. Each \<open>operator<<\<close> is a case of \<open>stream_put\<close>. The text
  \<open>snprintf\<close> makes of a double is a parameter.
\<close>

subsection \<open>\<open>FixBuffer\<close>\<close>

definition kSmallBuffer :: nat where "kSmallBuffer = 4000"

definition kLargeBuffer :: nat where "kLargeBuffer = 4000 * 1000"

record fixbuf =
  fb_data :: string
  fb_cur :: nat

definition new_fixbuf :: "string \<Rightarrow> fixbuf" where
  "new_fixbuf mem = \<lparr>fb_data = mem, fb_cur = 0\<rparr>"

definition Avail :: "fixbuf \<Rightarrow> nat" where
  "Avail b = size_sub (length (fb_data b)) (fb_cur b)"

definition Length :: "fixbuf \<Rightarrow> nat" where
  "Length b = fb_cur b"

definition Add :: "nat \<Rightarrow> fixbuf \<Rightarrow> fixbuf" where
  "Add len b = b\<lparr>fb_cur := fb_cur b + len\<rparr>"

definition Append :: "string \<Rightarrow> nat \<Rightarrow> fixbuf \<Rightarrow> fixbuf res" where
  "Append bytes len b =
     (if len < Avail b then
        res_bind (mem_read 0 len bytes) (\<lambda>d.
        res_bind (mem_write d (fb_cur b) (fb_data b)) (\<lambda>m.
        Inr (Add len (b\<lparr>fb_data := m\<rparr>))))
      else Inr b)"

definition Reset :: "fixbuf \<Rightarrow> fixbuf" where
  "Reset b = b\<lparr>fb_cur := 0\<rparr>"

definition Bzero :: "fixbuf \<Rightarrow> fixbuf" where
  "Bzero b = b\<lparr>fb_data := replicate (length (fb_data b)) (CHR 0x00)\<rparr>"

text \<open>The text: what \<open>data()\<close> and \<open>Length()\<close> give an output function.\<close>

definition fb_text :: "fixbuf \<Rightarrow> string" where
  "fb_text b = take (fb_cur b) (fb_data b)"

subsection \<open>Integers\<close>

definition digits :: string where
  "digits = ''9876543210123456789''"

definition zero :: "int \<Rightarrow> char" where
  "zero lsd = digits ! nat (9 + lsd)"

definition digitsHex :: string where
  "digitsHex = ''0123456789abcdef''"

text \<open>The loop of \<open>Convert\<close>: C++ division and remainder, the digits least significant first.\<close>

function convert_loop :: "int \<Rightarrow> string" where
  "convert_loop i = zero (i smod 10) # (if i sdiv 10 \<noteq> 0 then convert_loop (i sdiv 10) else [])"
  by auto
termination
proof (relation "measure (\<lambda>i. nat \<bar>i\<bar>)")
  fix i :: int
  assume "i sdiv 10 \<noteq> 0"
  then have "i \<noteq> 0" by auto
  then have "1 \<le> \<bar>i\<bar>" by linarith
  moreover have "\<bar>i sdiv 10\<bar> = \<bar>i\<bar> div 10"
    by (cases "i = 0") (simp_all add: signed_divide_int_def abs_mult abs_sgn_eq)
  moreover have "\<bar>i\<bar> div 10 < \<bar>i\<bar>" using \<open>1 \<le> \<bar>i\<bar>\<close> by linarith
  ultimately show "(i sdiv 10, i) \<in> measure (\<lambda>i. nat \<bar>i\<bar>)" by simp
qed simp

declare convert_loop.simps [simp del]

text \<open>\<open>Convert(buf, value)\<close> on the memory \<open>mem\<close>, \<open>buf\<close> an index; the terminating NUL counts.\<close>

definition Convert :: "nat \<Rightarrow> int \<Rightarrow> string \<Rightarrow> (nat \<times> string) res" where
  "Convert buf value mem =
     (let p = convert_loop value @ (if value < 0 then ''-'' else []) in
      res_bind (mem_write (rev p @ [CHR 0x00]) buf mem) (\<lambda>m. Inr (length p, m)))"

fun hex_loop :: "nat \<Rightarrow> string" where
  "hex_loop i = digitsHex ! (i mod 16) # (if i div 16 \<noteq> 0 then hex_loop (i div 16) else [])"

declare hex_loop.simps [simp del]

definition ConvertHex :: "nat \<Rightarrow> nat \<Rightarrow> string \<Rightarrow> (nat \<times> string) res" where
  "ConvertHex buf value mem =
     (let p = hex_loop value in
      res_bind (mem_write (rev p @ [CHR 0x00]) buf mem) (\<lambda>m. Inr (length p, m)))"

subsection \<open>The stream\<close>

definition kMaxNumericSize :: nat where "kMaxNumericSize = 32"

definition FormatInteger :: "int \<Rightarrow> fixbuf \<Rightarrow> fixbuf res" where
  "FormatInteger v b =
     (if kMaxNumericSize \<le> Avail b then
        res_bind (Convert (fb_cur b) v (fb_data b)) (\<lambda>(len, m). Inr (Add len (b\<lparr>fb_data := m\<rparr>)))
      else Inr b)"

text \<open>\<open>snprintf\<close> writes at most the size it is given, the NUL included, and returns the
  length of the whole text.\<close>

definition format_double :: "string \<Rightarrow> fixbuf \<Rightarrow> fixbuf res" where
  "format_double txt b =
     (if kMaxNumericSize \<le> Avail b then
        res_bind (mem_write (take (kMaxNumericSize - 1) txt @ [CHR 0x00]) (fb_cur b) (fb_data b)) (\<lambda>m.
        Inr (Add (length txt) (b\<lparr>fb_data := m\<rparr>)))
      else Inr b)"

definition put_c_str :: "string option \<Rightarrow> fixbuf \<Rightarrow> fixbuf res" where
  "put_c_str v = (case v of Some bytes \<Rightarrow> Append (c_str bytes) (length (c_str bytes)) | None \<Rightarrow> Append ''(null)'' 6)"

definition put_pointer :: "nat \<Rightarrow> fixbuf \<Rightarrow> fixbuf res" where
  "put_pointer v b =
     (if kMaxNumericSize \<le> Avail b then
        res_bind (mem_write ''0x'' (fb_cur b) (fb_data b)) (\<lambda>m.
        res_bind (ConvertHex (fb_cur b + 2) v m) (\<lambda>(len, m'). Inr (Add (len + 2) (b\<lparr>fb_data := m'\<rparr>))))
      else Inr b)"

text \<open>One constructor per overload of \<open>operator<<\<close>; \<open>'d\<close> is the type of doubles.\<close>

datatype 'd log_arg =
    LBool bool
  | LShort "16 word"
  | LUShort "16 word"
  | LInt "32 word"
  | LUInt "32 word"
  | LLong "64 word"
  | LULong "64 word"
  | LLongLong "64 word"
  | LULongLong "64 word"
  | LFloat 'd
  | LDouble 'd
  | LLongDouble 'd
  | LChar char
  | LCStr "string option"
  | LUCStr "string option"
  | LString string
  | LPointer "64 word"

fun stream_put :: "('d \<Rightarrow> string) \<Rightarrow> 'd log_arg \<Rightarrow> fixbuf \<Rightarrow> fixbuf res" where
  "stream_put fmt (LBool v) b = Append (if v then ''1'' else ''0'') 1 b"
| "stream_put fmt (LShort v) b = FormatInteger (sint v) b"
| "stream_put fmt (LUShort v) b = FormatInteger (uint v) b"
| "stream_put fmt (LInt v) b = FormatInteger (sint v) b"
| "stream_put fmt (LUInt v) b = FormatInteger (uint v) b"
| "stream_put fmt (LLong v) b = FormatInteger (sint v) b"
| "stream_put fmt (LULong v) b = FormatInteger (uint v) b"
| "stream_put fmt (LLongLong v) b = FormatInteger (sint v) b"
| "stream_put fmt (LULongLong v) b = FormatInteger (uint v) b"
| "stream_put fmt (LFloat v) b = format_double (fmt v) b"
| "stream_put fmt (LDouble v) b = format_double (fmt v) b"
| "stream_put fmt (LLongDouble v) b = format_double (fmt v) b"
| "stream_put fmt (LChar v) b = Append [v] 1 b"
| "stream_put fmt (LCStr v) b = put_c_str v b"
| "stream_put fmt (LUCStr v) b = put_c_str v b"
| "stream_put fmt (LString v) b = Append v (length v) b"
| "stream_put fmt (LPointer v) b = put_pointer (unat v) b"

fun stream_puts :: "('d \<Rightarrow> string) \<Rightarrow> 'd log_arg list \<Rightarrow> fixbuf \<Rightarrow> fixbuf res" where
  "stream_puts fmt [] b = Inr b"
| "stream_puts fmt (a # as) b = res_bind (stream_put fmt a b) (stream_puts fmt as)"

subsection \<open>The digits\<close>

lemma sdiv_10_abs: "nat \<bar>i sdiv 10\<bar> = nat \<bar>i\<bar> div 10" for i :: int
proof -
  have "\<bar>i sdiv 10\<bar> = \<bar>i\<bar> div 10" by (cases "i = 0") (simp_all add: signed_divide_int_def abs_mult abs_sgn_eq)
  then show ?thesis by (simp add: nat_div_distrib)
qed

lemma zero_digit: "-10 < r \<Longrightarrow> r < 10 \<Longrightarrow> zero r = digit_char (nat \<bar>r\<bar>)"
proof -
  assume "-10 < r" "r < 10"
  then have "r \<in> set [-9..9]" unfolding set_upto by simp
  moreover have "\<forall>r \<in> set [-9..9]. zero r = digit_char (nat \<bar>r\<bar>)" by code_simp
  ultimately show ?thesis by blast
qed

lemma zero_smod: "zero (i smod 10) = digit_char (nat \<bar>i\<bar> mod 10)"
proof -
  have "\<bar>i smod 10\<bar> = \<bar>i\<bar> mod 10"
    unfolding signed_modulo_int_def by (cases "i = 0") (simp_all add: abs_mult abs_sgn_eq)
  then have "-10 < i smod 10" "i smod 10 < 10" "nat \<bar>i smod 10\<bar> = nat \<bar>i\<bar> mod 10"
    by (auto simp: nat_mod_distrib abs_if split: if_splits)
  then show ?thesis by (simp add: zero_digit)
qed

lemma rev_convert_loop: "rev (convert_loop i) = decimal (nat \<bar>i\<bar>)"
proof (induction i rule: convert_loop.induct)
  case (1 i)
  have nz: "i sdiv 10 \<noteq> 0 \<longleftrightarrow> nat \<bar>i\<bar> div 10 \<noteq> 0"
    unfolding sdiv_10_abs [symmetric] by simp
  show ?case
  proof (cases "i sdiv 10 = 0")
    case True
    with nz have "nat \<bar>i\<bar> < 10" by (simp add: div_eq_0_iff)
    with True show ?thesis by (simp add: convert_loop.simps zero_smod decimal.simps [of "nat \<bar>i\<bar>"])
  next
    case False
    with nz have "\<not> nat \<bar>i\<bar> < 10" by (auto simp: div_eq_0_iff)
    with 1 False show ?thesis
      by (simp add: convert_loop.simps [of i] zero_smod sdiv_10_abs decimal.simps [of "nat \<bar>i\<bar>"])
  qed
qed

lemma Convert_eq: "Convert buf v mem =
    res_bind (mem_write (to_string v @ [CHR 0x00]) buf mem) (\<lambda>m. Inr (length (to_string v), m))"
proof -
  let ?p = "convert_loop v @ (if v < 0 then ''-'' else [])"
  have r: "rev ?p = to_string v" by (simp add: rev_convert_loop to_string_def)
  moreover from this have "length ?p = length (to_string v)" by (metis length_rev)
  ultimately show ?thesis unfolding Convert_def Let_def by simp
qed

definition hex_value :: "char \<Rightarrow> nat" where
  "hex_value c = (if is_digit c then digit_value c else of_char c - 87)"

definition unhex :: "string \<Rightarrow> nat" where
  "unhex = foldl (\<lambda>n c. 16 * n + hex_value c) 0"

lemma hex_value_digit: "d < 16 \<Longrightarrow> hex_value (digitsHex ! d) = d"
proof -
  assume "d < 16"
  then have "d \<in> set [0..<16]" by simp
  moreover have "\<forall>d \<in> set [0..<16]. hex_value (digitsHex ! d) = d" by code_simp
  ultimately show ?thesis by blast
qed

lemma unhex_loop: "unhex (rev (hex_loop n)) = n"
proof (induction n rule: hex_loop.induct)
  case (1 i)
  have "unhex (rev (hex_loop i)) =
      16 * (if i div 16 \<noteq> 0 then unhex (rev (hex_loop (i div 16))) else 0) + i mod 16"
    by (simp add: hex_loop.simps [of i] unhex_def hex_value_digit)
  also have "\<dots> = 16 * (i div 16) + i mod 16" using 1 by simp
  finally show ?case by simp
qed

lemma length_hex_loop: "0 < k \<Longrightarrow> n < 16 ^ k \<Longrightarrow> length (hex_loop n) \<le> k"
proof (induction k arbitrary: n)
  case (Suc k)
  show ?case
  proof (cases "n div 16 = 0")
    case False
    then have "\<not> n < 16" by (auto simp: div_eq_0_iff)
    with Suc.prems have "0 < k" by (cases k) auto
    moreover have "n div 16 < 16 ^ k" using Suc.prems by (simp add: less_mult_imp_div_less)
    ultimately show ?thesis using Suc.IH False by (simp add: hex_loop.simps [of n])
  qed (simp add: hex_loop.simps)
qed simp

subsection \<open>The buffer and the operators\<close>

text \<open>\<open>cur_\<close> stays inside the array: one byte is always left, for the NUL of a number.\<close>

definition fb_ok :: "nat \<Rightarrow> fixbuf \<Rightarrow> bool" where
  "fb_ok n b \<longleftrightarrow> length (fb_data b) = n \<and> fb_cur b < n \<and> n \<le> max_size"

lemma Avail_ok: "fb_ok n b \<Longrightarrow> Avail b = n - length (fb_text b)"
  unfolding fb_ok_def Avail_def fb_text_def by (subst size_sub_le) (auto simp: size_mod_max_size min_def)

lemma length_fb_text: "fb_ok n b \<Longrightarrow> length (fb_text b) = fb_cur b"
  by (auto simp: fb_ok_def fb_text_def)

text \<open>Writing at \<open>cur_\<close> and moving it over a part of what was written.\<close>

lemma fb_write:
  assumes "fb_ok n b" "fb_cur b + length ys \<le> n" "k \<le> length ys" "fb_cur b + k < n"
  shows "\<exists>m. mem_write ys (fb_cur b) (fb_data b) = Inr m \<and> fb_ok n (Add k (b\<lparr>fb_data := m\<rparr>)) \<and>
    fb_text (Add k (b\<lparr>fb_data := m\<rparr>)) = fb_text b @ take k ys"
proof -
  have "mem_write ys (fb_cur b) (fb_data b) = Inr (copy_in ys (fb_cur b) (fb_data b))"
    using assms(1,2) by (simp add: mem_write_def fb_ok_def)
  moreover have "take (fb_cur b + k) (copy_in ys (fb_cur b) (fb_data b)) = take (fb_cur b) (fb_data b) @ take k ys"
    using assms(1,2,3) by (simp add: copy_in_def fb_ok_def min_def)
  ultimately show ?thesis using assms by (simp add: fb_ok_def Add_def fb_text_def)
qed

text \<open>The reference: an item that fits is appended whole, another is left out.\<close>

definition log_append :: "nat \<Rightarrow> nat \<Rightarrow> string \<Rightarrow> string \<Rightarrow> string" where
  "log_append n need t x = (if length t + need \<le> n then t @ x else t)"

definition fb_puts :: "nat \<Rightarrow> nat \<Rightarrow> string \<Rightarrow> fixbuf \<Rightarrow> fixbuf res \<Rightarrow> bool" where
  "fb_puts n need x b r \<longleftrightarrow> (\<exists>b'. r = Inr b' \<and> fb_ok n b' \<and> fb_text b' = log_append n need (fb_text b) x)"

lemma Append_puts:
  assumes "fb_ok n b" "len = length x"
  shows "fb_puts n (len + 1) x b (Append x len b)"
proof (cases "len < Avail b")
  case True
  with assms have "fb_cur b + length x < n" by (simp add: Avail_ok length_fb_text)
  with fb_write [OF assms(1), of x "length x"] True assms show ?thesis
    by (auto simp: fb_puts_def log_append_def Append_def mem_read_def Base.slice_def Avail_ok)
next
  case False
  with assms show ?thesis
    by (auto simp: fb_puts_def log_append_def Append_def Avail_ok fb_ok_def)
qed

lemma FormatInteger_puts:
  assumes "fb_ok n b" "length (to_string v) < 32"
  shows "fb_puts n 32 (to_string v) b (FormatInteger v b)"
proof (cases "32 \<le> Avail b")
  case True
  then have "fb_cur b + 32 \<le> n" using assms(1) by (simp add: Avail_ok length_fb_text)
  with fb_write [OF assms(1), of "to_string v @ [CHR 0x00]" "length (to_string v)"] True assms show ?thesis
    by (auto simp: fb_puts_def log_append_def FormatInteger_def Convert_eq kMaxNumericSize_def Avail_ok length_fb_text)
next
  case False
  with assms show ?thesis
    by (auto simp: fb_puts_def log_append_def FormatInteger_def kMaxNumericSize_def Avail_ok length_fb_text)
qed

lemma format_double_puts:
  assumes "fb_ok n b" "length x < 32"
  shows "fb_puts n 32 x b (format_double x b)"
proof (cases "32 \<le> Avail b")
  case True
  then have "fb_cur b + 32 \<le> n" using assms(1) by (simp add: Avail_ok length_fb_text)
  with fb_write [OF assms(1), of "x @ [CHR 0x00]" "length x"] True assms show ?thesis
    by (auto simp: fb_puts_def log_append_def format_double_def kMaxNumericSize_def Avail_ok length_fb_text)
next
  case False
  with assms show ?thesis
    by (auto simp: fb_puts_def log_append_def format_double_def kMaxNumericSize_def Avail_ok length_fb_text)
qed

definition hex_string :: "nat \<Rightarrow> string" where
  "hex_string v = ''0x'' @ rev (hex_loop v)"

lemma put_pointer_puts:
  assumes "fb_ok n b" "v < 2 ^ 64"
  shows "fb_puts n 32 (hex_string v) b (put_pointer v b)"
proof (cases "32 \<le> Avail b")
  case True
  then have room: "fb_cur b + 32 \<le> n" using assms(1) by (simp add: Avail_ok length_fb_text)
  have len: "length (hex_loop v) \<le> 16" using length_hex_loop [of 16 v] assms(2) by simp
  let ?y = "rev (hex_loop v) @ [CHR 0x00]"
  have n: "length (fb_data b) = n" "fb_cur b < n" using assms(1) by (simp_all add: fb_ok_def)
  have two: "mem_write ''0x'' (fb_cur b) (fb_data b) = Inr (copy_in ''0x'' (fb_cur b) (fb_data b))"
    using room n by (simp add: mem_write_def)
  have "copy_in ?y (fb_cur b + 2) (copy_in ''0x'' (fb_cur b) (fb_data b)) = copy_in (''0x'' @ ?y) (fb_cur b) (fb_data b)"
    using room n len by (simp add: copy_in_def min_def eval_nat_numeral add.commute)
  then have "mem_write ?y (fb_cur b + 2) (copy_in ''0x'' (fb_cur b) (fb_data b)) =
      mem_write (''0x'' @ ?y) (fb_cur b) (fb_data b)"
    using room n len by (simp add: mem_write_def)
  with two True have "put_pointer v b =
      res_bind (mem_write (''0x'' @ ?y) (fb_cur b) (fb_data b)) (\<lambda>m. Inr (Add (length (hex_string v)) (b\<lparr>fb_data := m\<rparr>)))"
    by (cases "mem_write (''0x'' @ ?y) (fb_cur b) (fb_data b)")
      (simp_all add: put_pointer_def kMaxNumericSize_def ConvertHex_def Let_def hex_string_def)
  with fb_write [OF assms(1), of "''0x'' @ ?y" "length (hex_string v)"] True room len assms show ?thesis
    by (auto simp: fb_puts_def log_append_def hex_string_def Avail_ok length_fb_text)
next
  case False
  with assms show ?thesis
    by (auto simp: fb_puts_def log_append_def put_pointer_def kMaxNumericSize_def Avail_ok length_fb_text)
qed

text \<open>The text of each item and the room it asks for.\<close>

definition c_text :: "string option \<Rightarrow> string" where
  "c_text v = (case v of Some bytes \<Rightarrow> c_str bytes | None \<Rightarrow> ''(null)'')"

fun arg_text :: "('d \<Rightarrow> string) \<Rightarrow> 'd log_arg \<Rightarrow> string" where
  "arg_text fmt (LBool v) = (if v then ''1'' else ''0'')"
| "arg_text fmt (LShort v) = to_string (sint v)"
| "arg_text fmt (LUShort v) = to_string (uint v)"
| "arg_text fmt (LInt v) = to_string (sint v)"
| "arg_text fmt (LUInt v) = to_string (uint v)"
| "arg_text fmt (LLong v) = to_string (sint v)"
| "arg_text fmt (LULong v) = to_string (uint v)"
| "arg_text fmt (LLongLong v) = to_string (sint v)"
| "arg_text fmt (LULongLong v) = to_string (uint v)"
| "arg_text fmt (LFloat v) = fmt v"
| "arg_text fmt (LDouble v) = fmt v"
| "arg_text fmt (LLongDouble v) = fmt v"
| "arg_text fmt (LChar v) = [v]"
| "arg_text fmt (LCStr v) = c_text v"
| "arg_text fmt (LUCStr v) = c_text v"
| "arg_text fmt (LString v) = v"
| "arg_text fmt (LPointer v) = hex_string (unat v)"

fun arg_need :: "'d log_arg \<Rightarrow> nat" where
  "arg_need (LBool v) = 2"
| "arg_need (LChar v) = 2"
| "arg_need (LCStr v) = length (c_text v) + 1"
| "arg_need (LUCStr v) = length (c_text v) + 1"
| "arg_need (LString v) = length v + 1"
| "arg_need a = 32"

fun log_text :: "nat \<Rightarrow> ('d \<Rightarrow> string) \<Rightarrow> 'd log_arg list \<Rightarrow> string \<Rightarrow> string" where
  "log_text n fmt [] t = t"
| "log_text n fmt (a # as) t = log_text n fmt as (log_append n (arg_need a) t (arg_text fmt a))"

lemma length_to_string: "\<bar>v\<bar> < 10 ^ 20 \<Longrightarrow> length (to_string v) < 32"
proof -
  assume "\<bar>v\<bar> < 10 ^ 20"
  then have "nat \<bar>v\<bar> < 10 ^ 20" by (simp add: nat_less_iff)
  from length_decimal [OF _ this] have "length (decimal (nat \<bar>v\<bar>)) \<le> 20" by simp
  then show ?thesis by (auto simp: to_string_def abs_if split: if_splits)
qed

lemma small_words:
  "\<bar>sint (v :: 16 word)\<bar> < 10 ^ 20" "\<bar>uint (v :: 16 word)\<bar> < 10 ^ 20"
  "\<bar>sint (w :: 32 word)\<bar> < 10 ^ 20" "\<bar>uint (w :: 32 word)\<bar> < 10 ^ 20"
  "\<bar>sint (x :: 64 word)\<bar> < 10 ^ 20" "\<bar>uint (x :: 64 word)\<bar> < 10 ^ 20"
  using sint_range_size [of v] sint_range_size [of w] sint_range_size [of x]
    uint_range_size [of v] uint_range_size [of w] uint_range_size [of x]
  by (auto simp: word_size abs_if)

lemma stream_put_puts:
  assumes "fb_ok n b" "\<forall>d. length (fmt d) < 32"
  shows "fb_puts n (arg_need a) (arg_text fmt a) b (stream_put fmt a b)"
proof -
  note int = FormatInteger_puts [OF assms(1) length_to_string]
  note str = Append_puts [OF assms(1)]
  have c: "fb_puts n (length (c_text v) + 1) (c_text v) b (put_c_str v b)" for v
    using str [of 6 "''(null)''"] str [of _ "c_text v"] 
    by (cases v) (simp_all add: put_c_str_def c_text_def eval_nat_numeral)
  have ptr: "fb_puts n 32 (hex_string (unat v)) b (put_pointer (unat v) b)" for v :: "64 word"
    using put_pointer_puts [OF assms(1)] unsigned_less [of v] by simp
  show ?thesis
    using str [of 1 "''1''"] str [of 1 "''0''"] str [of 1 "[_]"] str c ptr int small_words
      format_double_puts [OF assms(1)] assms(2)
    by (cases a) (simp_all add: numeral_2_eq_2)
qed

lemma stream_puts_puts:
  assumes "\<forall>d. length (fmt d) < 32"
  shows "fb_ok n b \<Longrightarrow> \<exists>b'. stream_puts fmt as b = Inr b' \<and> fb_ok n b' \<and> fb_text b' = log_text n fmt as (fb_text b)"
proof (induction as arbitrary: b)
  case (Cons a as)
  from stream_put_puts [OF Cons.prems assms, of a] obtain b1 where
    b1: "stream_put fmt a b = Inr b1" "fb_ok n b1" "fb_text b1 = log_append n (arg_need a) (fb_text b) (arg_text fmt a)"
    by (auto simp: fb_puts_def)
  from Cons.IH [OF b1(2)] b1(1,3) show ?case by auto
qed simp

lemma log_text_fits: "length t + sum_list (map (\<lambda>a. length (arg_text fmt a)) as) + 32 \<le> n \<Longrightarrow>
    log_text n fmt as t = t @ concat (map (arg_text fmt) as)"
proof (induction as arbitrary: t)
  case (Cons a as)
  have "arg_need a \<le> length (arg_text fmt a) + 32" by (cases a) auto
  with Cons show ?case by (simp add: log_append_def)
qed simp

subsection \<open>Properties\<close>

text \<open>
  C26: The digit loop, which never negates the number and reads the digits of both signs
  off one table, writes what \<open>std::to_string\<close> gives for every integer, the smallest one
  included, with a NUL behind it and nothing else.
\<close>

theorem Convert_equals_to_string:
  "Convert buf v mem =
     (if buf + length (to_string v) + 1 \<le> length mem
      then Inr (length (to_string v), copy_in (to_string v @ [CHR 0x00]) buf mem) else Inl Undefined)"
  by (simp add: Convert_eq mem_write_def)

text \<open>
  C25: The stream refines its text. Whatever is put into it, no operator writes outside
  the array; an item is appended whole when it has its room (32 bytes for a number, its
  length and one byte for a string) and left out otherwise, and the later items go on.
\<close>

theorem stream_refines_text:
  assumes "fb_ok n b" "\<forall>d. length (fmt d) < 32"
  shows "\<exists>b'. stream_puts fmt as b = Inr b' \<and> fb_ok n b' \<and> fb_text b' = log_text n fmt as (fb_text b) \<and>
    (length (fb_text b) + sum_list (map (\<lambda>a. length (arg_text fmt a)) as) + 32 \<le> n \<longrightarrow>
       fb_text b' = fb_text b @ concat (map (arg_text fmt) as))"
proof -
  from stream_puts_puts [OF assms(2,1), of as] obtain b' where
    b': "stream_puts fmt as b = Inr b'" "fb_ok n b'" "fb_text b' = log_text n fmt as (fb_text b)"
    by blast
  with log_text_fits [of "fb_text b" fmt as n] show ?thesis by simp
qed

definition small_stream :: fixbuf where
  "small_stream = new_fixbuf (replicate kSmallBuffer (CHR 0x00))"

lemma small_stream_ok: "fb_ok 4000 small_stream" "fb_text small_stream = []"
  by (simp_all add: small_stream_def new_fixbuf_def fb_ok_def fb_text_def kSmallBuffer_def max_size_def)

theorem stream_refines_text_witness:
  "\<exists>b'. stream_puts (\<lambda>d :: nat. ''1.5'') [LCStr (Some ''n=''), LInt (-42), LChar CHR '';''] small_stream = Inr b' \<and>
     fb_text b' = ''n=-42;''"
proof -
  let ?as = "[LCStr (Some ''n=''), LInt (-42), LChar CHR '';''] :: nat log_arg list"
  have "to_string (- 42) = ''-42''" by code_simp
  then have items: "map (arg_text (\<lambda>d :: nat. ''1.5'')) ?as = [''n='', ''-42'', '';'']"
    by (simp add: c_text_def c_str_def)
  then have "sum_list (map (\<lambda>a. length (arg_text (\<lambda>d :: nat. ''1.5'') a)) ?as) = 6" by simp
  with stream_refines_text [OF small_stream_ok(1), of "\<lambda>d :: nat. ''1.5''" ?as] items show ?thesis
    by (auto simp: small_stream_ok)
qed

text \<open>
  A number put into an empty stream can be read back: the decimal text gives the
  number for every signed and unsigned 64-bit value, and the hexadecimal one the pointer.
\<close>

lemma logged_number_roundtrip:
  assumes "fb_ok n b" "fb_text b = []" "32 \<le> n" "\<forall>d. length (fmt d) < 32"
  shows "(\<exists>b'. stream_put fmt (LLong w) b = Inr b' \<and> of_string (fb_text b') = sint w) \<and>
    (\<exists>b'. stream_put fmt (LULong w) b = Inr b' \<and> of_string (fb_text b') = uint w) \<and>
    (\<exists>b'. stream_put fmt (LPointer w) b = Inr b' \<and> unhex (drop 2 (fb_text b')) = unat w)"
proof -
  have put: "\<exists>b'. stream_put fmt a b = Inr b' \<and> fb_text b' = arg_text fmt a" if "arg_need a = 32" for a
    using stream_put_puts [OF assms(1,4), of a] that assms(2,3) by (auto simp: fb_puts_def log_append_def)
  from put [of "LLong w"] put [of "LULong w"] put [of "LPointer w"] show ?thesis
    by (auto simp: hex_string_def unhex_loop)
qed

end
