(* ===== verification/AsyncLogging.thy ===== *)
theory AsyncLogging
  imports LogStream
begin

section \<open>\<open>log/AsyncLogging\<close>: double buffering\<close>

text \<open>
  The threads that log append to the current buffer under the mutex; the logging thread
  collects the full buffers under the mutex and writes them without it. \<open>ThreadFunc\<close> is cut
  where it takes and gives up the mutex; each part is a function, and the step relation
  interleaves them with the appends of any number of threads. What is written is the
  list of \<open>Append\<close> calls on the log file.
\<close>

subsection \<open>State and operations\<close>

datatype logging_pc = T_check | T_lock | T_wait | T_write | T_done

record async =
  running :: bool
  current_buffer :: "fixbuf option"
  next_buffer :: "fixbuf option"
  buffers :: "fixbuf list"
  thread_pc :: logging_pc
  new_buffer1 :: "fixbuf option"
  new_buffer2 :: "fixbuf option"
  buffers_to_write :: "fixbuf list"
  log_output :: "string list"

text \<open>The constructor; \<open>Start\<close> and the head of \<open>ThreadFunc\<close>. The memory of a new buffer is
  not initialised: it is an argument.\<close>

definition new_async :: "string \<Rightarrow> async" where
  "new_async mem =
     \<lparr>running = False, current_buffer = Some (Bzero (new_fixbuf mem)), next_buffer = Some (Bzero (new_fixbuf mem)),
      buffers = [], thread_pc = T_done, new_buffer1 = None, new_buffer2 = None, buffers_to_write = [], log_output = []\<rparr>"

definition async_Start :: "string \<Rightarrow> async \<Rightarrow> async" where
  "async_Start mem s =
     s\<lparr>running := True, thread_pc := T_check, new_buffer1 := Some (Bzero (new_fixbuf mem)),
       new_buffer2 := Some (Bzero (new_fixbuf mem)), buffers_to_write := []\<rparr>"

text \<open>The flag is all that \<open>Stop\<close> changes; it then waits for the thread to end.\<close>

definition async_Stop :: "async \<Rightarrow> async" where
  "async_Stop s = s\<lparr>running := False\<rparr>"

definition async_Append :: "string \<Rightarrow> string \<Rightarrow> async \<Rightarrow> async res" where
  "async_Append mem line s =
     (case current_buffer s of
        None \<Rightarrow> Inl Undefined
      | Some cur \<Rightarrow>
          if length line < Avail cur then
            res_bind (Append line (length line) cur) (\<lambda>b. Inr (s\<lparr>current_buffer := Some b\<rparr>))
          else
            res_bind (Append line (length line) (case next_buffer s of Some b \<Rightarrow> b | None \<Rightarrow> new_fixbuf mem)) (\<lambda>b.
            Inr (s\<lparr>buffers := buffers s @ [cur], next_buffer := None, current_buffer := Some b\<rparr>)))"

text \<open>The loop condition and the three assertions.\<close>

definition is_empty_buffer :: "fixbuf option \<Rightarrow> bool" where
  "is_empty_buffer b = (case b of None \<Rightarrow> False | Some f \<Rightarrow> Length f = 0)"

definition async_check :: "async \<Rightarrow> async res" where
  "async_check s =
     (if running s then
        assert_then (is_empty_buffer (new_buffer1 s))
          (assert_then (is_empty_buffer (new_buffer2 s))
            (assert_then (buffers_to_write s = []) (Inr (s\<lparr>thread_pc := T_lock\<rparr>))))
      else Inr (s\<lparr>thread_pc := T_done\<rparr>))"

definition async_collect :: "async \<Rightarrow> async res" where
  "async_collect s =
     (case current_buffer s of
        None \<Rightarrow> Inl Undefined
      | Some cur \<Rightarrow>
          Inr (s\<lparr>current_buffer := new_buffer1 s, new_buffer1 := None,
                 buffers_to_write := buffers s @ [cur], buffers := buffers_to_write s,
                 next_buffer := (if next_buffer s = None then new_buffer2 s else next_buffer s),
                 new_buffer2 := (if next_buffer s = None then None else new_buffer2 s), thread_pc := T_write\<rparr>))"

text \<open>Under the mutex: an empty list is waited for once, for at most the flush interval.\<close>

definition async_lock :: "async \<Rightarrow> async res" where
  "async_lock s = (if buffers s = [] then Inr (s\<lparr>thread_pc := T_wait\<rparr>) else async_collect s)"

definition drop_message :: "nat \<Rightarrow> string" where
  "drop_message n = ''Dropped log message, '' @ to_string (int n) @ '' buffers'' @ [CHR 0x0A]"

definition refill :: "fixbuf option \<Rightarrow> fixbuf list \<Rightarrow> (fixbuf option \<times> fixbuf list) res" where
  "refill nb tw =
     (case nb of
        Some b \<Rightarrow> Inr (Some b, tw)
      | None \<Rightarrow> assert_then (tw \<noteq> []) (Inr (Some (Reset (last tw)), butlast tw)))"

definition async_write :: "async \<Rightarrow> async res" where
  "async_write s =
     assert_then (buffers_to_write s \<noteq> [])
       (let tw = buffers_to_write s;
            out1 = (if 25 < length tw then log_output s @ [drop_message (length tw - 2)] else log_output s);
            tw1 = (if 25 < length tw then take 2 tw else tw);
            out2 = out1 @ map fb_text tw1;
            tw2 = (if 2 < length tw1 then take 2 tw1 else tw1)
        in res_bind (refill (new_buffer1 s) tw2) (\<lambda>(n1, tw3).
           res_bind (refill (new_buffer2 s) tw3) (\<lambda>(n2, tw4).
           Inr (s\<lparr>log_output := out2, new_buffer1 := n1, new_buffer2 := n2, buffers_to_write := [], thread_pc := T_check\<rparr>))))"

definition async_turn :: "async \<Rightarrow> async res" where
  "async_turn s =
     (case thread_pc s of
        T_check \<Rightarrow> async_check s
      | T_lock \<Rightarrow> async_lock s
      | T_wait \<Rightarrow> async_collect s
      | T_write \<Rightarrow> async_write s
      | T_done \<Rightarrow> Inr s)"

subsection \<open>Interleavings\<close>

text \<open>
  Beside the state, what the log has taken (a line that does not fit an empty buffer is
  not taken) and whether a turn had so many buffers that it dropped some. \<open>n\<close> is the size
  of a buffer, \<open>kLargeBuffer\<close> in the program.
\<close>

inductive async_step :: "nat \<Rightarrow> async \<times> string \<times> bool \<Rightarrow> async \<times> string \<times> bool \<Rightarrow> bool" for n where
  append: "length mem = n \<Longrightarrow> async_Append mem line s = Inr s' \<Longrightarrow>
    async_step n (s, acc, d) (s', acc @ (if length line < n then line else []), d)"
| turn: "async_turn s = Inr s' \<Longrightarrow>
    async_step n (s, acc, d) (s', acc, d \<or> thread_pc s = T_write \<and> 25 < length (buffers_to_write s))"
| stop: "async_step n (s, acc, d) (async_Stop s, acc, d)"

definition async_init :: "string \<Rightarrow> async \<times> string \<times> bool" where
  "async_init mem = (async_Start mem (new_async mem), [], False)"

definition async_reach :: "nat \<Rightarrow> async \<times> string \<times> bool \<Rightarrow> bool" where
  "async_reach n x \<longleftrightarrow> (\<exists>mem. length mem = n \<and> (async_step n)\<^sup>*\<^sup>* (async_init mem) x)"

definition texts :: "fixbuf list \<Rightarrow> string" where
  "texts bs = concat (map fb_text bs)"

definition unwritten :: "async \<Rightarrow> string" where
  "unwritten s = texts (buffers_to_write s) @ texts (buffers s) @
     (case current_buffer s of None \<Rightarrow> [] | Some b \<Rightarrow> fb_text b)"

subsection \<open>The invariant\<close>

definition empty_ok :: "nat \<Rightarrow> fixbuf option \<Rightarrow> bool" where
  "empty_ok n b = (case b of None \<Rightarrow> False | Some f \<Rightarrow> fb_ok n f \<and> fb_cur f = 0)"

definition shared_ok :: "nat \<Rightarrow> async \<Rightarrow> bool" where
  "shared_ok n s \<longleftrightarrow>
     (\<exists>c. current_buffer s = Some c \<and> fb_ok n c) \<and> (\<forall>b \<in> set (buffers s). fb_ok n b) \<and>
     (next_buffer s \<noteq> None \<longrightarrow> empty_ok n (next_buffer s)) \<and> (next_buffer s = None \<longrightarrow> buffers s \<noteq> [])"

definition thread_ok :: "nat \<Rightarrow> async \<Rightarrow> bool" where
  "thread_ok n s \<longleftrightarrow>
     (if thread_pc s = T_write
      then new_buffer1 s = None \<and> buffers_to_write s \<noteq> [] \<and> (\<forall>b \<in> set (buffers_to_write s). fb_ok n b) \<and>
        (empty_ok n (new_buffer2 s) \<or> new_buffer2 s = None \<and> 2 \<le> length (buffers_to_write s))
      else empty_ok n (new_buffer1 s) \<and> empty_ok n (new_buffer2 s) \<and> buffers_to_write s = [])"

definition async_ok :: "nat \<Rightarrow> async \<Rightarrow> bool" where
  "async_ok n s \<longleftrightarrow> shared_ok n s \<and> thread_ok n s"

lemma new_fixbuf_ok: "length mem = n \<Longrightarrow> 0 < n \<Longrightarrow> n \<le> max_size \<Longrightarrow> fb_ok n (new_fixbuf mem)"
  by (simp add: fb_ok_def new_fixbuf_def)

lemma empty_Reset: "fb_ok n b \<Longrightarrow> empty_ok n (Some (Reset b))"
  by (auto simp: empty_ok_def fb_ok_def Reset_def)

lemma empty_text: "empty_ok n (Some b) \<Longrightarrow> fb_text b = []"
  by (simp add: empty_ok_def fb_text_def)

lemma empty_fits: "empty_ok n b \<Longrightarrow> is_empty_buffer b"
  by (auto simp: empty_ok_def is_empty_buffer_def Length_def split: option.splits)

lemma async_init_ok:
  assumes "length mem = n" "0 < n" "n \<le> max_size"
  shows "async_ok n (async_Start mem (new_async mem))"
  using assms by (simp add: async_ok_def shared_ok_def thread_ok_def async_Start_def new_async_def empty_ok_def
      Bzero_def new_fixbuf_def fb_ok_def)

text \<open>An append returns, keeps the invariant and adds the line to what is not written.\<close>

lemma async_Append_ok:
  assumes ok: "async_ok n s" and mem: "length mem = n" "0 < n" "n \<le> max_size"
  shows "\<exists>s'. async_Append mem line s = Inr s' \<and> async_ok n s' \<and> log_output s' = log_output s \<and>
    unwritten s' = unwritten s @ (if length line < n then line else [])"
proof -
  from ok obtain c where c: "current_buffer s = Some c" "fb_ok n c" by (auto simp: async_ok_def shared_ok_def)
  let ?nb = "case next_buffer s of Some b \<Rightarrow> b | None \<Rightarrow> new_fixbuf mem"
  have nb: "fb_ok n ?nb" "fb_text ?nb = []"
    using ok mem by (auto simp: async_ok_def shared_ok_def empty_ok_def new_fixbuf_def fb_ok_def fb_text_def
        split: option.splits)
  show ?thesis
  proof (cases "length line < Avail c")
    case True
    from Append_puts [OF c(2), of "length line" line] obtain b where
      b: "Append line (length line) c = Inr b" "fb_ok n b" "fb_text b = log_append n (length line + 1) (fb_text c) line"
      by (auto simp: fb_puts_def)
    have fits: "length (fb_text c) + (length line + 1) \<le> n" using True c(2) by (simp add: Avail_ok)
    with b(3) have "fb_text b = fb_text c @ line" "length line < n" by (auto simp: log_append_def)
    then show ?thesis using True b(1,2) c ok
      by (auto simp: async_Append_def async_ok_def shared_ok_def thread_ok_def unwritten_def)
  next
    case False
    from Append_puts [OF nb(1), of "length line" line] obtain b where
      b: "Append line (length line) ?nb = Inr b" "fb_ok n b" "fb_text b = log_append n (length line + 1) [] line"
      by (auto simp: fb_puts_def nb(2))
    have run: "async_Append mem line s = Inr (s\<lparr>buffers := buffers s @ [c], next_buffer := None, current_buffer := Some b\<rparr>)"
      using False b(1) c(1) by (simp add: async_Append_def)
    then show ?thesis using b(2,3) c ok
      by (auto simp: async_ok_def shared_ok_def thread_ok_def unwritten_def texts_def log_append_def)
  qed
qed

lemma async_collect_ok:
  assumes "async_ok n s" "thread_pc s \<noteq> T_write"
  shows "\<exists>s'. async_collect s = Inr s' \<and> async_ok n s' \<and> log_output s' = log_output s \<and> unwritten s' = unwritten s \<and>
    thread_pc s' = T_write"
proof -
  from assms obtain c b1 where c: "current_buffer s = Some c" "fb_ok n c" "new_buffer1 s = Some b1" "empty_ok n (Some b1)"
      "buffers_to_write s = []" "empty_ok n (new_buffer2 s)"
    by (auto simp: async_ok_def shared_ok_def thread_ok_def empty_ok_def split: option.splits)
  then have b1: "fb_ok n b1" "fb_text b1 = []" using empty_text by (auto simp: empty_ok_def)
  show ?thesis
  proof (cases "next_buffer s")
    case None
    then have "buffers s \<noteq> []" using assms(1) by (simp add: async_ok_def shared_ok_def)
    then have "2 \<le> length (buffers s @ [c])" by (cases "buffers s") auto
    with None c b1 assms show ?thesis
      by (auto simp: async_collect_def async_ok_def shared_ok_def thread_ok_def unwritten_def texts_def empty_ok_def
          split: option.splits)
  next
    case (Some b)
    with c b1 assms show ?thesis
      by (auto simp: async_collect_def async_ok_def shared_ok_def thread_ok_def unwritten_def texts_def)
  qed
qed

lemma refill_None:
  "tw \<noteq> [] \<Longrightarrow> refill None tw = Inr (Some (Reset (last tw)), butlast tw)"
  by (simp add: refill_def)

lemma async_write_ok:
  assumes ok: "async_ok n s" and pc: "thread_pc s = T_write"
  shows "\<exists>s'. async_write s = Inr s' \<and> async_ok n s' \<and> thread_pc s' = T_check \<and>
    (length (buffers_to_write s) \<le> 25 \<longrightarrow> concat (log_output s') @ unwritten s' = concat (log_output s) @ unwritten s)"
proof -
  let ?tw = "buffers_to_write s"
  have t: "new_buffer1 s = None" "?tw \<noteq> []" "\<forall>b \<in> set ?tw. fb_ok n b"
      "empty_ok n (new_buffer2 s) \<or> new_buffer2 s = None \<and> 2 \<le> length ?tw"
    using ok pc by (auto simp: async_ok_def thread_ok_def)
  define tw1 where "tw1 = (if 25 < length ?tw then take 2 ?tw else ?tw)"
  define tw2 where "tw2 = (if 2 < length tw1 then take 2 tw1 else tw1)"
  have tw2: "tw2 \<noteq> []" "set tw2 \<subseteq> set ?tw" "2 \<le> length ?tw \<Longrightarrow> length tw2 = 2"
    using t(2) set_take_subset [of 2 tw1] set_take_subset [of 2 ?tw] by (auto simp: tw1_def tw2_def split: if_splits)
  obtain n2 tw4 where n2: "refill (new_buffer2 s) (butlast tw2) = Inr (n2, tw4)" "empty_ok n n2"
  proof (cases "new_buffer2 s")
    case None
    then have "length tw2 = 2" using t(4) tw2(3) by (simp add: empty_ok_def)
    then have ne: "butlast tw2 \<noteq> []" by (cases tw2) auto
    then have "last (butlast tw2) \<in> set ?tw" using tw2(2) by (meson in_set_butlastD last_in_set subsetD)
    then have "empty_ok n (Some (Reset (last (butlast tw2))))" using t(3) empty_Reset by blast
    with that None refill_None [OF ne] show thesis by simp
  next
    case (Some b)
    with t(4) that show thesis by (simp add: refill_def)
  qed
  let ?out = "(if 25 < length ?tw then log_output s @ [drop_message (length ?tw - 2)] else log_output s) @ map fb_text tw1"
  let ?s = "s\<lparr>log_output := ?out, new_buffer1 := Some (Reset (last tw2)), new_buffer2 := n2, buffers_to_write := [], thread_pc := T_check\<rparr>"
  have "async_write s = Inr ?s"
    using t(1,2) refill_None [OF tw2(1)] n2(1)
    unfolding async_write_def Let_def tw1_def [symmetric] tw2_def [symmetric] by simp
  moreover have "last tw2 \<in> set ?tw" using tw2(1,2) last_in_set by blast
  then have "empty_ok n (Some (Reset (last tw2)))" using t(3) empty_Reset by blast
  with ok n2(2) have "async_ok n ?s" by (simp add: async_ok_def shared_ok_def thread_ok_def)
  moreover have "concat (log_output ?s) @ unwritten ?s = concat (log_output s) @ unwritten s" if "length ?tw \<le> 25"
    using that by (simp add: unwritten_def texts_def tw1_def)
  ultimately show ?thesis by auto
qed

lemma unwritten_pc [simp]: "unwritten (s\<lparr>thread_pc := p\<rparr>) = unwritten s"
  by (simp add: unwritten_def)

lemma async_ok_pc: "async_ok n s \<Longrightarrow> thread_pc s \<noteq> T_write \<Longrightarrow> p \<noteq> T_write \<Longrightarrow> async_ok n (s\<lparr>thread_pc := p\<rparr>)"
  by (simp add: async_ok_def shared_ok_def thread_ok_def)

lemma async_check_ok:
  assumes "async_ok n s" "thread_pc s = T_check"
  shows "async_check s = Inr (s\<lparr>thread_pc := if running s then T_lock else T_done\<rparr>)"
proof -
  have "is_empty_buffer (new_buffer1 s)" "is_empty_buffer (new_buffer2 s)" "buffers_to_write s = []"
    using assms empty_fits [of n "new_buffer1 s"] empty_fits [of n "new_buffer2 s"]
    by (simp_all add: async_ok_def thread_ok_def)
  then show ?thesis by (simp add: async_check_def)
qed

lemma async_turn_ok:
  assumes "async_ok n s"
  shows "\<exists>s'. async_turn s = Inr s' \<and> async_ok n s' \<and>
    (\<not> (thread_pc s = T_write \<and> 25 < length (buffers_to_write s)) \<longrightarrow>
       concat (log_output s') @ unwritten s' = concat (log_output s) @ unwritten s)"
proof (cases "thread_pc s")
  case T_check
  then show ?thesis using async_check_ok [OF assms] async_ok_pc [OF assms] by (simp add: async_turn_def)
next
  case T_lock
  then show ?thesis using async_collect_ok [OF assms] async_ok_pc [OF assms, of T_wait]
    by (cases "buffers s = []") (auto simp: async_turn_def async_lock_def)
next
  case T_wait
  then show ?thesis using async_collect_ok [OF assms] by (auto simp: async_turn_def)
next
  case T_write
  then show ?thesis using async_write_ok [OF assms] by (simp add: async_turn_def) (metis not_less)
next
  case T_done
  then show ?thesis using assms by (simp add: async_turn_def)
qed

lemma async_collect_first:
  assumes "buffers s = []" "async_collect s = Inr s'"
  shows "length (buffers_to_write s') = 1" "running s' = running s"
  using assms by (auto simp: async_collect_def split: option.splits)

definition run_ok :: "nat \<Rightarrow> async \<times> string \<times> bool \<Rightarrow> bool" where
  "run_ok n x = (case x of (s, acc, d) \<Rightarrow>
     async_ok n s \<and> (d \<or> concat (log_output s) @ unwritten s = acc))"

lemma run_ok_step:
  assumes "async_step n x y" "run_ok n x" "0 < n" "n \<le> max_size"
  shows "run_ok n y"
  using assms(1)
proof cases
  case (append mem line s s' acc d)
  with async_Append_ok [of n s mem line] assms(2-4) show ?thesis by (auto simp: run_ok_def)
next
  case (turn s s' acc d)
  with async_turn_ok [of n s] assms(2) show ?thesis by (auto simp: run_ok_def)
next
  case (stop s acc d)
  with assms(2) show ?thesis
    by (auto simp: run_ok_def async_Stop_def async_ok_def shared_ok_def thread_ok_def unwritten_def)
qed

lemma run_ok_reach:
  assumes "async_reach n x" "0 < n" "n \<le> max_size"
  shows "run_ok n x"
proof -
  from assms(1) obtain mem where mem: "length mem = n" "(async_step n)\<^sup>*\<^sup>* (async_init mem) x"
    by (auto simp: async_reach_def)
  from mem(2) show ?thesis
  proof (induction rule: rtranclp_induct)
    case base
    have "unwritten (async_Start mem (new_async mem)) = []" "log_output (async_Start mem (new_async mem)) = []"
      by (simp_all add: unwritten_def texts_def async_Start_def new_async_def fb_text_def Bzero_def new_fixbuf_def)
    then show ?case using async_init_ok [OF mem(1) assms(2,3)] by (simp add: run_ok_def async_init_def)
  next
    case (step y z)
    then show ?case using run_ok_step assms(2,3) by blast
  qed
qed

subsection \<open>Properties\<close>


text \<open>Steps from a reachable state.\<close>

lemma reach_step: "async_reach n x \<Longrightarrow> async_step n x y \<Longrightarrow> async_reach n y"
  unfolding async_reach_def by (auto intro: rtranclp.rtrancl_into_rtrancl)

lemma reach_turn:
  "async_reach n (s, acc, d) \<Longrightarrow> async_turn s = Inr s' \<Longrightarrow>
   d' = (d \<or> thread_pc s = T_write \<and> 25 < length (buffers_to_write s)) \<Longrightarrow> async_reach n (s', acc, d')"
  by (blast intro: reach_step async_step.turn)

lemma async_Append_thread:
  "async_Append mem line s = Inr s' \<Longrightarrow> thread_pc s' = thread_pc s \<and> running s' = running s \<and>
   buffers_to_write s' = buffers_to_write s"
  by (auto simp: async_Append_def res_bind_Inr_iff split: option.splits if_splits)

lemma async_write_running: "async_write s = Inr s' \<Longrightarrow> running s' = running s"
  by (auto simp: async_write_def Let_def res_bind_Inr_iff assert_then_Inr_iff split_beta)

text \<open>The thread as started, and the state in which it writes the first collected buffer.\<close>

lemma reach_first_write:
  assumes "2 < n" "n \<le> max_size"
  shows "\<exists>s. async_reach n (s, [], False) \<and> async_ok n s \<and> thread_pc s = T_write \<and> running s \<and>
    length (buffers_to_write s) = 1 \<and> concat (log_output s) = []"
proof -
  define mem where "mem = replicate n (CHR 0x00)"
  define s0 where "s0 = async_Start mem (new_async mem)"
  have ok: "async_ok n s0" unfolding s0_def by (rule async_init_ok) (use assms in \<open>simp_all add: mem_def\<close>)
  have s0: "thread_pc s0 = T_check" "running s0" "buffers s0 = []" "log_output s0 = []"
    by (simp_all add: s0_def async_Start_def new_async_def)
  have r0: "async_reach n (s0, [], False)"
    by (auto simp: async_reach_def async_init_def s0_def mem_def intro!: exI [of _ "replicate n (CHR 0x00)"])
  define s1 where "s1 = s0\<lparr>thread_pc := T_lock\<rparr>"
  have "async_turn s0 = Inr s1" using async_check_ok [OF ok s0(1)] s0 by (simp add: async_turn_def s1_def)
  then have r1: "async_reach n (s1, [], False)" by (rule reach_turn [OF r0]) (simp add: s0)
  define s2 where "s2 = s1\<lparr>thread_pc := T_wait\<rparr>"
  have "async_turn s1 = Inr s2" using s0 by (simp add: async_turn_def async_lock_def s1_def s2_def)
  then have r2: "async_reach n (s2, [], False)" by (rule reach_turn [OF r1]) (simp add: s1_def)
  have "async_ok n s2" using async_ok_pc [OF ok, of T_wait] s0 by (simp add: s1_def s2_def)
  from async_collect_ok [OF this] obtain s3 where
    s3: "async_collect s2 = Inr s3" "async_ok n s3" "log_output s3 = log_output s2" "thread_pc s3 = T_write"
    by (auto simp: s2_def)
  have "async_turn s2 = Inr s3" using s3(1) by (simp add: async_turn_def s2_def)
  then have r3: "async_reach n (s3, [], False)" by (rule reach_turn [OF r2]) (simp add: s2_def)
  have "buffers s2 = []" "running s2" "log_output s2 = []" using s0 by (simp_all add: s1_def s2_def)
  with async_collect_first [OF _ s3(1)] r3 s3 show ?thesis by (intro exI [of _ s3]) simp
qed


text \<open>
  \<open>Stop\<close> can lose the end of the log. The thread leaves its loop as soon as it sees
  the flag, without collecting again: a line appended while the thread is writing, before
  \<open>Stop\<close>, is still in a buffer when the thread has ended.
\<close>

lemma async_stop_loses_lines:
  "\<exists>s. async_reach kLargeBuffer (s, ''bye'', False) \<and> thread_pc s = T_done \<and> \<not> running s \<and>
     concat (log_output s) = [] \<and> unwritten s = ''bye''"
proof -
  define n where "n = kLargeBuffer"
  have n: "2 < n" "3 < n" "n \<le> max_size" by (simp_all add: n_def kLargeBuffer_def max_size_def)
  obtain mem :: string where mem: "length mem = n" using Ex_list_of_length by blast
  obtain s where s: "async_reach n (s, [], False)" "async_ok n s" "thread_pc s = T_write"
      "length (buffers_to_write s) = 1" "concat (log_output s) = []"
    using reach_first_write [OF n(1,3)] by blast
  have "run_ok n (s, [], False)" using run_ok_reach [OF s(1)] n by simp
  then have u0: "unwritten s = []" using s(5) by (simp add: run_ok_def)
  obtain s1 where s1: "async_Append mem ''bye'' s = Inr s1" "async_ok n s1"
      "log_output s1 = log_output s" "unwritten s1 = ''bye''"
    using async_Append_ok [OF s(2) mem, of "''bye''"] n u0 by auto
  note t1 = async_Append_thread [OF s1(1)]
  have "async_reach n (s1, [] @ (if length ''bye'' < n then ''bye'' else []), False)"
    by (rule reach_step [OF s(1)]) (rule async_step.append [OF mem s1(1)])
  then have r1: "async_reach n (s1, ''bye'', False)" using n(2) by simp
  define s2 where "s2 = async_Stop s1"
  have r2: "async_reach n (s2, ''bye'', False)" unfolding s2_def by (rule reach_step [OF r1]) (rule async_step.stop)
  have "async_ok n s2" using s1(2) by (simp add: s2_def async_Stop_def async_ok_def shared_ok_def thread_ok_def)
  moreover have pc2: "thread_pc s2 = T_write" "length (buffers_to_write s2) = 1" "\<not> running s2"
    using t1 s(3,4) by (simp_all add: s2_def async_Stop_def)
  ultimately obtain s3 where s3: "async_write s2 = Inr s3" "thread_pc s3 = T_check"
      "concat (log_output s3) @ unwritten s3 = concat (log_output s2) @ unwritten s2"
    using async_write_ok [of n s2] by auto
  have r3: "async_reach n (s3, ''bye'', False)"
    by (rule reach_turn [OF r2]) (use s3(1) pc2 in \<open>simp_all add: async_turn_def\<close>)
  define s4 where "s4 = s3\<lparr>thread_pc := T_done\<rparr>"
  have "async_turn s3 = Inr s4"
    using s3(2) pc2(3) async_write_running [OF s3(1)] by (simp add: async_turn_def async_check_def s4_def)
  with r3 s3(2) have r4: "async_reach n (s4, ''bye'', False)" by (auto intro: reach_turn)
  have "log_output s3 = log_output s2 @ map fb_text (buffers_to_write s2)"
    using s3(1) pc2(2) by (auto simp: async_write_def Let_def res_bind_Inr_iff assert_then_Inr_iff split_beta)
  moreover have "texts (buffers_to_write s) = []" using u0 by (simp add: unwritten_def)
  ultimately have out3: "concat (log_output s3) = []"
    using t1 s(5) s1(3) by (simp add: s2_def async_Stop_def texts_def)
  have "unwritten s2 = unwritten s1" by (simp add: s2_def async_Stop_def unwritten_def)
  moreover have "concat (log_output s2) = []" using s1(3) s(5) by (simp add: s2_def async_Stop_def)
  ultimately have "unwritten s3 = ''bye''" using s3(3) s1(4) out3 by (metis append_Nil)
  moreover have "unwritten s4 = unwritten s3" by (simp add: s4_def unwritten_def)
  ultimately have "concat (log_output s4) = []" "unwritten s4 = ''bye''" using out3 by (simp_all add: s4_def)
  moreover have "\<not> running s4" using pc2(3) async_write_running [OF s3(1)] by (simp add: s4_def)
  ultimately show ?thesis using r4 unfolding n_def by (intro exI [of _ s4]) (simp add: s4_def)
qed

end
