(* ===== verification/LogFile.thy ===== *)
theory LogFile
  imports Text
begin

section \<open>\<open>log/FileUtil\<close>, \<open>log/LogFile\<close>: files that roll\<close>

text \<open>
  A file is its name, what \<open>fwrite\<close> took and the counter \<open>written_bytes_\<close>; the files that
  were closed stay in a list. \<open>fwrite_unlocked\<close>, the clock, the text of a local time and the
  process id are parameters. The locking \<open>Append\<close> and \<open>Flush\<close> are in \<open>SharedLogFile\<close>.
\<close>

subsection \<open>\<open>AppendFile\<close>\<close>

record append_file =
  af_name :: string
  af_content :: string
  written_bytes :: int

text \<open>The constructor leaves \<open>written_bytes_\<close> as it was in memory.\<close>

definition new_append_file :: "string \<Rightarrow> int \<Rightarrow> append_file" where
  "new_append_file filename junk = \<lparr>af_name = filename, af_content = [], written_bytes = junk\<rparr>"

type_synonym 'k fwrite = "string \<Rightarrow> 'k \<Rightarrow> nat \<times> 'k"

text \<open>The loop on what remains; it ends when nothing remains or \<open>fwrite\<close> takes nothing.\<close>

function append_loop :: "'k fwrite \<Rightarrow> string \<Rightarrow> 'k \<Rightarrow> string \<times> 'k" where
  "append_loop fw rest k =
     (if rest = [] then ([], k)
      else let (n, k') = fw rest k in
        if n = 0 then ([], k')
        else let (taken, k'') = append_loop fw (drop n rest) k' in (take n rest @ taken, k''))"
  by auto
termination
  by (relation "measure (\<lambda>(fw, rest, k). length rest)") auto

declare append_loop.simps [simp del]

definition AppendFile_Append :: "'k fwrite \<Rightarrow> string \<Rightarrow> append_file \<Rightarrow> 'k \<Rightarrow> append_file \<times> 'k" where
  "AppendFile_Append fw line f k =
     (let (n, k1) = fw line k; (taken, k2) = append_loop fw (drop n line) k1 in
      (f\<lparr>af_content := af_content f @ take n line @ taken, written_bytes := written_bytes f + int (length line)\<rparr>, k2))"

subsection \<open>\<open>LogFile\<close>\<close>

record log_file =
  basename :: string
  roll_size :: int
  flush_interval :: int
  check_every_n :: int
  lf_count :: int
  start_of_day :: int
  last_roll :: int
  last_flush :: int
  lf_file :: "append_file option"
  lf_closed :: "append_file list"

definition kRollPerSeconds :: int where
  "kRollPerSeconds = 60 * 60 * 24"

text \<open>What a log file takes from its surroundings: \<open>strftime\<close> of a local time, the process id,
  the bytes in the memory of a new file object.\<close>

record file_env =
  time_text :: "int \<Rightarrow> string"
  process_id :: int
  junk :: int

definition MakeLogFileName :: "file_env \<Rightarrow> string \<Rightarrow> int \<Rightarrow> string" where
  "MakeLogFileName E base now = base @ time_text E now @ ''.'' @ to_string (process_id E) @ ''.log''"

definition RollFile :: "file_env \<Rightarrow> int \<Rightarrow> log_file \<Rightarrow> bool \<times> log_file" where
  "RollFile E now l =
     (if last_roll l < now
      then (True, l\<lparr>last_roll := now, last_flush := now,
              start_of_day := now sdiv kRollPerSeconds * kRollPerSeconds,
              lf_file := Some (new_append_file (MakeLogFileName E (basename l) now) (junk E)),
              lf_closed := lf_closed l @ (case lf_file l of None \<Rightarrow> [] | Some f \<Rightarrow> [f])\<rparr>)
      else (False, l))"

definition new_log_file :: "file_env \<Rightarrow> string \<Rightarrow> int \<Rightarrow> int \<Rightarrow> int \<Rightarrow> int \<Rightarrow> log_file" where
  "new_log_file E base roll interval every now =
     snd (RollFile E now
       \<lparr>basename = base, roll_size = roll, flush_interval = interval, check_every_n = every, lf_count = 0,
        start_of_day = 0, last_roll = 0, last_flush = 0, lf_file = None, lf_closed = []\<rparr>)"

text \<open>\<open>now\<close> is what \<open>time\<close> gives in \<open>AppendUnlocked\<close>, \<open>roll\<close> what it gives in \<open>RollFile\<close>.\<close>

definition AppendUnlocked :: "'k fwrite \<Rightarrow> file_env \<Rightarrow> int \<Rightarrow> int \<Rightarrow> string \<Rightarrow> log_file \<Rightarrow> 'k \<Rightarrow> (log_file \<times> 'k) res" where
  "AppendUnlocked fw E now roll line l k =
     (case lf_file l of
        None \<Rightarrow> Inl Undefined
      | Some f \<Rightarrow>
          let (f, k') = AppendFile_Append fw line f k; l = l\<lparr>lf_file := Some f\<rparr> in
          Inr (if roll_size l < written_bytes f then snd (RollFile E roll l)
               else
                 let l = l\<lparr>lf_count := lf_count l + 1\<rparr> in
                 if check_every_n l \<le> lf_count l then
                   let l = l\<lparr>lf_count := 0\<rparr>; day = now sdiv kRollPerSeconds * kRollPerSeconds in
                   if day \<noteq> start_of_day l then snd (RollFile E roll l)
                   else if flush_interval l \<le> now - last_flush l then l\<lparr>last_flush := now\<rparr> else l
                 else l, k'))"

text \<open>A sequence of appends, each with its two readings of the clock.\<close>

fun log_appends :: "'k fwrite \<Rightarrow> file_env \<Rightarrow> (string \<times> int \<times> int) list \<Rightarrow> log_file \<Rightarrow> 'k \<Rightarrow> (log_file \<times> 'k) res" where
  "log_appends fw E [] l k = Inr (l, k)"
| "log_appends fw E ((line, now, roll) # xs) l k =
     res_bind (AppendUnlocked fw E now roll line l k) (\<lambda>(l', k'). log_appends fw E xs l' k')"

subsection \<open>Writing\<close>

text \<open>\<open>fwrite\<close> takes some of what it is given: what it does while the disk has room.\<close>

definition progresses :: "'k fwrite \<Rightarrow> bool" where
  "progresses fw \<longleftrightarrow> (\<forall>s k. s \<noteq> [] \<longrightarrow> 0 < fst (fw s k) \<and> fst (fw s k) \<le> length s)"

lemma append_loop_all: "progresses fw \<Longrightarrow> fst (append_loop fw rest k) = rest"
proof (induction fw rest k rule: append_loop.induct)
  case (1 fw rest k)
  obtain n k' where n: "fw rest k = (n, k')" by fastforce
  show ?case
  proof (cases "rest = []")
    case False
    then have "n \<noteq> 0" using 1(2) n unfolding progresses_def by (metis fst_conv neq0_conv)
    with 1 False n show ?thesis by (subst append_loop.simps) (auto simp: split_beta)
  qed (simp add: append_loop.simps)
qed

lemma AppendFile_Append_all:
  "progresses fw \<Longrightarrow> af_content (fst (AppendFile_Append fw line f k)) = af_content f @ line"
  using append_loop_all [of fw "drop (fst (fw line k)) line" "snd (fw line k)"]
  by (simp add: AppendFile_Append_def Let_def split_beta)

lemma AppendFile_Append_count:
  "written_bytes (fst (AppendFile_Append fw line f k)) = written_bytes f + int (length line)"
  by (simp add: AppendFile_Append_def Let_def split_beta)

text \<open>On a full disk nothing is written, and the counter grows all the same.\<close>

lemma AppendFile_counts_lost_bytes:
  assumes "\<forall>s k. fst (fw s k) = 0"
  shows "af_content (fst (AppendFile_Append fw line f k)) = af_content f \<and>
    written_bytes (fst (AppendFile_Append fw line f k)) = written_bytes f + int (length line)"
proof -
  have "fst (append_loop fw s k) = []" for s k
    using assms by (subst append_loop.simps) (simp add: split_beta Let_def)
  then show ?thesis using assms by (simp add: AppendFile_Append_def Let_def split_beta)
qed

subsection \<open>Rolling\<close>

definition log_files :: "log_file \<Rightarrow> append_file list" where
  "log_files l = lf_closed l @ (case lf_file l of None \<Rightarrow> [] | Some f \<Rightarrow> [f])"

definition log_content :: "log_file \<Rightarrow> string" where
  "log_content l = concat (map af_content (log_files l))"

text \<open>The file objects have the names of the seconds they were made in.\<close>

definition file_times :: "file_env \<Rightarrow> log_file \<Rightarrow> int list \<Rightarrow> bool" where
  "file_times E l ts \<longleftrightarrow> map af_name (log_files l) = map (MakeLogFileName E (basename l)) ts \<and>
     sorted_wrt (<) ts \<and> ts \<noteq> [] \<and> last ts = last_roll l"

definition log_ok :: "file_env \<Rightarrow> log_file \<Rightarrow> bool" where
  "log_ok E l \<longleftrightarrow> lf_file l \<noteq> None \<and> (\<exists>ts. file_times E l ts)"

lemma sorted_le_last: "sorted_wrt (<) ts \<Longrightarrow> x \<in> set ts \<Longrightarrow> x \<le> last ts" for x :: int
  by (induction ts) (auto simp: less_imp_le)

lemma RollFile_ok:
  assumes "log_ok E l"
  shows "log_ok E (snd (RollFile E now l))" "log_content (snd (RollFile E now l)) = log_content l"
proof -
  from assms obtain f ts where f: "lf_file l = Some f" "file_times E l ts" by (auto simp: log_ok_def)
  have "log_ok E (snd (RollFile E now l)) \<and> log_content (snd (RollFile E now l)) = log_content l"
  proof (cases "last_roll l < now")
    case False
    then show ?thesis using assms by (simp add: RollFile_def)
  next
    case True
    let ?l = "snd (RollFile E now l)"
    have "\<forall>x \<in> set ts. x < now"
      using f(2) True sorted_le_last [of ts] by (fastforce simp: file_times_def)
    then have "sorted_wrt (<) (ts @ [now])" using f(2) by (simp add: file_times_def sorted_wrt_append)
    then have "file_times E ?l (ts @ [now])"
      using f True by (auto simp: file_times_def RollFile_def log_files_def new_append_file_def)
    then show ?thesis using f True by (auto simp: log_ok_def RollFile_def log_content_def log_files_def new_append_file_def)
  qed
  then show "log_ok E (snd (RollFile E now l))" "log_content (snd (RollFile E now l)) = log_content l" by auto
qed

lemma log_ok_fields:
  assumes "log_ok E l" "log_files l' = log_files l \<or>
      map af_name (log_files l') = map af_name (log_files l)" "lf_file l' \<noteq> None"
    and "basename l' = basename l" "last_roll l' = last_roll l"
  shows "log_ok E l'"
  using assms by (auto simp: log_ok_def file_times_def)

text \<open>One append: the line is behind all that was written, in the same or a new file.\<close>

lemma AppendUnlocked_ok:
  assumes "progresses fw" "log_ok E l"
  shows "\<exists>l' k'. AppendUnlocked fw E now roll line l k = Inr (l', k') \<and> log_ok E l' \<and>
    log_content l' = log_content l @ line \<and> basename l' = basename l"
proof -
  from assms(2) obtain f where f: "lf_file l = Some f" by (auto simp: log_ok_def)
  obtain f' k' where f': "AppendFile_Append fw line f k = (f', k')" by fastforce
  have c: "af_content f' = af_content f @ line" using AppendFile_Append_all [OF assms(1), of line f k] f' by simp
  have nam: "af_name f' = af_name f" using f' by (auto simp: AppendFile_Append_def Let_def split_beta)
  define l1 where "l1 = l\<lparr>lf_file := Some f'\<rparr>"
  have l1: "log_ok E l1" "log_content l1 = log_content l @ line" "basename l1 = basename l"
    using f c nam log_ok_fields [OF assms(2), of l1] by (simp_all add: l1_def log_content_def log_files_def)
  have same: "log_ok E l2 \<and> log_content l2 = log_content l1 \<and> basename l2 = basename l1"
    if "lf_file l2 = lf_file l1" "lf_closed l2 = lf_closed l1" "basename l2 = basename l1" "last_roll l2 = last_roll l1" for l2
    using that log_ok_fields [OF l1(1), of l2] l1(1) by (simp add: log_content_def log_files_def log_ok_def)
  have roll: "log_ok E (snd (RollFile E roll l2)) \<and> log_content (snd (RollFile E roll l2)) = log_content l1 \<and>
      basename (snd (RollFile E roll l2)) = basename l1"
    if "lf_file l2 = lf_file l1" "lf_closed l2 = lf_closed l1" "basename l2 = basename l1" "last_roll l2 = last_roll l1" for l2
    using same [OF that] RollFile_ok [of E l2 roll] by (simp add: RollFile_def)
  let ?inc = "l1\<lparr>lf_count := lf_count l1 + 1\<rparr>"
  let ?zero = "?inc\<lparr>lf_count := 0\<rparr>"
  obtain l' where "AppendUnlocked fw E now roll line l k = Inr (l', k')"
      "l' \<in> {snd (RollFile E roll l1), snd (RollFile E roll ?zero), ?zero\<lparr>last_flush := now\<rparr>, ?zero, ?inc}"
    using f f' unfolding AppendUnlocked_def Let_def l1_def by simp
  moreover from this(2) have "log_ok E l' \<and> log_content l' = log_content l1 \<and> basename l' = basename l1"
    using roll [of l1] roll [of ?zero] same [of "?zero\<lparr>last_flush := now\<rparr>"] same [of ?zero] same [of ?inc] by auto
  ultimately show ?thesis using l1 by auto
qed

lemma log_appends_ok:
  assumes "progresses fw"
  shows "log_ok E l \<Longrightarrow> \<exists>l' k'. log_appends fw E xs l k = Inr (l', k') \<and> log_ok E l' \<and>
    log_content l' = log_content l @ concat (map fst xs) \<and> basename l' = basename l"
proof (induction xs arbitrary: l k)
  case (Cons x xs)
  obtain line now roll where x: "x = (line, now, roll)" by (cases x) auto
  from AppendUnlocked_ok [OF assms Cons.prems, of now roll line k] obtain l1 k1 where
    l1: "AppendUnlocked fw E now roll line l k = Inr (l1, k1)" "log_ok E l1" "log_content l1 = log_content l @ line"
      "basename l1 = basename l"
    by blast
  from Cons.IH [OF l1(2), of k1] l1 show ?case by (auto simp: x)
qed simp

lemma new_log_file_ok: "0 < now \<Longrightarrow> log_ok E (new_log_file E base r i e now)"
    "0 < now \<Longrightarrow> log_content (new_log_file E base r i e now) = []"
    "basename (new_log_file E base r i e now) = base"
  by (auto simp: new_log_file_def RollFile_def log_ok_def file_times_def log_files_def new_append_file_def log_content_def
      intro!: exI [of _ "[now]"])

subsection \<open>Properties\<close>


definition demo_env :: file_env where
  "demo_env = \<lparr>time_text = to_string, process_id = 7, junk = 0\<rparr>"


end
