(* ===== verification/Monitor.thy ===== *)
theory Monitor
  imports Base
begin

section \<open>\<open>base/Mutex\<close>, \<open>base/Condition\<close>: threads over a monitor\<close>

text \<open>
  The classes that share state between threads hold their mutex (\<open>LockGuard\<close>) through
  each operation and give it up only inside \<open>Condition::Wait(pred)\<close>. So an operation is a
  section that runs alone: it finds its predicate false and waits on a condition, or it
  runs to its end and notifies. Threads interleave between sections in any order, a
  waiting thread may also wake without a notification, and a woken thread tests its
  predicate again. Every operation that ends is put in the log \<open>returned\<close>.
\<close>

subsection \<open>Sections and threads\<close>

datatype 'c notice = No_notice | Notify 'c | NotifyAll "'c list"

datatype ('s, 'r, 'c) segment = Wait 'c | Leave 's 'r "'c notice" | Fails fault

datatype ('o, 'c) thread_pc = Idle | Entering 'o | Waiting 'c 'o | Woken 'o

record ('s, 'o, 'r, 'c) monitor =
  shared :: 's
  pcs :: "nat \<Rightarrow> ('o, 'c) thread_pc"
  returned :: "(nat \<times> 'o \<times> 'r) list"

text \<open>\<open>pthread_cond_signal\<close> wakes one waiting thread, if there is one.\<close>

fun notified :: "'c notice \<Rightarrow> (nat \<Rightarrow> ('o, 'c) thread_pc) \<Rightarrow> (nat \<Rightarrow> ('o, 'c) thread_pc) \<Rightarrow> bool" where
  "notified No_notice ps ps' \<longleftrightarrow> ps' = ps"
| "notified (Notify c) ps ps' \<longleftrightarrow>
     (\<exists>t op. ps t = Waiting c op \<and> ps' = ps(t := Woken op)) \<or> (\<forall>t op. ps t \<noteq> Waiting c op) \<and> ps' = ps"
| "notified (NotifyAll cs) ps ps' \<longleftrightarrow>
     ps' = (\<lambda>t. case ps t of Waiting c op \<Rightarrow> if c \<in> set cs then Woken op else ps t | _ \<Rightarrow> ps t)"

fun at_gate :: "('o, 'c) thread_pc \<Rightarrow> 'o option" where
  "at_gate (Entering op) = Some op"
| "at_gate (Woken op) = Some op"
| "at_gate p = None"

inductive mon_step ::
  "('o \<Rightarrow> 's \<Rightarrow> ('s, 'r, 'c) segment) \<Rightarrow> ('s, 'o, 'r, 'c) monitor \<Rightarrow> ('s, 'o, 'r, 'c) monitor \<Rightarrow> bool"
  for body where
  call: "pcs m t = Idle \<Longrightarrow> mon_step body m (m\<lparr>pcs := (pcs m)(t := Entering op)\<rparr>)"
| wait: "at_gate (pcs m t) = Some op \<Longrightarrow> body op (shared m) = Wait c \<Longrightarrow>
    mon_step body m (m\<lparr>pcs := (pcs m)(t := Waiting c op)\<rparr>)"
| leave: "at_gate (pcs m t) = Some op \<Longrightarrow> body op (shared m) = Leave s' r n \<Longrightarrow>
    notified n ((pcs m)(t := Idle)) ps \<Longrightarrow>
    mon_step body m \<lparr>shared = s', pcs = ps, returned = returned m @ [(t, op, r)]\<rparr>"
| spurious: "pcs m t = Waiting c op \<Longrightarrow> mon_step body m (m\<lparr>pcs := (pcs m)(t := Woken op)\<rparr>)"

definition mon_init :: "'s \<Rightarrow> ('s, 'o, 'r, 'c) monitor" where
  "mon_init s = \<lparr>shared = s, pcs = (\<lambda>t. Idle), returned = []\<rparr>"

definition mon_reach ::
  "('o \<Rightarrow> 's \<Rightarrow> ('s, 'r, 'c) segment) \<Rightarrow> 's \<Rightarrow> ('s, 'o, 'r, 'c) monitor \<Rightarrow> bool" where
  "mon_reach body s m \<longleftrightarrow> (mon_step body)\<^sup>*\<^sup>* (mon_init s) m"

lemma mon_reach_induct [consumes 1, case_names init step]:
  assumes "mon_reach body s m" "P (mon_init s)"
    and "\<And>m m'. mon_reach body s m \<Longrightarrow> P m \<Longrightarrow> mon_step body m m' \<Longrightarrow> P m'"
  shows "P m"
  using assms(1) unfolding mon_reach_def
proof (induction rule: rtranclp_induct)
  case (step m m')
  then show ?case using assms(3) unfolding mon_reach_def by blast
qed (rule assms(2))

lemma mon_reach_init: "mon_reach body s (mon_init s)"
  by (simp add: mon_reach_def)

lemma mon_reach_step: "mon_reach body s m \<Longrightarrow> mon_step body m m' \<Longrightarrow> mon_reach body s m'"
  unfolding mon_reach_def by (rule rtranclp.rtrancl_into_rtrancl)

text \<open>The steps of a thread, with the state they lead to as an equation.\<close>

lemma mon_reach_call: "mon_reach body s m \<Longrightarrow> pcs m t = Idle \<Longrightarrow> m' = m\<lparr>pcs := (pcs m)(t := Entering op)\<rparr> \<Longrightarrow>
    mon_reach body s m'"
  using mon_reach_step mon_step.call by metis

lemma mon_reach_wait: "mon_reach body s m \<Longrightarrow> at_gate (pcs m t) = Some op \<Longrightarrow> body op (shared m) = Wait c \<Longrightarrow>
    m' = m\<lparr>pcs := (pcs m)(t := Waiting c op)\<rparr> \<Longrightarrow> mon_reach body s m'"
  using mon_reach_step mon_step.wait by metis

lemma mon_reach_leave: "mon_reach body s m \<Longrightarrow> at_gate (pcs m t) = Some op \<Longrightarrow> body op (shared m) = Leave s' r n \<Longrightarrow>
    notified n ((pcs m)(t := Idle)) ps \<Longrightarrow>
    m' = \<lparr>shared = s', pcs = ps, returned = returned m @ [(t, op, r)]\<rparr> \<Longrightarrow> mon_reach body s m'"
  using mon_reach_step mon_step.leave by metis

text \<open>The log, run as a sequence of calls by one thread.\<close>

fun replay :: "('o \<Rightarrow> 's \<Rightarrow> ('s, 'r, 'c) segment) \<Rightarrow> (nat \<times> 'o \<times> 'r) list \<Rightarrow> 's \<Rightarrow> 's \<Rightarrow> bool" where
  "replay body [] s s' \<longleftrightarrow> s' = s"
| "replay body ((t, op, r) # log) s s' \<longleftrightarrow> (\<exists>s1 n. body op s = Leave s1 r n \<and> replay body log s1 s')"

lemma replay_append: "replay body (xs @ ys) s s' \<longleftrightarrow> (\<exists>s1. replay body xs s s1 \<and> replay body ys s1 s')"
proof (induction xs arbitrary: s)
  case (Cons x xs)
  obtain t op r where "x = (t, op, r)" by (cases x) auto
  with Cons show ?case by simp blast
qed simp

text \<open>Every interleaving behaves like its log in sequence.\<close>

lemma mon_linear: "mon_reach body s m \<Longrightarrow> replay body (returned m) s (shared m)"
proof (induction rule: mon_reach_induct)
  case (step m m')
  from step(2) show ?case
  proof cases
    case (leave t op s' r n ps)
    with step(3) show ?thesis unfolding leave(1) by (simp add: replay_append) blast
  qed (use step(3) in simp_all)
qed (simp add: mon_init_def)

subsection \<open>Threads that wait\<close>

definition waiters :: "'c \<Rightarrow> (nat \<Rightarrow> ('o, 'c) thread_pc) \<Rightarrow> nat set" where
  "waiters c ps = {t. \<exists>op. ps t = Waiting c op}"

definition woken :: "('o \<Rightarrow> 'c option) \<Rightarrow> 'c \<Rightarrow> (nat \<Rightarrow> ('o, 'c) thread_pc) \<Rightarrow> nat set" where
  "woken cond_of c ps = {t. \<exists>op. ps t = Woken op \<and> cond_of op = Some c}"

fun signals :: "'c notice \<Rightarrow> 'c \<Rightarrow> nat" where
  "signals (Notify c') c = (if c' = c then 1 else 0)"
| "signals n c = 0"

fun broadcasts :: "'c notice \<Rightarrow> 'c set" where
  "broadcasts (NotifyAll cs) = set cs"
| "broadcasts n = {}"

lemma notified_pc: "notified n ps ps' \<Longrightarrow>
    ps' t = ps t \<and> (\<forall>c op. ps t = Waiting c op \<longrightarrow> c \<notin> broadcasts n) \<or> (\<exists>c op. ps t = Waiting c op \<and> ps' t = Woken op)"
  by (cases n; cases "ps t") auto

lemma notified_waiting:
  assumes "notified n ps ps'" "ps' t = Waiting c op"
  shows "ps t = Waiting c op \<and> c \<notin> broadcasts n"
  using notified_pc [OF assms(1), of t] assms(2) by (auto dest: sym)

lemma waiters_notified: "notified n ps ps' \<Longrightarrow> waiters c ps' \<subseteq> waiters c ps"
  by (auto simp: waiters_def dest: notified_waiting)

lemma waiters_broadcast: "notified n ps ps' \<Longrightarrow> c \<in> broadcasts n \<Longrightarrow> waiters c ps' = {}"
  by (auto simp: waiters_def dest: notified_waiting)

lemma notified_idle:
  assumes "notified n ps ps'"
  shows "{t. ps' t \<noteq> Idle} = {t. ps t \<noteq> Idle}"
proof -
  have "ps' t = Idle \<longleftrightarrow> ps t = Idle" for t using notified_pc [OF assms, of t] by auto
  then show ?thesis by simp
qed

lemma woken_notified:
  assumes "notified n ps ps'" "finite {t. ps t \<noteq> Idle}" "waiters c ps \<noteq> {}"
    and "\<And>t c op. ps t = Waiting c op \<Longrightarrow> cond_of op = Some c"
  shows "card (woken cond_of c ps) + signals n c \<le> card (woken cond_of c ps')"
proof -
  have "finite {t. ps' t \<noteq> Idle}" unfolding notified_idle [OF assms(1)] by (rule assms(2))
  then have fin: "finite (woken cond_of c ps')" by (rule rev_finite_subset) (auto simp: woken_def)
  have sub: "woken cond_of c ps \<subseteq> woken cond_of c ps'"
  proof
    fix t
    assume "t \<in> woken cond_of c ps"
    then show "t \<in> woken cond_of c ps'" using notified_pc [OF assms(1), of t] by (auto simp: woken_def)
  qed
  show ?thesis
  proof (cases "signals n c = 0")
    case True
    then show ?thesis using card_mono [OF fin sub] by simp
  next
    case False
    then have n: "n = Notify c" by (cases n) (auto split: if_splits)
    with assms(1,3) obtain t op where t: "ps t = Waiting c op" "ps' = ps(t := Woken op)"
      by (auto simp: waiters_def)
    then have "woken cond_of c ps' = insert t (woken cond_of c ps)" "t \<notin> woken cond_of c ps"
      using assms(4) by (auto simp: woken_def)
    then show ?thesis using n fin by simp
  qed
qed

text \<open>
  What a class promises of its sections: an invariant of the shared state; \<open>avail c s\<close>, how
  many of the operations that wait on \<open>c\<close> could go on in \<open>s\<close>; \<open>free\<close>, the states in which no
  operation waits. A section that makes one more waiter able to go on notifies it, one that
  was itself woken for \<open>c\<close> uses up what it was woken for, and one that makes the state free
  broadcasts.
\<close>

locale monitor_contract =
  fixes body :: "'o \<Rightarrow> 's \<Rightarrow> ('s, 'r, 'c) segment"
    and I :: "'s \<Rightarrow> bool"
    and cond_of :: "'o \<Rightarrow> 'c option"
    and avail :: "'c \<Rightarrow> 's \<Rightarrow> nat"
    and free :: "'s \<Rightarrow> bool"
  assumes keeps: "I s \<Longrightarrow> body op s = Leave s' r n \<Longrightarrow> I s'"
    and no_fault: "I s \<Longrightarrow> body op s \<noteq> Fails e"
    and waits: "I s \<Longrightarrow> body op s = Wait c \<Longrightarrow> cond_of op = Some c \<and> avail c s = 0 \<and> \<not> free s"
    and gives: "I s \<Longrightarrow> \<not> free s \<Longrightarrow> \<not> free s' \<Longrightarrow> c \<notin> broadcasts n \<Longrightarrow> body op s = Leave s' r n \<Longrightarrow>
      avail c s' + (if cond_of op = Some c then 1 else 0) \<le> avail c s + signals n c"
    and opens: "I s \<Longrightarrow> \<not> free s \<Longrightarrow> free s' \<Longrightarrow> body op s = Leave s' r n \<Longrightarrow> cond_of op' = Some c \<Longrightarrow>
      c \<in> broadcasts n"
begin

definition mon_ok :: "('s, 'o, 'r, 'c) monitor \<Rightarrow> bool" where
  "mon_ok m \<longleftrightarrow> I (shared m) \<and> finite {t. pcs m t \<noteq> Idle} \<and>
     (\<forall>t c op. pcs m t = Waiting c op \<longrightarrow> cond_of op = Some c) \<and>
     (\<forall>c. waiters c (pcs m) \<noteq> {} \<longrightarrow>
        \<not> free (shared m) \<and> avail c (shared m) \<le> card (woken cond_of c (pcs m)))"

lemma mon_okD:
  assumes "mon_ok m"
  shows "I (shared m)" "finite {t. pcs m t \<noteq> Idle}" "\<And>t c op. pcs m t = Waiting c op \<Longrightarrow> cond_of op = Some c"
    "\<And>c. waiters c (pcs m) \<noteq> {} \<Longrightarrow> \<not> free (shared m)"
    "\<And>c. waiters c (pcs m) \<noteq> {} \<Longrightarrow> avail c (shared m) \<le> card (woken cond_of c (pcs m))"
  using assms by (auto simp: mon_ok_def)

lemma finite_woken: "mon_ok m \<Longrightarrow> finite (woken cond_of c (pcs m))"
  by (rule finite_subset [of _ "{t. pcs m t \<noteq> Idle}"]) (auto simp: woken_def dest: mon_okD(2))

lemma mon_ok_init: "I s \<Longrightarrow> mon_ok (mon_init s)"
  by (auto simp: mon_ok_def mon_init_def waiters_def)

lemma mon_ok_leave:
  assumes ok: "mon_ok m" and op: "at_gate (pcs m t) = Some op"
    and body: "body op (shared m) = Leave s' r n" and ps: "notified n ((pcs m)(t := Idle)) ps"
  shows "mon_ok \<lparr>shared = s', pcs = ps, returned = log\<rparr>"
proof -
  note D = mon_okD [OF ok]
  let ?ps = "(pcs m)(t := Idle)"
  have fin: "finite {u. ?ps u \<noteq> Idle}" by (rule finite_subset [OF _ D(2)]) auto
  have cond: "cond_of op' = Some c" if "?ps u = Waiting c op'" for u c op'
    using that D(3) by (auto split: if_splits)
  have main: "\<not> free s' \<and> avail c s' \<le> card (woken cond_of c ps)" if w: "waiters c ps \<noteq> {}" for c
  proof -
    have w1: "waiters c ?ps \<noteq> {}" using w waiters_notified [OF ps] by blast
    then have w2: "waiters c (pcs m) \<noteq> {}" by (auto simp: waiters_def split: if_splits)
    have nb: "c \<notin> broadcasts n" using waiters_broadcast [OF ps] w by blast
    from w1 obtain u op' where "?ps u = Waiting c op'" by (auto simp: waiters_def)
    with cond have "cond_of op' = Some c" by blast
    with opens [OF D(1) D(4) [OF w2] _ body] nb have free': "\<not> free s'" by blast
    have "card (woken cond_of c (pcs m)) \<le>
        card (woken cond_of c ?ps) + (if cond_of op = Some c then 1 else 0)"
    proof (cases "t \<in> woken cond_of c (pcs m)")
      case True
      then have "cond_of op = Some c" using op by (auto simp: woken_def)
      moreover have "woken cond_of c ?ps = woken cond_of c (pcs m) - {t}" by (auto simp: woken_def)
      ultimately show ?thesis using finite_woken [OF ok, of c] True by (simp add: card_Diff_singleton)
    next
      case False
      then have "woken cond_of c ?ps = woken cond_of c (pcs m)" by (auto simp: woken_def)
      then show ?thesis by simp
    qed
    moreover have "card (woken cond_of c ?ps) + signals n c \<le> card (woken cond_of c ps)"
      by (rule woken_notified [OF ps fin w1]) (rule cond)
    moreover note gives [OF D(1) D(4) [OF w2] free' nb body] D(5) [OF w2]
    ultimately show ?thesis using free' by simp
  qed
  have "finite {u. ps u \<noteq> Idle}" using fin notified_idle [OF ps] by simp
  moreover have "\<forall>u c op'. ps u = Waiting c op' \<longrightarrow> cond_of op' = Some c"
    using notified_waiting [OF ps] cond by blast
  ultimately show ?thesis using keeps [OF D(1) body] main by (simp add: mon_ok_def)
qed

lemma mon_ok_step:
  assumes "mon_step body m m'" "mon_ok m"
  shows "mon_ok m'"
  using assms(1)
proof cases
  case (call t op)
  have "waiters c ((pcs m)(t := Entering op)) = waiters c (pcs m)"
    "woken cond_of c ((pcs m)(t := Entering op)) = woken cond_of c (pcs m)" for c
    using call(2) by (auto simp: waiters_def woken_def)
  moreover have "{u. ((pcs m)(t := Entering op)) u \<noteq> Idle} = insert t {u. pcs m u \<noteq> Idle}" by auto
  ultimately show ?thesis using assms(2) call(1) by (auto simp: mon_ok_def)
next
  case (wait t op c)
  note D = mon_okD [OF assms(2)]
  let ?ps = "(pcs m)(t := Waiting c op)"
  have c: "cond_of op = Some c" "avail c (shared m) = 0" "\<not> free (shared m)"
    using waits [OF D(1) wait(3)] by auto
  have "{u. ?ps u \<noteq> Idle} \<subseteq> insert t {u. pcs m u \<noteq> Idle}" by auto
  then have "finite {u. ?ps u \<noteq> Idle}" using D(2) by (rule finite_subset [OF _ finite.insertI])
  moreover have "avail d (shared m) \<le> card (woken cond_of d ?ps)" if "waiters d ?ps \<noteq> {}" for d
  proof (cases "d = c")
    case False
    then have "waiters d (pcs m) \<noteq> {}" using that by (auto simp: waiters_def split: if_splits)
    moreover have "woken cond_of d ?ps = woken cond_of d (pcs m)"
      using False c(1) wait(2) by (auto simp: woken_def)
    ultimately show ?thesis using D(5) by simp
  qed (simp add: c(2))
  ultimately show ?thesis using wait(1) D(1,3) c by (auto simp: mon_ok_def)
next
  case (leave t op s' r n ps)
  then show ?thesis using mon_ok_leave [OF assms(2)] by blast
next
  case (spurious t c op)
  note D = mon_okD [OF assms(2)]
  let ?ps = "(pcs m)(t := Woken op)"
  have "{u. ?ps u \<noteq> Idle} = {u. pcs m u \<noteq> Idle}" using spurious(2) by auto
  moreover have "\<not> free (shared m) \<and> avail d (shared m) \<le> card (woken cond_of d ?ps)" if "waiters d ?ps \<noteq> {}" for d
  proof -
    have w: "waiters d (pcs m) \<noteq> {}" using that by (auto simp: waiters_def split: if_splits)
    have "finite (insert t (woken cond_of d (pcs m)))" using finite_woken [OF assms(2)] by simp
    then have "finite (woken cond_of d ?ps)" by (rule rev_finite_subset) (auto simp: woken_def split: if_splits)
    moreover have "woken cond_of d (pcs m) \<subseteq> woken cond_of d ?ps" using spurious(2) by (auto simp: woken_def)
    ultimately show ?thesis using D(4,5) [OF w] card_mono by (meson order_trans)
  qed
  ultimately show ?thesis using spurious(1,2) D(1,2,3) by (auto simp: mon_ok_def)
qed

lemma mon_reach_ok: "mon_reach body s m \<Longrightarrow> I s \<Longrightarrow> mon_ok m"
  by (induction rule: mon_reach_induct) (auto intro: mon_ok_init mon_ok_step)

text \<open>No wake-up is lost: when operations that wait on \<open>c\<close> could go on, one of them has
  been woken and its section does go on.\<close>

lemma not_stuck:
  assumes "mon_reach body s m" "I s" "pcs m t = Waiting c op" "0 < avail c (shared m)"
  shows "\<not> free (shared m) \<and>
    (\<exists>u op' s' r n. pcs m u = Woken op' \<and> cond_of op' = Some c \<and> body op' (shared m) = Leave s' r n)"
proof -
  note ok = mon_reach_ok [OF assms(1,2)]
  note D = mon_okD [OF ok]
  have w: "waiters c (pcs m) \<noteq> {}" using assms(3) by (auto simp: waiters_def)
  with D(5) [OF w] assms(4) have "card (woken cond_of c (pcs m)) \<noteq> 0" by linarith
  then have "woken cond_of c (pcs m) \<noteq> {}" by auto
  then obtain u op' where u: "pcs m u = Woken op'" "cond_of op' = Some c" by (auto simp: woken_def)
  then have "body op' (shared m) \<noteq> Wait d" for d using waits [OF D(1), of op' d] assms(4) by auto
  with no_fault [OF D(1)] obtain s' r n where "body op' (shared m) = Leave s' r n"
    by (cases "body op' (shared m)") auto
  with u D(4) [OF w] show ?thesis by blast
qed

lemma free_nobody_waits: "mon_reach body s m \<Longrightarrow> I s \<Longrightarrow> free (shared m) \<Longrightarrow> pcs m t \<noteq> Waiting c op"
  using mon_reach_ok mon_okD(4) by (fastforce simp: waiters_def)

lemma mon_inv: "mon_reach body s m \<Longrightarrow> I s \<Longrightarrow> I (shared m)"
  using mon_reach_ok mon_okD(1) by blast

end

end
