(* ===== verification/BlockingQueue.thy ===== *)
theory BlockingQueue
  imports Monitor
begin

section \<open>\<open>base/BlockingQueue\<close>, \<open>base/CountDownLatch\<close>\<close>

text \<open>
  Each operation is a section of the monitor: its waiting predicate, then its body. The
  two \<open>Push\<close> overloads differ in copying or moving the element and have one model.
\<close>

subsection \<open>The queue\<close>

record 'a bqueue =
  bq_queue :: "'a list"
  maxsize :: nat
  wakeup :: bool

definition new_queue :: "nat \<Rightarrow> 'a bqueue" where
  "new_queue n = \<lparr>bq_queue = [], maxsize = n, wakeup = False\<rparr>"

datatype 'a bq_op = Push 'a | Pop | Size | WakeUp | Restore

datatype bq_cond = not_empty | not_full

text \<open>\<open>Pop\<close> returns \<open>T()\<close>, here \<open>None\<close>, after a wake-up; \<open>Pushed\<close> tells whether the element was
  stored, which the code does not report.\<close>

datatype 'a bq_ret = Unit | Pushed bool | Popped "'a option" | Count nat

definition not_full_pred :: "'a bqueue \<Rightarrow> bool" where
  "not_full_pred q \<longleftrightarrow> (if wakeup q then True else if maxsize q = 0 \<or> length (bq_queue q) < maxsize q then True else False)"

definition not_empty_pred :: "'a bqueue \<Rightarrow> bool" where
  "not_empty_pred q \<longleftrightarrow> (if wakeup q then True else bq_queue q \<noteq> [])"

definition bq_push :: "'a \<Rightarrow> 'a bqueue \<Rightarrow> ('a bqueue, 'a bq_ret, bq_cond) segment" where
  "bq_push x q =
     (if \<not> not_full_pred q then Wait not_full
      else if wakeup q then Leave q (Pushed False) No_notice
      else if \<not> (maxsize q = 0 \<or> length (bq_queue q) < maxsize q) then Fails Assertion_failed
      else Leave (q\<lparr>bq_queue := bq_queue q @ [x]\<rparr>) (Pushed True) (Notify not_empty))"

definition bq_pop :: "'a bqueue \<Rightarrow> ('a bqueue, 'a bq_ret, bq_cond) segment" where
  "bq_pop q =
     (if \<not> not_empty_pred q then Wait not_empty
      else if wakeup q then Leave q (Popped None) No_notice
      else case bq_queue q of
          [] \<Rightarrow> Fails Assertion_failed
        | x # xs \<Rightarrow> Leave (q\<lparr>bq_queue := xs\<rparr>) (Popped (Some x)) (Notify not_full))"

fun bq_body :: "'a bq_op \<Rightarrow> 'a bqueue \<Rightarrow> ('a bqueue, 'a bq_ret, bq_cond) segment" where
  "bq_body (Push x) q = bq_push x q"
| "bq_body Pop q = bq_pop q"
| "bq_body Size q = Leave q (Count (length (bq_queue q))) No_notice"
| "bq_body WakeUp q = Leave (q\<lparr>wakeup := True\<rparr>) Unit (NotifyAll [not_empty, not_full])"
| "bq_body Restore q = Leave (q\<lparr>wakeup := False\<rparr>) Unit No_notice"

text \<open>\<open>set_maxsize\<close> takes no lock and notifies nobody.\<close>

definition set_maxsize :: "nat \<Rightarrow> ('a bqueue, 'o, 'r, 'c) monitor \<Rightarrow> ('a bqueue, 'o, 'r, 'c) monitor" where
  "set_maxsize n m = m\<lparr>shared := (shared m)\<lparr>maxsize := n\<rparr>\<rparr>"

subsection \<open>The queue keeps the contract of a monitor\<close>

definition bq_inv :: "nat \<Rightarrow> 'a bqueue \<Rightarrow> bool" where
  "bq_inv n q \<longleftrightarrow> maxsize q = n \<and> (n = 0 \<or> length (bq_queue q) \<le> n)"

fun bq_cond_of :: "nat \<Rightarrow> 'a bq_op \<Rightarrow> bq_cond option" where
  "bq_cond_of n (Push x) = (if n = 0 then None else Some not_full)"
| "bq_cond_of n Pop = Some not_empty"
| "bq_cond_of n op = None"

fun bq_avail :: "bq_cond \<Rightarrow> 'a bqueue \<Rightarrow> nat" where
  "bq_avail not_empty q = length (bq_queue q)"
| "bq_avail not_full q = maxsize q - length (bq_queue q)"

lemmas bq_defs = bq_push_def bq_pop_def not_full_pred_def not_empty_pred_def bq_inv_def

lemma bq_gives:
  assumes "bq_inv n q" "\<not> wakeup q" "\<not> wakeup q'" "c \<notin> broadcasts k" "bq_body op q = Leave q' r k"
  shows "bq_avail c q' + (if bq_cond_of n op = Some c then 1 else 0) \<le> bq_avail c q + signals k c"
  using assms by (cases op; cases c) (auto simp: bq_defs split: if_splits list.splits)

interpretation bq: monitor_contract bq_body "bq_inv n" "bq_cond_of n" bq_avail wakeup for n
proof (unfold_locales, goal_cases)
  case (1 s op s' r k)
  then show ?case by (cases op) (auto simp: bq_defs split: if_splits list.splits)
next
  case (2 s op e)
  then show ?case by (cases op) (auto simp: bq_defs split: list.splits)
next
  case (3 s op c)
  then show ?case by (cases op) (auto simp: bq_defs split: if_splits list.splits)
next
  case (4 s s' c k op r)
  then show ?case by (rule bq_gives)
next
  case (5 s s' op r k op' c)
  then show ?case by (cases op; cases c) (auto simp: bq_defs split: if_splits list.splits)
qed

lemma bq_inv_new: "bq_inv n (new_queue n)"
  by (simp add: bq_inv_def new_queue_def)

lemma bq_body_Leave_Pop:
  assumes "bq_body op q = Leave q' r k" "bq_cond_of n op = Some not_empty" "\<not> wakeup q"
  shows "\<exists>x. op = Pop \<and> bq_queue q = x # bq_queue q' \<and> r = Popped (Some x)"
  using assms by (cases op) (auto simp: bq_defs split: if_splits list.splits)

lemma bq_body_Leave_Push:
  assumes "bq_body op q = Leave q' r k" "bq_cond_of n op = Some not_full" "\<not> wakeup q"
  shows "\<exists>x. op = Push x \<and> bq_queue q' = bq_queue q @ [x] \<and> r = Pushed True"
  using assms by (cases op) (auto simp: bq_defs split: if_splits list.splits)

subsection \<open>First in, first out\<close>

fun log_pushed :: "(nat \<times> 'a bq_op \<times> 'a bq_ret) list \<Rightarrow> 'a list" where
  "log_pushed [] = []"
| "log_pushed ((t, Push x, Pushed True) # log) = x # log_pushed log"
| "log_pushed (e # log) = log_pushed log"

fun log_popped :: "(nat \<times> 'a bq_op \<times> 'a bq_ret) list \<Rightarrow> 'a list" where
  "log_popped [] = []"
| "log_popped ((t, op, Popped (Some x)) # log) = x # log_popped log"
| "log_popped (e # log) = log_popped log"

lemma replay_fifo: "replay bq_body log q q' \<Longrightarrow> bq_queue q @ log_pushed log = log_popped log @ bq_queue q'"
proof (induction log arbitrary: q)
  case (Cons e log)
  obtain t op r where e: "e = (t, op, r)" by (cases e) auto
  with Cons.prems obtain q1 k where q1: "bq_body op q = Leave q1 r k" "replay bq_body log q1 q'" by auto
  have "bq_queue q @ log_pushed (e # log) = log_popped [e] @ bq_queue q1 @ log_pushed log"
    using q1(1) unfolding e by (cases op) (auto simp: bq_defs split: if_splits list.splits)
  moreover have "log_popped (e # log) = log_popped [e] @ log_popped log"
    unfolding e by (cases "(t, op, r) # log" rule: log_popped.cases) auto
  ultimately show ?case using Cons.IH [OF q1(2)] by simp
qed simp

text \<open>A pusher waits on a full queue; raising the limit makes room that nobody is told of.\<close>

definition full_monitor :: "(nat bqueue, nat bq_op, nat bq_ret, bq_cond) monitor" where
  "full_monitor = \<lparr>shared = \<lparr>bq_queue = [7], maxsize = 1, wakeup = False\<rparr>,
     pcs = (\<lambda>t. if t = 1 then Waiting not_full (Push 8) else Idle), returned = [(0, Push 7, Pushed True)]\<rparr>"

lemma full_monitor_reach: "mon_reach bq_body (new_queue 1) full_monitor"
proof -
  let ?q = "\<lparr>bq_queue = [7], maxsize = 1, wakeup = False\<rparr> :: nat bqueue"
  let ?log = "[(0, Push 7, Pushed True)] :: (nat \<times> nat bq_op \<times> nat bq_ret) list"
  have "mon_reach bq_body (new_queue 1) \<lparr>shared = new_queue 1, pcs = (\<lambda>t. Idle)(0 := Entering (Push (7 :: nat))), returned = []\<rparr>"
    by (rule mon_reach_call [OF mon_reach_init, of _ 0]) (simp_all add: mon_init_def)
  then have "mon_reach bq_body (new_queue 1) \<lparr>shared = ?q, pcs = (\<lambda>t. Idle), returned = ?log\<rparr>"
    by (rule mon_reach_leave [where t = 0 and ps = "\<lambda>t. Idle" and n = "Notify not_empty"])
      (auto simp: bq_defs new_queue_def)
  then have "mon_reach bq_body (new_queue 1) \<lparr>shared = ?q, pcs = (\<lambda>t. Idle)(1 := Entering (Push 8)), returned = ?log\<rparr>"
    by (rule mon_reach_call [where t = 1]) simp_all
  then show ?thesis
    by (rule mon_reach_wait [where t = 1]) (auto simp: bq_defs full_monitor_def)
qed

lemma set_maxsize_strands_pusher:
  "mon_reach bq_body (new_queue 1) full_monitor \<and>
   (let m = set_maxsize 2 full_monitor in
      length (bq_queue (shared m)) < maxsize (shared m) \<and> pcs m 1 = Waiting not_full (Push 8) \<and>
      (\<forall>t op. pcs m t \<noteq> Woken op))"
  using full_monitor_reach by (simp add: set_maxsize_def full_monitor_def)

subsection \<open>The latch\<close>

datatype latch_op = CountDown | Wait_latch

fun latch_body :: "latch_op \<Rightarrow> int \<Rightarrow> (int, unit, unit) segment" where
  "latch_body Wait_latch count = (if count \<le> 0 then Leave count () No_notice else Wait ())"
| "latch_body CountDown count =
     (let count = count - 1 in Leave count () (if count = 0 then NotifyAll [()] else No_notice))"

fun latch_cond_of :: "latch_op \<Rightarrow> unit option" where
  "latch_cond_of Wait_latch = Some ()"
| "latch_cond_of CountDown = None"

interpretation latch: monitor_contract latch_body "\<lambda>s. True" latch_cond_of "\<lambda>c s. 0" "\<lambda>count. count \<le> 0"
proof (unfold_locales, goal_cases)
  case (2 s op e)
  then show ?case by (cases op) (auto simp: Let_def)
next
  case (3 s op c)
  then show ?case by (cases op) (auto simp: Let_def split: if_splits)
next
  case (4 s s' c k op r)
  then show ?case by (cases op) (auto simp: Let_def split: if_splits)
next
  case (5 s s' op r k op' c)
  then show ?case by (cases op) (auto simp: Let_def split: if_splits)
qed

definition countdowns :: "(nat \<times> latch_op \<times> unit) list \<Rightarrow> nat" where
  "countdowns log = length (filter (\<lambda>(t, op, r). op = CountDown) log)"

lemma replay_latch: "replay latch_body log n n' \<Longrightarrow> n' = n - int (countdowns log)"
proof (induction log arbitrary: n)
  case (Cons e log)
  obtain t op r where e: "e = (t, op, r)" by (cases e) auto
  with Cons.prems Cons.IH [of "n - 1"] Cons.IH [of n] show ?case
    by (cases op) (auto simp: countdowns_def Let_def split: if_splits)
qed (simp add: countdowns_def)

subsection \<open>Properties\<close>

text \<open>
  C22: No wake-up of the queue is lost. In every state the threads can reach, while a
  \<open>Pop\<close> waits and the queue holds an element, some woken \<open>Pop\<close> takes the first element when it
  runs; while a \<open>Push\<close> waits and there is room, some woken \<open>Push\<close> stores its element.
\<close>

theorem queue_no_lost_wakeup:
  assumes "mon_reach bq_body (new_queue n) m" "pcs m t = Waiting c op"
  shows "(c = not_empty \<longrightarrow> bq_queue (shared m) \<noteq> [] \<longrightarrow>
      (\<exists>u q k. pcs m u = Woken Pop \<and> bq_body Pop (shared m) = Leave q (Popped (Some (hd (bq_queue (shared m))))) k)) \<and>
    (c = not_full \<longrightarrow> length (bq_queue (shared m)) < maxsize (shared m) \<longrightarrow>
      (\<exists>u x q k. pcs m u = Woken (Push x) \<and> bq_body (Push x) (shared m) = Leave q (Pushed True) k))"
proof (intro conjI impI)
  assume c: "c = not_empty" "bq_queue (shared m) \<noteq> []"
  with bq.not_stuck [OF assms(1) bq_inv_new assms(2)] obtain u op' q r k where
    u: "pcs m u = Woken op'" "bq_cond_of n op' = Some not_empty" "bq_body op' (shared m) = Leave q r k"
      "\<not> wakeup (shared m)"
    by auto
  from bq_body_Leave_Pop [OF u(3,2,4)] u(1,3)
  show "\<exists>u q k. pcs m u = Woken Pop \<and> bq_body Pop (shared m) = Leave q (Popped (Some (hd (bq_queue (shared m))))) k"
    by fastforce
next
  assume c: "c = not_full" "length (bq_queue (shared m)) < maxsize (shared m)"
  with bq.not_stuck [OF assms(1) bq_inv_new assms(2)] obtain u op' q r k where
    u: "pcs m u = Woken op'" "bq_cond_of n op' = Some not_full" "bq_body op' (shared m) = Leave q r k"
      "\<not> wakeup (shared m)"
    by auto
  from bq_body_Leave_Push [OF u(3,2,4)] u(1,3)
  show "\<exists>u x q k. pcs m u = Woken (Push x) \<and> bq_body (Push x) (shared m) = Leave q (Pushed True) k"
    by blast
qed

text \<open>Two threads wait in \<open>Pop\<close>; a third has pushed an element and woken one of them.\<close>

definition pop_waits :: "(nat bqueue, nat bq_op, nat bq_ret, bq_cond) monitor" where
  "pop_waits = \<lparr>shared = \<lparr>bq_queue = [7], maxsize = 1, wakeup = False\<rparr>,
     pcs = (\<lambda>t. if t = 1 then Waiting not_empty Pop else if t = 2 then Woken Pop else Idle),
     returned = [(0, Push 7, Pushed True)]\<rparr>"

lemma pop_waits_reach: "mon_reach bq_body (new_queue 1) pop_waits"
proof -
  let ?q = "new_queue 1 :: nat bqueue"
  let ?w = "(\<lambda>t. Idle)(1 := Waiting not_empty Pop) :: nat \<Rightarrow> (nat bq_op, bq_cond) thread_pc"
  have "mon_reach bq_body ?q \<lparr>shared = ?q, pcs = (\<lambda>t. Idle)(1 := Entering Pop), returned = []\<rparr>"
    by (rule mon_reach_call [OF mon_reach_init, of _ 1]) (simp_all add: mon_init_def)
  then have "mon_reach bq_body ?q \<lparr>shared = ?q, pcs = ?w, returned = []\<rparr>"
    by (rule mon_reach_wait [where t = 1]) (auto simp: bq_defs new_queue_def)
  then have "mon_reach bq_body ?q \<lparr>shared = ?q, pcs = ?w(2 := Entering Pop), returned = []\<rparr>"
    by (rule mon_reach_call [where t = 2]) simp_all
  then have "mon_reach bq_body ?q \<lparr>shared = ?q, pcs = ?w(2 := Waiting not_empty Pop), returned = []\<rparr>"
    by (rule mon_reach_wait [where t = 2]) (auto simp: bq_defs new_queue_def)
  then have "mon_reach bq_body ?q \<lparr>shared = ?q, pcs = ?w(2 := Waiting not_empty Pop, 0 := Entering (Push 7)), returned = []\<rparr>"
    by (rule mon_reach_call [where t = 0]) simp_all
  then show ?thesis
    by (rule mon_reach_leave [where t = 0 and n = "Notify not_empty" and ps = "?w(2 := Woken Pop)"])
      (auto simp: bq_defs new_queue_def pop_waits_def intro!: exI [of _ 2])
qed

theorem queue_no_lost_wakeup_witness:
  "\<exists>u q k. pcs pop_waits u = Woken Pop \<and> bq_body Pop (shared pop_waits) = Leave q (Popped (Some 7)) k"
proof -
  have "pcs pop_waits 1 = Waiting not_empty Pop" "bq_queue (shared pop_waits) = [7]" by (simp_all add: pop_waits_def)
  with queue_no_lost_wakeup [OF pop_waits_reach this(1)] show ?thesis by auto
qed

text \<open>
  C23: The queue is first-in first-out under every interleaving: what was popped, followed
  by what is in the queue, is what was pushed, in the order the sections ran. A bounded
  queue never holds more than its bound, and no \<open>assert\<close> of an operation fails.
\<close>

theorem queue_fifo_bounded:
  assumes "mon_reach bq_body (new_queue n) m"
  shows "log_popped (returned m) @ bq_queue (shared m) = log_pushed (returned m) \<and>
    (n = 0 \<or> length (bq_queue (shared m)) \<le> n) \<and> bq_body op (shared m) \<noteq> Fails e"
proof -
  have "bq_inv n (shared m)" by (rule bq.mon_inv [OF assms bq_inv_new])
  moreover from replay_fifo [OF mon_linear [OF assms]]
  have "log_pushed (returned m) = log_popped (returned m) @ bq_queue (shared m)" by (simp add: new_queue_def)
  ultimately show ?thesis using bq.no_fault by (auto simp: bq_inv_def)
qed

theorem queue_fifo_bounded_witness:
  "bq_queue (shared full_monitor) = log_pushed (returned full_monitor) \<and> length (bq_queue (shared full_monitor)) \<le> 1"
proof -
  have "log_popped (returned full_monitor) = []" by (simp add: full_monitor_def)
  with queue_fifo_bounded [OF full_monitor_reach, of Pop Undefined] show ?thesis by auto
qed

text \<open>
  A latch lets its waiters go exactly when it should. \<open>Wait\<close> returns only after as many
  count-downs as the latch was made with, and once they have happened no thread waits,
  whatever the order of the threads.
\<close>

lemma latch_releases:
  assumes "mon_reach latch_body (int n) m"
  shows "(\<forall>xs t r ys. returned m = xs @ (t, Wait_latch, r) # ys \<longrightarrow> n \<le> countdowns xs) \<and>
    (n \<le> countdowns (returned m) \<longrightarrow> (\<forall>t c op. pcs m t \<noteq> Waiting c op))"
proof (intro conjI allI impI)
  fix xs t r ys
  assume log: "returned m = xs @ (t, Wait_latch, r) # ys"
  from mon_linear [OF assms] obtain k where k: "replay latch_body xs (int n) k" "k \<le> 0"
    unfolding log by (auto simp: replay_append split: if_splits)
  from replay_latch [OF k(1)] k(2) show "n \<le> countdowns xs" by simp
next
  fix t c op
  assume "n \<le> countdowns (returned m)"
  with replay_latch [OF mon_linear [OF assms]] have "shared m \<le> 0" by simp
  then show "pcs m t \<noteq> Waiting c op" by (rule latch.free_nobody_waits [OF assms TrueI])
qed

end
