(* ===== verification/Mutex.thy ===== *)
theory Mutex
  imports BlockingQueue
begin

section \<open>Threads that lock: why a section runs alone\<close>

text \<open>
  The theory \<open>Monitor\<close> takes an operation for one step. Here it is what the code does: a
  thread takes the mutex (\<open>LockGuard\<close>), reads the shared state, works on what it read, and
  either waits, which gives the mutex up, or writes the state back, notifies and unlocks;
  other threads run between any two of these steps. The result is that every such run is a
  run of \<open>Monitor\<close>.
\<close>

subsection \<open>The mutex\<close>

text \<open>A mutex is its holder. \<open>None\<close> as a result: the call does not return yet.\<close>

type_synonym mutex = "nat option"

definition mutex_Lock :: "nat \<Rightarrow> mutex \<Rightarrow> mutex option" where
  "mutex_Lock t m = (if m = None then Some (Some t) else None)"

definition mutex_TryLock :: "nat \<Rightarrow> mutex \<Rightarrow> bool \<times> mutex" where
  "mutex_TryLock t m = (if m = None then (True, Some t) else (False, m))"

definition mutex_TimedLock :: "bool \<Rightarrow> nat \<Rightarrow> mutex \<Rightarrow> (bool \<times> mutex) option" where
  "mutex_TimedLock expired t m =
     (if m = None then Some (True, Some t) else if expired then Some (False, m) else None)"

text \<open>Unlocking a mutex one does not hold is undefined.\<close>

definition mutex_Unlock :: "nat \<Rightarrow> mutex \<Rightarrow> mutex res" where
  "mutex_Unlock t m = (if m = Some t then Inr None else Inl Undefined)"

subsection \<open>Threads\<close>

text \<open>The flag of a thread inside tells whether it has waited before.\<close>

datatype ('o, 's, 'c) lock_pc =
    Outside
  | Locking 'o
  | Inside bool 'o
  | Working bool 'o 's
  | In_wait 'c 'o
  | Relocking 'o
  | Unlocking

record ('s, 'o, 'r, 'c) locked =
  lk_shared :: 's
  lk_mutex :: mutex
  lk_pcs :: "nat \<Rightarrow> ('o, 's, 'c) lock_pc"
  lk_returned :: "(nat \<times> 'o \<times> 'r) list"

text \<open>\<open>pthread_cond_signal\<close> and \<open>pthread_cond_broadcast\<close>: a blocked thread asks for the mutex again.\<close>

fun cond_notified :: "'c notice \<Rightarrow> (nat \<Rightarrow> ('o, 's, 'c) lock_pc) \<Rightarrow> (nat \<Rightarrow> ('o, 's, 'c) lock_pc) \<Rightarrow> bool" where
  "cond_notified No_notice ps ps' \<longleftrightarrow> ps' = ps"
| "cond_notified (Notify c) ps ps' \<longleftrightarrow>
     (\<exists>t op. ps t = In_wait c op \<and> ps' = ps(t := Relocking op)) \<or> (\<forall>t op. ps t \<noteq> In_wait c op) \<and> ps' = ps"
| "cond_notified (NotifyAll cs) ps ps' \<longleftrightarrow>
     ps' = (\<lambda>t. case ps t of In_wait c op \<Rightarrow> if c \<in> set cs then Relocking op else ps t | _ \<Rightarrow> ps t)"

definition locked_init :: "'s \<Rightarrow> ('s, 'o, 'r, 'c) locked" where
  "locked_init s = \<lparr>lk_shared = s, lk_mutex = None, lk_pcs = (\<lambda>t. Outside), lk_returned = []\<rparr>"

inductive lk_step ::
  "('o \<Rightarrow> 's \<Rightarrow> ('s, 'r, 'c) segment) \<Rightarrow> ('s, 'o, 'r, 'c) locked \<Rightarrow> ('s, 'o, 'r, 'c) locked \<Rightarrow> bool"
  for body where
  call: "lk_pcs k t = Outside \<Longrightarrow> lk_step body k (k\<lparr>lk_pcs := (lk_pcs k)(t := Locking op)\<rparr>)"
| lock: "lk_pcs k t = Locking op \<Longrightarrow> mutex_Lock t (lk_mutex k) = Some m \<Longrightarrow>
    lk_step body k (k\<lparr>lk_mutex := m, lk_pcs := (lk_pcs k)(t := Inside False op)\<rparr>)"
| relock: "lk_pcs k t = Relocking op \<Longrightarrow> mutex_Lock t (lk_mutex k) = Some m \<Longrightarrow>
    lk_step body k (k\<lparr>lk_mutex := m, lk_pcs := (lk_pcs k)(t := Inside True op)\<rparr>)"
| read: "lk_pcs k t = Inside w op \<Longrightarrow>
    lk_step body k (k\<lparr>lk_pcs := (lk_pcs k)(t := Working w op (lk_shared k))\<rparr>)"
| wait: "lk_pcs k t = Working w op s \<Longrightarrow> body op s = Wait c \<Longrightarrow> mutex_Unlock t (lk_mutex k) = Inr m \<Longrightarrow>
    lk_step body k (k\<lparr>lk_mutex := m, lk_pcs := (lk_pcs k)(t := In_wait c op)\<rparr>)"
| leave: "lk_pcs k t = Working w op s \<Longrightarrow> body op s = Leave s' r n \<Longrightarrow>
    cond_notified n ((lk_pcs k)(t := Unlocking)) ps \<Longrightarrow>
    lk_step body k (k\<lparr>lk_shared := s', lk_pcs := ps, lk_returned := lk_returned k @ [(t, op, r)]\<rparr>)"
| unlock: "lk_pcs k t = Unlocking \<Longrightarrow> mutex_Unlock t (lk_mutex k) = Inr m \<Longrightarrow>
    lk_step body k (k\<lparr>lk_mutex := m, lk_pcs := (lk_pcs k)(t := Outside)\<rparr>)"
| spurious: "lk_pcs k t = In_wait c op \<Longrightarrow> lk_step body k (k\<lparr>lk_pcs := (lk_pcs k)(t := Relocking op)\<rparr>)"

definition lk_reach ::
  "('o \<Rightarrow> 's \<Rightarrow> ('s, 'r, 'c) segment) \<Rightarrow> 's \<Rightarrow> ('s, 'o, 'r, 'c) locked \<Rightarrow> bool" where
  "lk_reach body s k \<longleftrightarrow> (lk_step body)\<^sup>*\<^sup>* (locked_init s) k"

subsection \<open>Mutual exclusion\<close>

fun holds :: "('o, 's, 'c) lock_pc \<Rightarrow> bool" where
  "holds (Inside w op) \<longleftrightarrow> True"
| "holds (Working w op s) \<longleftrightarrow> True"
| "holds Unlocking \<longleftrightarrow> True"
| "holds pc \<longleftrightarrow> False"

text \<open>Just the holder is between lock and unlock, and what it read is still the state.\<close>

definition lk_inv :: "('s, 'o, 'r, 'c) locked \<Rightarrow> bool" where
  "lk_inv k \<longleftrightarrow> (\<forall>t. holds (lk_pcs k t) \<longleftrightarrow> lk_mutex k = Some t) \<and>
     (\<forall>t w op s. lk_pcs k t = Working w op s \<longrightarrow> s = lk_shared k)"

lemma cond_notified_pc: "cond_notified n ps ps' \<Longrightarrow>
    ps' t = ps t \<or> (\<exists>c op. ps t = In_wait c op \<and> ps' t = Relocking op)"
  by (cases n; cases "ps t") auto

lemma lk_inv_step:
  assumes "lk_step body k k'" "lk_inv k"
  shows "lk_inv k'"
  using assms(1)
proof cases
  case (leave t w op s s' r n ps)
  let ?ps = "(lk_pcs k)(t := Unlocking)"
  have t: "lk_mutex k = Some t" using assms(2) leave(2) by (auto simp: lk_inv_def dest: spec [of _ t])
  have h: "holds (ps u) \<longleftrightarrow> holds (?ps u)" for u using cond_notified_pc [OF leave(4), of u] by auto
  have "ps u \<noteq> Working v op' x" for u v op' x
  proof (cases "u = t")
    case False
    then have "\<not> holds (ps u)" using assms(2) t h by (auto simp: lk_inv_def)
    then show ?thesis by auto
  qed (use cond_notified_pc [OF leave(4), of t] in auto)
  moreover have "holds (?ps u) \<longleftrightarrow> lk_mutex k = Some u" for u using assms(2) t by (auto simp: lk_inv_def)
  ultimately show ?thesis using leave(1) by (simp add: lk_inv_def h)
next
  case (call t op)
  then have "\<not> holds (lk_pcs k t)" by simp
  then have "lk_mutex k \<noteq> Some t" using assms(2) by (simp add: lk_inv_def)
  with call assms(2) show ?thesis by (simp add: lk_inv_def)
next
  case (spurious t c op)
  then have "\<not> holds (lk_pcs k t)" by simp
  then have "lk_mutex k \<noteq> Some t" using assms(2) by (simp add: lk_inv_def)
  with spurious assms(2) show ?thesis by (simp add: lk_inv_def)
next
  case (wait t w op s c m)
  have "lk_mutex k = Some t" "m = None" using wait(4) by (auto simp: mutex_Unlock_def split: if_splits)
  with wait(1) assms(2) show ?thesis by (simp add: lk_inv_def)
qed (use assms(2) in \<open>auto simp: lk_inv_def mutex_Lock_def mutex_Unlock_def split: if_splits\<close>)

lemma lk_reach_inv: "lk_reach body s k \<Longrightarrow> lk_inv k"
  unfolding lk_reach_def
proof (induction rule: rtranclp_induct)
  case base
  show ?case by (simp add: lk_inv_def locked_init_def)
next
  case (step k k')
  then show ?case using lk_inv_step by blast
qed

subsection \<open>The monitor simulates the threads\<close>

fun abs_pc :: "('o, 's, 'c) lock_pc \<Rightarrow> ('o, 'c) thread_pc" where
  "abs_pc Outside = Idle"
| "abs_pc (Locking op) = Entering op"
| "abs_pc (Inside w op) = (if w then Woken op else Entering op)"
| "abs_pc (Working w op s) = (if w then Woken op else Entering op)"
| "abs_pc (In_wait c op) = Waiting c op"
| "abs_pc (Relocking op) = Woken op"
| "abs_pc Unlocking = Idle"

definition abs_lk :: "('s, 'o, 'r, 'c) locked \<Rightarrow> ('s, 'o, 'r, 'c) monitor" where
  "abs_lk k = \<lparr>shared = lk_shared k, pcs = (\<lambda>t. abs_pc (lk_pcs k t)), returned = lk_returned k\<rparr>"

lemma abs_pc_waiting [simp]: "abs_pc pc = Waiting c op \<longleftrightarrow> pc = In_wait c op"
  by (cases pc) auto

lemma abs_pc_upd: "(\<lambda>u. abs_pc ((ps(t := pc)) u)) = (\<lambda>u. abs_pc (ps u))(t := abs_pc pc)"
  by auto

lemma abs_notified: "cond_notified n ps ps' \<Longrightarrow> notified n (\<lambda>t. abs_pc (ps t)) (\<lambda>t. abs_pc (ps' t))"
proof (cases n)
  case (Notify c)
  assume "cond_notified n ps ps'"
  then consider (one) t op where "ps t = In_wait c op" "ps' = ps(t := Relocking op)"
    | (none) "\<forall>t op. ps t \<noteq> In_wait c op" "ps' = ps"
    unfolding Notify by auto
  then show ?thesis
  proof cases
    case one
    have "(\<lambda>u. abs_pc (ps' u)) = (\<lambda>u. abs_pc (ps u))(t := Woken op)" unfolding one(2) abs_pc_upd by simp
    with one(1) show ?thesis unfolding Notify by auto
  qed (simp add: Notify)
next
  case (NotifyAll cs)
  assume "cond_notified n ps ps'"
  then have "abs_pc (ps' t) = (case abs_pc (ps t) of Waiting c op \<Rightarrow> if c \<in> set cs then Woken op else abs_pc (ps t) | _ \<Rightarrow> abs_pc (ps t))" for t
    unfolding NotifyAll by (cases "ps t") auto
  then show ?thesis unfolding NotifyAll by auto
qed auto

lemma lk_step_abs:
  assumes "lk_step body k k'" "lk_inv k"
  shows "abs_lk k' = abs_lk k \<or> mon_step body (abs_lk k) (abs_lk k')"
  using assms(1)
proof cases
  case (call t op)
  with mon_step.call [of "abs_lk k" t body op] show ?thesis by (auto simp: abs_lk_def abs_pc_upd simp del: fun_upd_apply)
next
  case (wait t w op s c m)
  then have "s = shared (abs_lk k)" "at_gate (pcs (abs_lk k) t) = Some op"
    using assms(2) by (auto simp: lk_inv_def abs_lk_def)
  with mon_step.wait [of "abs_lk k" t op body c] wait show ?thesis
    by (auto simp: abs_lk_def abs_pc_upd simp del: fun_upd_apply)
next
  case (leave t w op s s' r n ps)
  then have "s = shared (abs_lk k)" "at_gate (pcs (abs_lk k) t) = Some op"
    using assms(2) by (auto simp: lk_inv_def abs_lk_def)
  with mon_step.leave [of "abs_lk k" t op body s' r n "\<lambda>t. abs_pc (ps t)"] leave abs_notified [OF leave(4)] show ?thesis
    by (auto simp: abs_lk_def abs_pc_upd simp del: fun_upd_apply)
next
  case (spurious t c op)
  with mon_step.spurious [of "abs_lk k" t c op body] show ?thesis by (auto simp: abs_lk_def abs_pc_upd simp del: fun_upd_apply)
qed (auto simp: abs_lk_def)

lemma lk_reach_abs:
  assumes "lk_reach body s k"
  shows "mon_reach body s (abs_lk k)"
  using assms unfolding lk_reach_def
proof (induction rule: rtranclp_induct)
  case base
  show ?case by (simp add: abs_lk_def locked_init_def mon_reach_def mon_init_def)
next
  case (step k k')
  from lk_step_abs [OF step(2) lk_reach_inv [unfolded lk_reach_def, OF step(1)]] step.IH mon_reach_step show ?case by metis
qed

lemma lk_reach_step: "lk_reach body s k \<Longrightarrow> lk_step body k k' \<Longrightarrow> lk_reach body s k'"
  unfolding lk_reach_def by (rule rtranclp.rtrancl_into_rtrancl)

lemma lk_reach_leave:
  assumes "lk_reach body s0 k" "lk_pcs k t = Working w op s" "body op s = Leave s' r n"
    and "cond_notified n ((lk_pcs k)(t := Unlocking)) ps"
    and "k' = k\<lparr>lk_shared := s', lk_pcs := ps, lk_returned := lk_returned k @ [(t, op, r)]\<rparr>"
  shows "lk_reach body s0 k'"
  using lk_reach_step [OF assms(1)] lk_step.leave [of k t w op s body s' r n ps] assms(2-5) by blast

subsection \<open>Properties\<close>

text \<open>
  C24: Threads that lock behave like the monitor. In every run of threads that lock, read,
  work, write back, wait and unlock in any interleaving, at most one is between lock and
  unlock, the state is one the monitor can reach with each thread at the matching place, and
  the operations that ended give, one after the other in that order, their results and the
  state.
\<close>

theorem locks_refine_monitor:
  assumes "lk_reach body s k"
  shows "mon_reach body s (abs_lk k) \<and> replay body (lk_returned k) s (lk_shared k) \<and>
    (\<forall>t u. holds (lk_pcs k t) \<longrightarrow> holds (lk_pcs k u) \<longrightarrow> t = u)"
proof -
  note m = lk_reach_abs [OF assms]
  from mon_linear [OF m] have "replay body (lk_returned k) s (lk_shared k)" by (simp add: abs_lk_def)
  moreover have "\<forall>t u. holds (lk_pcs k t) \<longrightarrow> holds (lk_pcs k u) \<longrightarrow> t = u"
    using lk_reach_inv [OF assms] by (simp add: lk_inv_def)
  ultimately show ?thesis using m by blast
qed

text \<open>Thread 0 has pushed and not unlocked yet, thread 1 asks for the mutex.\<close>

definition demo_locked :: "(nat bqueue, nat bq_op, nat bq_ret, bq_cond) locked" where
  "demo_locked = \<lparr>lk_shared = (new_queue 1)\<lparr>bq_queue := [7]\<rparr>, lk_mutex = Some 0,
     lk_pcs = (\<lambda>t. Outside)(0 := Unlocking, 1 := Locking Pop), lk_returned = [(0, Push 7, Pushed True)]\<rparr>"

lemma demo_locked_reach: "lk_reach bq_body (new_queue 1) demo_locked"
proof -
  let ?k0 = "locked_init (new_queue 1) :: (nat bqueue, nat bq_op, nat bq_ret, bq_cond) locked"
  let ?k1 = "?k0\<lparr>lk_pcs := (lk_pcs ?k0)(0 := Locking (Push 7))\<rparr>"
  let ?k2 = "?k1\<lparr>lk_mutex := Some 0, lk_pcs := (lk_pcs ?k1)(0 := Inside False (Push 7))\<rparr>"
  let ?k3 = "?k2\<lparr>lk_pcs := (lk_pcs ?k2)(0 := Working False (Push 7) (lk_shared ?k2))\<rparr>"
  let ?k4 = "?k3\<lparr>lk_pcs := (lk_pcs ?k3)(1 := Locking Pop)\<rparr>"
  let ?q = "(new_queue 1)\<lparr>bq_queue := [7]\<rparr> :: nat bqueue"
  have "lk_reach bq_body (new_queue 1) ?k0" by (simp add: lk_reach_def)
  then have "lk_reach bq_body (new_queue 1) ?k1"
    by (rule lk_reach_step) (rule lk_step.call, simp add: locked_init_def)
  then have "lk_reach bq_body (new_queue 1) ?k2"
    by (rule lk_reach_step) (rule lk_step.lock, simp_all add: locked_init_def mutex_Lock_def)
  then have "lk_reach bq_body (new_queue 1) ?k3"
    by (rule lk_reach_step) (rule lk_step.read, simp add: locked_init_def)
  then have k4: "lk_reach bq_body (new_queue 1) ?k4"
    by (rule lk_reach_step) (rule lk_step.call, simp add: locked_init_def)
  have pc: "lk_pcs ?k4 0 = Working False (Push 7) (new_queue 1)" by (simp add: locked_init_def)
  have body: "bq_body (Push 7) (new_queue 1) = Leave ?q (Pushed True) (Notify not_empty)"
    by (simp add: bq_defs new_queue_def)
  have note1: "cond_notified (Notify not_empty) ((lk_pcs ?k4)(0 := Unlocking)) ((lk_pcs ?k4)(0 := Unlocking))"
    by (simp add: locked_init_def)
  show ?thesis
    by (rule lk_reach_leave [OF k4 pc body note1]) (simp add: locked_init_def demo_locked_def fun_upd_twist)
qed

theorem locks_refine_monitor_witness:
  "mon_reach bq_body (new_queue 1) (abs_lk demo_locked) \<and> pcs (abs_lk demo_locked) 1 = Entering Pop \<and>
     bq_queue (shared (abs_lk demo_locked)) = [7]"
proof -
  have "mon_reach bq_body (new_queue 1) (abs_lk demo_locked)" using locks_refine_monitor [OF demo_locked_reach] by blast
  moreover have "pcs (abs_lk demo_locked) 1 = Entering Pop" "bq_queue (shared (abs_lk demo_locked)) = [7]"
    by (simp_all add: abs_lk_def demo_locked_def)
  ultimately show ?thesis by blast
qed

end
