(* ===== verification/SharedLogFile.thy ===== *)
theory SharedLogFile
  imports LogFile Mutex
begin

section \<open>\<open>log/LogFile\<close> between threads\<close>

text \<open>
  With \<open>mutex_\<close> set, \<open>Append\<close> and \<open>Flush\<close> lock it around what they do; without it they do the
  same and only one thread may call them. The threads are those of \<open>Mutex\<close>, the state is
  the log file and the environment of \<open>fwrite\<close>.
\<close>

subsection \<open>Operations\<close>

definition LogFile_Append ::
  "'k fwrite \<Rightarrow> file_env \<Rightarrow> int \<Rightarrow> int \<Rightarrow> string \<Rightarrow> log_file \<times> 'k \<Rightarrow> (log_file \<times> 'k, unit, unit) segment" where
  "LogFile_Append fw E now roll line s =
     (case AppendUnlocked fw E now roll line (fst s) (snd s) of
        Inl e \<Rightarrow> Fails e
      | Inr s' \<Rightarrow> Leave s' () No_notice)"

text \<open>\<open>fflush\<close> hands on what \<open>fwrite\<close> has taken, which is what a file holds here.\<close>

definition LogFile_Flush :: "log_file \<times> 'k \<Rightarrow> (log_file \<times> 'k, unit, unit) segment" where
  "LogFile_Flush s = (case lf_file (fst s) of None \<Rightarrow> Fails Undefined | Some f \<Rightarrow> Leave s () No_notice)"

text \<open>A call; an append has its two readings of the clock.\<close>

datatype log_call = Call_append string int int | Call_flush

fun log_section :: "'k fwrite \<Rightarrow> file_env \<Rightarrow> log_call \<Rightarrow> log_file \<times> 'k \<Rightarrow> (log_file \<times> 'k, unit, unit) segment" where
  "log_section fw E (Call_append line now roll) s = LogFile_Append fw E now roll line s"
| "log_section fw E Call_flush s = LogFile_Flush s"

fun appended_line :: "log_call \<Rightarrow> string" where
  "appended_line (Call_append line now roll) = line"
| "appended_line Call_flush = []"

subsection \<open>One section\<close>

lemma log_section_ok:
  assumes "progresses fw" "log_ok E (fst s)"
  shows "\<exists>s'. log_section fw E op s = Leave s' () No_notice \<and> log_ok E (fst s') \<and>
    log_content (fst s') = log_content (fst s) @ appended_line op"
proof (cases op)
  case (Call_append line now roll)
  obtain l' k' where "AppendUnlocked fw E now roll line (fst s) (snd s) = Inr (l', k')" "log_ok E l'"
      "log_content l' = log_content (fst s) @ line"
    using AppendUnlocked_ok [OF assms] by blast
  with Call_append show ?thesis by (simp add: LogFile_Append_def)
next
  case Call_flush
  obtain f where "lf_file (fst s) = Some f" using assms(2) by (auto simp: log_ok_def)
  with Call_flush assms(2) show ?thesis by (simp add: LogFile_Flush_def)
qed

lemma log_replay:
  assumes "progresses fw" "log_ok E (fst s)" "replay (log_section fw E) log s s'"
  shows "log_ok E (fst s') \<and> log_content (fst s') = log_content (fst s) @ concat (map (\<lambda>(t, op, r). appended_line op) log)"
  using assms(2,3)
proof (induction log arbitrary: s)
  case (Cons x log)
  obtain t op r where x: "x = (t, op, r)" by (cases x) auto
  obtain s1 where s1: "log_section fw E op s = Leave s1 () No_notice" "log_ok E (fst s1)"
      "log_content (fst s1) = log_content (fst s) @ appended_line op"
    using log_section_ok [OF assms(1) Cons.prems(1)] by blast
  then have "replay (log_section fw E) log s1 s'" using Cons.prems(2) x by simp
  with Cons.IH [OF s1(2)] s1(3) x show ?case by simp
qed simp

subsection \<open>Properties\<close>


text \<open>Thread 0 has appended and not unlocked yet.\<close>

lemma demo_shared_log:
  assumes "progresses fw" "0 < now"
  shows "\<exists>x. lk_reach (log_section fw E) (new_log_file E base r i e now, k) x \<and>
    lk_returned x = [(0, Call_append line t1 t2, ())]"
proof -
  let ?op = "Call_append line t1 t2" and ?s = "(new_log_file E base r i e now, k)"
  let ?k0 = "locked_init ?s :: (log_file \<times> _, log_call, unit, unit) locked"
  let ?k1 = "?k0\<lparr>lk_pcs := (lk_pcs ?k0)(0 := Locking ?op)\<rparr>"
  let ?k2 = "?k1\<lparr>lk_mutex := Some 0, lk_pcs := (lk_pcs ?k1)(0 := Inside False ?op)\<rparr>"
  let ?k3 = "?k2\<lparr>lk_pcs := (lk_pcs ?k2)(0 := Working False ?op (lk_shared ?k2))\<rparr>"
  let ?reach = "lk_reach (log_section fw E) ?s"
  have "?reach ?k0" by (simp add: lk_reach_def)
  then have "?reach ?k1" by (rule lk_reach_step) (rule lk_step.call, simp add: locked_init_def)
  then have "?reach ?k2" by (rule lk_reach_step) (rule lk_step.lock, simp_all add: locked_init_def mutex_Lock_def)
  then have k3: "?reach ?k3" by (rule lk_reach_step) (rule lk_step.read, simp add: locked_init_def)
  obtain s' where s': "log_section fw E ?op ?s = Leave s' () No_notice"
    using log_section_ok [OF assms(1), of E ?s ?op] new_log_file_ok(1) [OF assms(2), of E base r i e] by auto
  have pc: "lk_pcs ?k3 0 = Working False ?op ?s" by (simp add: locked_init_def)
  have note1: "cond_notified No_notice ((lk_pcs ?k3)(0 := Unlocking)) ((lk_pcs ?k3)(0 := Unlocking))" by simp
  from lk_reach_leave [OF k3 pc s' note1 refl] show ?thesis
    by (intro exI conjI) (assumption, simp add: locked_init_def)
qed


end
