(* ===== verification/ThreadPool.thy ===== *)
theory ThreadPool
  imports BlockingQueue "HOL-Library.Multiset"
begin

section \<open>\<open>base/ThreadPool\<close>: workers over the queue\<close>

text \<open>
  The workers are the threads below \<open>N\<close> of the queue's monitor, thread \<open>N\<close> is the one that
  starts and stops the pool, and the threads above it add tasks. A worker is where its loop
  is; between its calls of the queue it runs a task. An empty \<open>std::function\<close> is \<open>None\<close>, so
  that \<open>Pop\<close> gives \<open>None\<close> for its \<open>T()\<close> and \<open>Some None\<close> for an empty function that was pushed.
\<close>

subsection \<open>State\<close>

datatype 'a worker = W_check | W_pop | W_run 'a | W_done

datatype pool_control = P_idle | P_starting nat | P_started | P_flagged | P_woken | P_joined

record 'a thread_pool =
  tp_queue :: "('a option bqueue, 'a option bq_op, 'a option bq_ret, bq_cond) monitor"
  tp_workers :: "nat \<Rightarrow> 'a worker"
  tp_num :: nat
  tp_running :: bool
  tp_control :: pool_control
  tp_ran :: "(nat \<times> 'a) list"

definition new_thread_pool :: "nat \<Rightarrow> 'a thread_pool" where
  "new_thread_pool k =
     \<lparr>tp_queue = mon_init (new_queue k), tp_workers = (\<lambda>t. W_done), tp_num = 0, tp_running = False,
      tp_control = P_idle, tp_ran = []\<rparr>"

subsection \<open>The loop of a worker\<close>

text \<open>\<open>while (running_)\<close>; what \<open>Pop\<close> returned; \<open>if (task) task()\<close>.\<close>

definition worker_check :: "nat \<Rightarrow> 'a thread_pool \<Rightarrow> 'a thread_pool" where
  "worker_check t p =
     (if tp_running p
      then p\<lparr>tp_queue := (tp_queue p)\<lparr>pcs := (pcs (tp_queue p))(t := Entering Pop)\<rparr>, tp_workers := (tp_workers p)(t := W_pop)\<rparr>
      else p\<lparr>tp_workers := (tp_workers p)(t := W_done)\<rparr>)"

fun worker_took :: "'a option bq_ret \<Rightarrow> 'a worker" where
  "worker_took (Popped (Some (Some f))) = W_run f"
| "worker_took r = W_check"

definition worker_run :: "nat \<Rightarrow> 'a \<Rightarrow> 'a thread_pool \<Rightarrow> 'a thread_pool" where
  "worker_run t f p = p\<lparr>tp_workers := (tp_workers p)(t := W_check), tp_ran := tp_ran p @ [(t, f)]\<rparr>"

subsection \<open>Start, stop, add\<close>

definition pool_start :: "nat \<Rightarrow> 'a thread_pool \<Rightarrow> 'a thread_pool res" where
  "pool_start n p = assert_then (tp_num p = 0) (Inr (p\<lparr>tp_running := True, tp_control := P_starting n\<rparr>))"

text \<open>One turn of the loop that creates the threads, and its end.\<close>

definition pool_spawn :: "nat \<Rightarrow> 'a thread_pool \<Rightarrow> 'a thread_pool" where
  "pool_spawn k p = p\<lparr>tp_workers := (tp_workers p)(tp_num p := W_check), tp_num := tp_num p + 1, tp_control := P_starting k\<rparr>"

text \<open>\<open>Stop\<close>: the flag; \<open>WakeUp\<close>; joining the threads; \<open>Restore\<close>.\<close>

definition pool_flag :: "'a thread_pool \<Rightarrow> 'a thread_pool" where
  "pool_flag p = p\<lparr>tp_running := False, tp_control := P_flagged\<rparr>"

definition pool_join :: "'a thread_pool \<Rightarrow> 'a thread_pool" where
  "pool_join p = p\<lparr>tp_num := 0, tp_control := P_joined\<rparr>"

definition pool_section ::
  "nat \<Rightarrow> 'a option bq_op \<Rightarrow> pool_control \<Rightarrow> 'a thread_pool \<Rightarrow> 'a thread_pool \<Rightarrow> bool" where
  "pool_section N op c p p' \<longleftrightarrow>
     (\<exists>q r n ps. bq_body op (shared (tp_queue p)) = Leave q r n \<and> notified n (pcs (tp_queue p)) ps \<and>
        p' = p\<lparr>tp_queue := \<lparr>shared = q, pcs = ps, returned = returned (tp_queue p) @ [(N, op, r)]\<rparr>, tp_control := c\<rparr>)"

text \<open>The destructor stops a pool that runs.\<close>

definition delete_thread_pool :: "'a thread_pool \<Rightarrow> 'a thread_pool" where
  "delete_thread_pool p = (if tp_running p then pool_flag p else p)"

definition AddTask :: "nat \<Rightarrow> 'a option \<Rightarrow> 'a thread_pool \<Rightarrow> 'a thread_pool" where
  "AddTask t x p = p\<lparr>tp_queue := (tp_queue p)\<lparr>pcs := (pcs (tp_queue p))(t := Entering (Push x))\<rparr>\<rparr>"

subsection \<open>Interleavings\<close>

inductive tp_step :: "nat \<Rightarrow> 'a thread_pool \<Rightarrow> 'a thread_pool \<Rightarrow> bool" for N where
  add: "N < t \<Longrightarrow> pcs (tp_queue p) t = Idle \<Longrightarrow> tp_step N p (AddTask t x p)"
| wait: "at_gate (pcs (tp_queue p) t) = Some op \<Longrightarrow> bq_body op (shared (tp_queue p)) = Wait c \<Longrightarrow>
    tp_step N p (p\<lparr>tp_queue := (tp_queue p)\<lparr>pcs := (pcs (tp_queue p))(t := Waiting c op)\<rparr>\<rparr>)"
| spurious: "pcs (tp_queue p) t = Waiting c op \<Longrightarrow>
    tp_step N p (p\<lparr>tp_queue := (tp_queue p)\<lparr>pcs := (pcs (tp_queue p))(t := Woken op)\<rparr>\<rparr>)"
| leave: "at_gate (pcs (tp_queue p) t) = Some op \<Longrightarrow> bq_body op (shared (tp_queue p)) = Leave q r n \<Longrightarrow>
    notified n ((pcs (tp_queue p))(t := Idle)) ps \<Longrightarrow>
    tp_step N p (p\<lparr>tp_queue := \<lparr>shared = q, pcs = ps, returned = returned (tp_queue p) @ [(t, op, r)]\<rparr>,
      tp_workers := (if t < N then (tp_workers p)(t := worker_took r) else tp_workers p)\<rparr>)"
| check: "t < N \<Longrightarrow> tp_workers p t = W_check \<Longrightarrow> tp_step N p (worker_check t p)"
| run: "t < N \<Longrightarrow> tp_workers p t = W_run f \<Longrightarrow> tp_step N p (worker_run t f p)"
| start: "tp_control p = P_idle \<Longrightarrow> n \<le> N \<Longrightarrow> pool_start n p = Inr p' \<Longrightarrow> tp_step N p p'"
| spawn: "tp_control p = P_starting (Suc k) \<Longrightarrow> tp_step N p (pool_spawn k p)"
| started: "tp_control p = P_starting 0 \<Longrightarrow> tp_step N p (p\<lparr>tp_control := P_started\<rparr>)"
| flag: "tp_control p = P_started \<Longrightarrow> tp_step N p (pool_flag p)"
| wake: "tp_control p = P_flagged \<Longrightarrow> pool_section N WakeUp P_woken p p' \<Longrightarrow> tp_step N p p'"
| join: "tp_control p = P_woken \<Longrightarrow> \<forall>t < tp_num p. tp_workers p t = W_done \<Longrightarrow> tp_step N p (pool_join p)"
| restore: "tp_control p = P_joined \<Longrightarrow> pool_section N Restore P_idle p p' \<Longrightarrow> tp_step N p p'"

definition tp_reach :: "nat \<Rightarrow> nat \<Rightarrow> 'a thread_pool \<Rightarrow> bool" where
  "tp_reach N k p \<longleftrightarrow> (tp_step N)\<^sup>*\<^sup>* (new_thread_pool k) p"

subsection \<open>The invariant\<close>

fun pc_op :: "('o, 'c) thread_pc \<Rightarrow> 'o option" where
  "pc_op Idle = None"
| "pc_op (Entering op) = Some op"
| "pc_op (Waiting c op) = Some op"
| "pc_op (Woken op) = Some op"

definition threads_ok :: "nat \<Rightarrow> 'a thread_pool \<Rightarrow> bool" where
  "threads_ok N p \<longleftrightarrow>
     (\<forall>t < N. pc_op (pcs (tp_queue p) t) = (if tp_workers p t = W_pop then Some Pop else None)) \<and>
     pcs (tp_queue p) N = Idle \<and>
     (\<forall>t > N. \<forall>op. pc_op (pcs (tp_queue p) t) = Some op \<longrightarrow> (\<exists>x. op = Push x)) \<and>
     tp_num p \<le> N \<and> (\<forall>t < N. tp_num p \<le> t \<longrightarrow> tp_workers p t = W_done)"

definition control_ok :: "nat \<Rightarrow> 'a thread_pool \<Rightarrow> bool" where
  "control_ok N p \<longleftrightarrow>
     (tp_running p \<longleftrightarrow> tp_control p = P_started \<or> (\<exists>k. tp_control p = P_starting k)) \<and>
     (wakeup (shared (tp_queue p)) \<longleftrightarrow> tp_control p = P_woken \<or> tp_control p = P_joined) \<and>
     (tp_control p = P_idle \<or> tp_control p = P_joined \<longrightarrow> tp_num p = 0) \<and>
     (\<forall>k. tp_control p = P_starting k \<longrightarrow> tp_num p + k \<le> N)"

fun hand :: "'a worker \<Rightarrow> 'a multiset" where
  "hand (W_run f) = {#f#}"
| "hand w = {#}"

definition tasks :: "'a option list \<Rightarrow> 'a multiset" where
  "tasks xs = mset (map the (filter (\<lambda>x. x \<noteq> None) xs))"

definition ran_ok :: "nat \<Rightarrow> 'a thread_pool \<Rightarrow> bool" where
  "ran_ok N p \<longleftrightarrow> tasks (log_popped (returned (tp_queue p))) = mset (map snd (tp_ran p)) + (\<Sum>t<N. hand (tp_workers p t))"

lemmas tp_defs = worker_check_def worker_run_def pool_start_def pool_spawn_def pool_flag_def pool_join_def
  pool_section_def AddTask_def

lemma tasks_append [simp]: "tasks (xs @ ys) = tasks xs + tasks ys"
  by (simp add: tasks_def)

lemma tasks_simps [simp]: "tasks [] = {#}" "tasks [None] = {#}" "tasks [Some x] = {#x#}"
  by (simp_all add: tasks_def)

lemma log_popped_append:
  "log_popped (log @ [(t, op, r)]) = log_popped log @ (case r of Popped (Some x) \<Rightarrow> [x] | _ \<Rightarrow> [])"
  by (induction log rule: log_popped.induct) (auto split: bq_ret.splits option.splits)

lemma pc_op_notified: "notified n ps ps' \<Longrightarrow> pc_op (ps' t) = pc_op (ps t)"
  using notified_pc [of n ps ps' t] by auto

lemma pc_op_None [simp]: "pc_op pc = None \<longleftrightarrow> pc = Idle"
  by (cases pc) auto

lemma pc_op_gate: "at_gate pc = Some op \<Longrightarrow> pc_op pc = Some op"
  by (cases pc) auto

lemma sum_upd:
  fixes f :: "'w \<Rightarrow> 'm :: comm_monoid_add"
  assumes "t < (N :: nat)"
  shows "(\<Sum>i<N. f ((w(t := x)) i)) + f (w t) = (\<Sum>i<N. f (w i)) + f x"
proof -
  have "(\<Sum>i<N. f ((w(t := x)) i)) = f x + (\<Sum>i\<in>{..<N} - {t}. f (w i))"
    using assms by (subst sum.remove [of "{..<N}" t]) (auto intro: sum.cong)
  moreover have "(\<Sum>i<N. f (w i)) = f (w t) + (\<Sum>i\<in>{..<N} - {t}. f (w i))"
    using assms by (subst sum.remove [of "{..<N}" t]) auto
  ultimately show ?thesis by (simp add: ac_simps)
qed

lemma control_section:
  assumes "pool_section N op c p p'" "pcs (tp_queue p) N = Idle"
  shows "(mon_step bq_body)\<^sup>*\<^sup>* (tp_queue p) (tp_queue p')"
proof -
  let ?m = "(tp_queue p)\<lparr>pcs := (pcs (tp_queue p))(N := Entering op)\<rparr>"
  from assms(1) obtain q r n ps where s: "bq_body op (shared (tp_queue p)) = Leave q r n" "notified n (pcs (tp_queue p)) ps"
    "tp_queue p' = \<lparr>shared = q, pcs = ps, returned = returned (tp_queue p) @ [(N, op, r)]\<rparr>"
    by (auto simp: pool_section_def)
  have "mon_step bq_body (tp_queue p) ?m" by (rule mon_step.call [OF assms(2)])
  moreover have "mon_step bq_body ?m (tp_queue p')"
    using mon_step.leave [of ?m N op bq_body q r n ps] s assms(2) by (simp add: fun_upd_idem)
  ultimately show ?thesis by (meson rtranclp.simps)
qed

text \<open>Every step of the pool is no step, or some steps, of the queue's monitor.\<close>

lemma tp_step_queue:
  assumes "tp_step N p p'" "threads_ok N p"
  shows "(mon_step bq_body)\<^sup>*\<^sup>* (tp_queue p) (tp_queue p')"
  using assms(1)
proof cases
  case (add t x)
  with mon_step.call [of "tp_queue p" t bq_body "Push x"] show ?thesis by (auto simp: AddTask_def)
next
  case (wait t op c)
  with mon_step.wait [of "tp_queue p" t op bq_body c] show ?thesis by auto
next
  case (spurious t c op)
  with mon_step.spurious [of "tp_queue p" t c op bq_body] show ?thesis by auto
next
  case (leave t op q r n ps)
  with mon_step.leave [of "tp_queue p" t op bq_body q r n ps] show ?thesis by auto
next
  case (check t)
  with assms(2) have "pcs (tp_queue p) t = Idle"
    by (cases "pcs (tp_queue p) t") (auto simp: threads_ok_def)
  with mon_step.call [of "tp_queue p" t bq_body Pop] check show ?thesis by (auto simp: worker_check_def)
next
  case wake
  with control_section assms(2) show ?thesis by (auto simp: threads_ok_def)
next
  case restore
  with control_section assms(2) show ?thesis by (auto simp: threads_ok_def)
qed (auto simp: tp_defs assert_then_Inr_iff)

lemma gate_op:
  assumes "threads_ok N p" "at_gate (pcs (tp_queue p) t) = Some op"
  shows "t < N \<and> op = Pop \<and> tp_workers p t = W_pop \<or> N < t \<and> (\<exists>x. op = Push x)"
proof -
  from pc_op_gate [OF assms(2)] have "pc_op (pcs (tp_queue p) t) = Some op" .
  with assms(1) show ?thesis by (cases t N rule: linorder_cases) (auto simp: threads_ok_def split: if_splits)
qed

lemma pop_push_wakeup:
  "bq_body op q = Leave q' r n \<Longrightarrow> op = Pop \<or> (\<exists>x. op = Push x) \<Longrightarrow> wakeup q' = wakeup q"
  by (auto simp: bq_defs split: if_splits list.splits)

lemma threads_ok_section:
  assumes "pool_section N op c p p'" "threads_ok N p"
  shows "threads_ok N p'"
proof -
  from assms(1) obtain n ps where ps: "notified n (pcs (tp_queue p)) ps" "pcs (tp_queue p') = ps"
      "tp_workers p' = tp_workers p" "tp_num p' = tp_num p"
    by (auto simp: pool_section_def)
  have "pc_op (ps u) = pc_op (pcs (tp_queue p) u)" for u by (rule pc_op_notified [OF ps(1)])
  moreover from this [of N] have "ps N = Idle" using assms(2) by (auto simp: threads_ok_def)
  ultimately show ?thesis using ps(2-4) assms(2) by (auto simp: threads_ok_def)
qed

lemma threads_ok_step:
  assumes "tp_step N p p'" "threads_ok N p" "control_ok N p"
  shows "threads_ok N p'"
  using assms(1)
proof cases
  case (leave t op q r n ps)
  have "pc_op (ps u) = pc_op (((pcs (tp_queue p))(t := Idle)) u)" for u by (rule pc_op_notified [OF leave(4)])
  moreover from this [of N] have "ps N = Idle" using assms(2) by (auto simp: threads_ok_def split: if_splits)
  moreover have "worker_took r \<noteq> W_pop" by (cases r rule: worker_took.cases) auto
  ultimately show ?thesis using leave(1) gate_op [OF assms(2) leave(2)] assms(2) by (auto simp: threads_ok_def)
next
  case wake
  with threads_ok_section assms(2) show ?thesis by blast
next
  case restore
  with threads_ok_section assms(2) show ?thesis by blast
next
  case (check t)
  then show ?thesis using assms(2) by (auto simp: threads_ok_def worker_check_def)
next
  case (run t f)
  then show ?thesis using assms(2) by (auto simp: threads_ok_def worker_run_def)
next
  case (wait t op c)
  with gate_op [OF assms(2) wait(2)] assms(2) pc_op_gate [OF wait(2)] show ?thesis
    by (auto simp: threads_ok_def)
next
  case (spurious t c op)
  have "pc_op (pcs (tp_queue p) t) = Some op" using spurious by simp
  with assms(2) spurious show ?thesis by (auto simp: threads_ok_def)
qed (use assms(2,3) in \<open>auto simp: threads_ok_def control_ok_def tp_defs assert_then_Inr_iff\<close>)

lemma control_ok_step:
  assumes "tp_step N p p'" "threads_ok N p" "control_ok N p"
  shows "control_ok N p'"
  using assms(1)
proof cases
  case (leave t op q r n ps)
  have "wakeup q = wakeup (shared (tp_queue p))"
    using pop_push_wakeup [OF leave(3)] gate_op [OF assms(2) leave(2)] by blast
  with leave(1) assms(3) show ?thesis by (simp add: control_ok_def)
qed (use assms(3) in \<open>auto simp: control_ok_def tp_defs assert_then_Inr_iff\<close>)

definition tp_ok :: "nat \<Rightarrow> 'a thread_pool \<Rightarrow> bool" where
  "tp_ok N p \<longleftrightarrow> threads_ok N p \<and> control_ok N p \<and> ran_ok N p"

lemma hand_took: "hand (worker_took r) = tasks (case r of Popped (Some x) \<Rightarrow> [x] | _ \<Rightarrow> [])"
  by (cases r rule: worker_took.cases) auto

lemma ran_ok_step:
  assumes "tp_step N p p'" "threads_ok N p" "control_ok N p" "ran_ok N p"
  shows "ran_ok N p'"
  using assms(1)
proof cases
  case (leave t op q r n ps)
  from gate_op [OF assms(2) leave(2)] show ?thesis
  proof
    assume w: "t < N \<and> op = Pop \<and> tp_workers p t = W_pop"
    with sum_upd [of t N hand "tp_workers p" "worker_took r"] show ?thesis
      using leave(1) assms(4) by (simp add: ran_ok_def log_popped_append hand_took)
  next
    assume a: "N < t \<and> (\<exists>x. op = Push x)"
    with leave(3) have "log_popped (returned (tp_queue p) @ [(t, op, r)]) = log_popped (returned (tp_queue p))"
      by (auto simp: log_popped_append bq_defs split: if_splits)
    then show ?thesis using leave(1) a assms(4) by (simp add: ran_ok_def)
  qed
next
  case (check t)
  with sum_upd [of t N hand "tp_workers p"] assms(4) show ?thesis
    by (auto simp: ran_ok_def worker_check_def simp del: fun_upd_apply)
next
  case (run t f)
  with sum_upd [of t N hand "tp_workers p" W_check] assms(4) show ?thesis
    by (auto simp: ran_ok_def worker_run_def ac_simps simp del: fun_upd_apply)
next
  case (spawn k)
  then have n: "tp_num p < N" using assms(3) by (auto simp: control_ok_def)
  with assms(2) have "tp_workers p (tp_num p) = W_done" by (auto simp: threads_ok_def)
  with sum_upd [OF n, of hand "tp_workers p" W_check] spawn(1) assms(4) show ?thesis
    by (auto simp: ran_ok_def pool_spawn_def simp del: fun_upd_apply)
next
  case wake
  with assms(4) show ?thesis by (auto simp: ran_ok_def pool_section_def log_popped_append)
next
  case restore
  with assms(4) show ?thesis by (auto simp: ran_ok_def pool_section_def log_popped_append)
qed (use assms(4) in \<open>auto simp: ran_ok_def tp_defs assert_then_Inr_iff\<close>)

lemma tp_reach_ok:
  assumes "tp_reach N k p"
  shows "tp_ok N p \<and> mon_reach bq_body (new_queue k) (tp_queue p)"
  using assms unfolding tp_reach_def
proof (induction rule: rtranclp_induct)
  case base
  show ?case
    by (simp add: tp_ok_def threads_ok_def control_ok_def ran_ok_def new_thread_pool_def mon_init_def new_queue_def
        mon_reach_def)
next
  case (step p p')
  then have ok: "threads_ok N p" "control_ok N p" "ran_ok N p" by (simp_all add: tp_ok_def)
  with tp_step_queue [OF step(2) ok(1)] step.IH
  show ?case
    using threads_ok_step [OF step(2)] control_ok_step [OF step(2)] ran_ok_step [OF step(2)]
    by (auto simp: tp_ok_def mon_reach_def)
qed

text \<open>So destroying a started pool is a step of \<open>Stop\<close>, and destroying a stopped one nothing.\<close>

lemma delete_thread_pool_step:
  assumes "tp_ok N p"
  shows "tp_control p = P_started \<Longrightarrow> tp_step N p (delete_thread_pool p)"
    "tp_control p = P_idle \<Longrightarrow> delete_thread_pool p = p"
  using assms tp_step.flag [of p N] by (simp_all add: tp_ok_def control_ok_def delete_thread_pool_def)

subsection \<open>Stopping\<close>

fun worker_rank :: "'a worker \<Rightarrow> nat" where
  "worker_rank W_pop = 3"
| "worker_rank (W_run f) = 2"
| "worker_rank W_check = 1"
| "worker_rank W_done = 0"

definition tp_work :: "nat \<Rightarrow> 'a thread_pool \<Rightarrow> nat" where
  "tp_work N p = (\<Sum>t<N. worker_rank (tp_workers p t))"

lemma worker_rank_0 [simp]: "worker_rank w = 0 \<longleftrightarrow> w = W_done"
  by (cases w) auto

lemma tp_work_upd:
  assumes "t < N" "tp_workers p' = (tp_workers p)(t := w)" "worker_rank w < worker_rank (tp_workers p t)"
  shows "tp_work N p' < tp_work N p"
  using sum_upd [OF assms(1), of worker_rank "tp_workers p" w] assms(2,3) by (simp add: tp_work_def del: fun_upd_apply)

lemma woken_took: "bq_body Pop q = Leave q' r n \<Longrightarrow> wakeup q \<Longrightarrow> worker_took r = W_check"
  by (auto simp: bq_defs)

lemma stopping_step:
  assumes "tp_step N p p'" "tp_ok N p" "tp_control p = P_woken"
  shows "tp_control p' = P_joined \<or> tp_control p' = P_woken \<and>
    (tp_workers p' = tp_workers p \<or> tp_work N p' < tp_work N p)"
  using assms(1)
proof cases
  case (leave t op q r n ps)
  have w: "wakeup (shared (tp_queue p))" using assms(2,3) by (simp add: tp_ok_def control_ok_def)
  have "tp_work N p' < tp_work N p" if "t < N"
  proof (rule tp_work_upd [OF that])
    show "tp_workers p' = (tp_workers p)(t := worker_took r)" using leave(1) that by simp
    have "op = Pop" "tp_workers p t = W_pop" using gate_op [OF _ leave(2), of N] that assms(2) by (auto simp: tp_ok_def)
    with woken_took [OF _ w] leave(3) show "worker_rank (worker_took r) < worker_rank (tp_workers p t)" by simp
  qed
  with leave(1) assms(3) show ?thesis by auto
next
  case (check t)
  have "\<not> tp_running p" using assms(2,3) by (simp add: tp_ok_def control_ok_def)
  with tp_work_upd [of t N p' p W_done] check assms(3) show ?thesis by (simp add: worker_check_def)
next
  case (run t f)
  with tp_work_upd [of t N p' p W_check] assms(3) show ?thesis by (simp add: worker_run_def)
qed (use assms(3) in \<open>auto simp: tp_defs\<close>)

lemma stopping_goes_on:
  assumes "tp_reach N k p" "tp_control p = P_woken" "0 < tp_work N p"
  shows "\<exists>p'. tp_step N p p' \<and> tp_work N p' < tp_work N p"
proof -
  from tp_reach_ok [OF assms(1)] have ok: "tp_ok N p" and m: "mon_reach bq_body (new_queue k) (tp_queue p)" by auto
  have w: "wakeup (shared (tp_queue p))" "\<not> tp_running p" using ok assms(2) by (auto simp: tp_ok_def control_ok_def)
  have "tp_work N p = 0" if "\<forall>t<N. tp_workers p t = W_done" using that by (simp add: tp_work_def)
  with assms(3) obtain t where t: "t < N" "tp_workers p t \<noteq> W_done" by auto
  show ?thesis
  proof (cases "tp_workers p t")
    case W_check
    from tp_step.check [of t N p] tp_work_upd [of t N "worker_check t p" p W_done] t(1) W_check w(2) show ?thesis
      by (auto simp: worker_check_def)
  next
    case (W_run f)
    from tp_step.run [of t N p f] tp_work_upd [of t N "worker_run t f p" p W_check] t(1) W_run show ?thesis
      by (auto simp: worker_run_def)
  next
    case W_pop
    with ok t(1) have "pc_op (pcs (tp_queue p) t) = Some Pop" by (auto simp: tp_ok_def threads_ok_def)
    with bq.free_nobody_waits [OF m bq_inv_new w(1), of t] have g: "at_gate (pcs (tp_queue p) t) = Some Pop"
      by (cases "pcs (tp_queue p) t") auto
    have b: "bq_body Pop (shared (tp_queue p)) = Leave (shared (tp_queue p)) (Popped None) No_notice"
      using w(1) by (simp add: bq_defs)
    from tp_step.leave [OF g b, of "(pcs (tp_queue p))(t := Idle)" N] obtain p' where
      "tp_step N p p'" "tp_workers p' = (tp_workers p)(t := W_check)"
      using t(1) by fastforce
    with tp_work_upd [OF t(1), of p' p W_check] W_pop show ?thesis by auto
  qed (use t in simp)
qed

subsection \<open>Properties\<close>

lemma tp_reach_step: "tp_reach N k p \<Longrightarrow> tp_step N p p' \<Longrightarrow> tp_reach N k p'"
  unfolding tp_reach_def by (rule rtranclp.rtrancl_into_rtrancl)

lemma tp_reach_leave:
  assumes "tp_reach N k p" "at_gate (pcs (tp_queue p) t) = Some op" "bq_body op (shared (tp_queue p)) = Leave q r n"
    and "notified n ((pcs (tp_queue p))(t := Idle)) ps"
    and "p' = p\<lparr>tp_queue := \<lparr>shared = q, pcs = ps, returned = returned (tp_queue p) @ [(t, op, r)]\<rparr>,
      tp_workers := (if t < N then (tp_workers p)(t := worker_took r) else tp_workers p)\<rparr>"
  shows "tp_reach N k p'"
  using tp_reach_step [OF assms(1)] tp_step.leave [OF assms(2,3,4)] assms(5) by blast

lemma tp_reach_section:
  assumes "tp_reach N k p" "tp_control p = P_flagged" "bq_body WakeUp (shared (tp_queue p)) = Leave q r n"
    and "notified n (pcs (tp_queue p)) ps"
    and "p' = p\<lparr>tp_queue := \<lparr>shared = q, pcs = ps, returned = returned (tp_queue p) @ [(N, WakeUp, r)]\<rparr>, tp_control := P_woken\<rparr>"
  shows "tp_reach N k p'"
  using tp_reach_step [OF assms(1) tp_step.wake [OF assms(2)]] assms(3-5) unfolding pool_section_def by blast

text \<open>A pool of one worker: thread 2 adds a task, the worker takes it; the pool is stopped
  while the task runs.\<close>

definition demo_running :: "nat thread_pool" where
  "demo_running =
     \<lparr>tp_queue = \<lparr>shared = new_queue 0, pcs = (\<lambda>t. Idle),
        returned = [(2, Push (Some 7), Pushed True), (0, Pop, Popped (Some (Some 7)))]\<rparr>,
      tp_workers = (\<lambda>t. W_done)(0 := W_run 7), tp_num = 1, tp_running = True, tp_control = P_starting 0, tp_ran = []\<rparr>"

definition demo_stopping :: "nat thread_pool" where
  "demo_stopping = (pool_flag demo_running)
     \<lparr>tp_queue := (tp_queue demo_running)\<lparr>shared := (new_queue 0)\<lparr>wakeup := True\<rparr>,
        returned := returned (tp_queue demo_running) @ [(1, WakeUp, Unit)]\<rparr>, tp_control := P_woken\<rparr>"

lemma demo_running_reach: "tp_reach 1 0 demo_running"
proof -
  let ?p0 = "new_thread_pool 0 :: nat thread_pool"
  let ?p1 = "?p0\<lparr>tp_running := True, tp_control := P_starting 1\<rparr>"
  let ?p2 = "pool_spawn 0 ?p1"
  let ?q = "(new_queue 0)\<lparr>bq_queue := [Some 7]\<rparr> :: nat option bqueue"
  let ?p3 = "?p2\<lparr>tp_queue := \<lparr>shared = ?q, pcs = (\<lambda>t. Idle), returned = [(2, Push (Some 7), Pushed True)]\<rparr>\<rparr>"
  have "tp_reach 1 0 ?p0" by (simp add: tp_reach_def)
  then have "tp_reach 1 0 ?p1"
    by (rule tp_reach_step) (rule tp_step.start [of _ 1], simp_all add: pool_start_def new_thread_pool_def)
  then have "tp_reach 1 0 ?p2" by (rule tp_reach_step) (rule tp_step.spawn, simp)
  then have "tp_reach 1 0 (AddTask 2 (Some 7) ?p2)"
    by (rule tp_reach_step) (rule tp_step.add, simp_all add: pool_spawn_def new_thread_pool_def mon_init_def)
  then have "tp_reach 1 0 ?p3"
    by (rule tp_reach_leave [where t = 2 and ps = "\<lambda>t. Idle" and n = "Notify not_empty"])
      (auto simp: AddTask_def pool_spawn_def new_thread_pool_def mon_init_def bq_defs new_queue_def)
  then have "tp_reach 1 0 (worker_check 0 ?p3)"
    by (rule tp_reach_step) (rule tp_step.check, simp_all add: pool_spawn_def new_thread_pool_def)
  then show ?thesis
    by (rule tp_reach_leave [where t = 0 and ps = "\<lambda>t. Idle" and n = "Notify not_full"])
      (auto simp: worker_check_def pool_spawn_def new_thread_pool_def mon_init_def bq_defs new_queue_def demo_running_def)
qed

lemma demo_stopping_reach: "tp_reach 1 0 demo_stopping"
proof -
  have "tp_reach 1 0 (demo_running\<lparr>tp_control := P_started\<rparr>)"
    by (rule tp_reach_step [OF demo_running_reach]) (rule tp_step.started, simp add: demo_running_def)
  then have "tp_reach 1 0 (pool_flag (demo_running\<lparr>tp_control := P_started\<rparr>))"
    by (rule tp_reach_step) (rule tp_step.flag, simp)
  then show ?thesis
    by (rule tp_reach_section [where n = "NotifyAll [not_empty, not_full]" and ps = "\<lambda>t. Idle"])
      (auto simp: pool_flag_def demo_running_def demo_stopping_def new_queue_def)
qed

text \<open>
  C34: A pool runs every task it stored exactly once, whatever the order of the threads: as
  multisets, the tasks pushed are the tasks that ran, those a worker is about to run, and
  those still in the queue.
\<close>

theorem pool_runs_each_task:
  assumes "tp_reach N k p"
  shows "tasks (log_pushed (returned (tp_queue p))) =
    mset (map snd (tp_ran p)) + (\<Sum>t<N. hand (tp_workers p t)) + tasks (bq_queue (shared (tp_queue p)))"
proof -
  from tp_reach_ok [OF assms] have m: "mon_reach bq_body (new_queue k) (tp_queue p)" and r: "ran_ok N p"
    by (simp_all add: tp_ok_def)
  from replay_fifo [OF mon_linear [OF m]]
  have "log_pushed (returned (tp_queue p)) = log_popped (returned (tp_queue p)) @ bq_queue (shared (tp_queue p))"
    by (simp add: new_queue_def)
  with r show ?thesis by (simp add: ran_ok_def)
qed

theorem pool_runs_each_task_witness:
  "tp_workers demo_running 0 = W_run 7 \<and> tasks (log_pushed (returned (tp_queue demo_running))) = {#7#}"
  using pool_runs_each_task [OF demo_running_reach] by (simp add: demo_running_def new_queue_def)

text \<open>
  C35: \<open>Stop\<close> comes to its end. Once it has woken the queue, no step of any thread gives the
  workers new work, every step of a worker brings it closer to its end, while a worker is
  left some worker can take such a step, and when none is left the threads are joined.
\<close>

theorem pool_stop_ends:
  assumes "tp_reach N k p" "tp_control p = P_woken"
  shows "(\<forall>p'. tp_step N p p' \<longrightarrow> tp_control p' = P_joined \<or> tp_control p' = P_woken \<and>
      (tp_workers p' = tp_workers p \<or> tp_work N p' < tp_work N p)) \<and>
    (if tp_work N p = 0 then \<exists>p'. tp_step N p p' \<and> tp_control p' = P_joined
     else \<exists>p'. tp_step N p p' \<and> tp_work N p' < tp_work N p)"
proof -
  from tp_reach_ok [OF assms(1)] have ok: "tp_ok N p" by blast
  have "\<exists>p'. tp_step N p p' \<and> tp_control p' = P_joined" if "tp_work N p = 0"
  proof -
    have "\<forall>t < tp_num p. tp_workers p t = W_done"
      using that ok by (auto simp: tp_work_def tp_ok_def threads_ok_def)
    from tp_step.join [OF assms(2) this, of N] show ?thesis by (auto simp: pool_join_def)
  qed
  with stopping_step [OF _ ok assms(2)] stopping_goes_on [OF assms] show ?thesis by auto
qed

theorem pool_stop_ends_witness:
  "tp_work 1 demo_stopping = 2 \<and> (\<exists>p'. tp_step 1 demo_stopping p' \<and> tp_work 1 p' < 2)"
proof -
  have "tp_control demo_stopping = P_woken" "tp_work 1 demo_stopping = 2"
    by (simp_all add: demo_stopping_def demo_running_def pool_flag_def tp_work_def)
  with pool_stop_ends [OF demo_stopping_reach this(1)] show ?thesis by simp
qed

end
