(* ===== verification/CurrentThread.thy ===== *)
theory CurrentThread
  imports Text
begin

section \<open>\<open>base/CurrentThread\<close>: the thread's id and its text\<close>

text \<open>
  The thread-local variables of one thread as a record; \<open>gettid\<close> is what the system call
  answers in that thread. First the part of \<open>snprintf\<close> the sources use: a signed number in
  a field of a width, filled with spaces or with zeros.
\<close>

subsection \<open>\<open>snprintf\<close>\<close>

definition fill :: "char \<Rightarrow> nat \<Rightarrow> string \<Rightarrow> string" where
  "fill c w s = replicate (w - length s) c @ s"

text \<open>The conversions \<open>%5d\<close> and \<open>%06d\<close>; the sign stands before the zeros.\<close>

definition fmt_space :: "nat \<Rightarrow> int \<Rightarrow> string" where
  "fmt_space w i = fill CHR '' '' w (to_string i)"

definition fmt_zero :: "nat \<Rightarrow> int \<Rightarrow> string" where
  "fmt_zero w i = (if i < 0 then CHR ''-'' # fill CHR ''0'' (w - 1) (decimal (nat (- i))) else fill CHR ''0'' w (decimal (nat i)))"

text \<open>\<open>snprintf(buf, sizeof(buf), ...)\<close> of a text: what the array holds afterwards, and the result.\<close>

definition snprintf_to :: "string \<Rightarrow> string \<Rightarrow> string \<times> int" where
  "snprintf_to txt buf =
     (if buf = [] then buf else copy_in (take (length buf - 1) txt @ [CHR 0x00]) 0 buf, int (length txt))"

lemma length_fill [simp]: "length (fill c w s) = max w (length s)"
  by (simp add: fill_def)

lemma set_fill [simp]: "x \<in> set (fill c w s) \<longleftrightarrow> x = c \<and> length s < w \<or> x \<in> set s"
  by (auto simp: fill_def)

lemma length_fmt_zero: "0 \<le> i \<Longrightarrow> i < 10 ^ w \<Longrightarrow> 0 < w \<Longrightarrow> length (fmt_zero w i) = w"
  using length_decimal [of w "nat i"] by (simp add: fmt_zero_def nat_less_iff max_absorb1)

lemma length_fmt_space: "0 \<le> i \<Longrightarrow> i < 10 ^ w \<Longrightarrow> 0 < w \<Longrightarrow> length (fmt_space w i) = w"
  using length_decimal [of w "nat i"] by (simp add: fmt_space_def to_string_def nat_less_iff max_absorb1)

lemma no_nul_fmt [simp]: "CHR 0x00 \<notin> set (fmt_zero w i)" "CHR 0x00 \<notin> set (fmt_space w i)"
  by (auto simp: fmt_zero_def fmt_space_def to_string_def)

lemma c_str_terminated: "CHR 0x00 \<notin> set s \<Longrightarrow> c_str (s @ CHR 0x00 # t) = s"
  by (induction s) (auto simp: c_str_def)

lemma snprintf_to_fits:
  assumes "length txt < length buf" "CHR 0x00 \<notin> set txt"
  shows "snd (snprintf_to txt buf) = int (length txt)" "c_str (fst (snprintf_to txt buf)) = txt"
    "length (fst (snprintf_to txt buf)) = length buf" "take (length txt) (fst (snprintf_to txt buf)) = txt"
proof -
  have b: "buf \<noteq> []" "take (length buf - 1) txt = txt" using assms(1) by auto
  then have e: "fst (snprintf_to txt buf) = txt @ CHR 0x00 # drop (Suc (length txt)) buf"
    by (simp add: snprintf_to_def copy_in_def)
  show "snd (snprintf_to txt buf) = int (length txt)" by (simp add: snprintf_to_def)
  show "c_str (fst (snprintf_to txt buf)) = txt" unfolding e by (rule c_str_terminated [OF assms(2)])
  show "length (fst (snprintf_to txt buf)) = length buf" "take (length txt) (fst (snprintf_to txt buf)) = txt"
    unfolding e using assms(1) by simp_all
qed

subsection \<open>The thread-local variables\<close>

record thread_local =
  t_tid :: int
  t_tid_str :: string
  t_tid_str_len :: int
  t_name :: string

definition new_thread_local :: thread_local where
  "new_thread_local = \<lparr>t_tid = 0, t_tid_str = replicate 32 (CHR 0x00), t_tid_str_len = 0, t_name = ''unknown''\<rparr>"

definition CacheTid :: "int \<Rightarrow> thread_local \<Rightarrow> thread_local" where
  "CacheTid gettid l =
     (if t_tid l = 0 then
        let (str, len) = snprintf_to (fmt_space 5 gettid @ '' '') (t_tid_str l) in
        l\<lparr>t_tid := gettid, t_tid_str := str, t_tid_str_len := len\<rparr>
      else l)"

definition tid :: "int \<Rightarrow> thread_local \<Rightarrow> int \<times> thread_local" where
  "tid gettid l = (let l = (if t_tid l = 0 then CacheTid gettid l else l) in (t_tid l, l))"

definition IsMainThread :: "int \<Rightarrow> int \<Rightarrow> thread_local \<Rightarrow> bool \<times> thread_local" where
  "IsMainThread gettid getpid l = (let (t, l) = tid gettid l in (t = getpid, l))"

text \<open>The variables of a thread whose id is \<open>g\<close>: not read yet, or read and printed.\<close>

definition local_ok :: "int \<Rightarrow> thread_local \<Rightarrow> bool" where
  "local_ok g l \<longleftrightarrow> 0 < g \<and> g < 2 ^ 31 \<and> length (t_tid_str l) = 32 \<and>
     (t_tid l = 0 \<or> t_tid l = g \<and> c_str (t_tid_str l) = fmt_space 5 g @ '' '' \<and>
        t_tid_str_len l = int (length (fmt_space 5 g @ '' '')))"

lemma new_thread_local_ok: "0 < g \<Longrightarrow> g < 2 ^ 31 \<Longrightarrow> local_ok g new_thread_local"
  by (simp add: local_ok_def new_thread_local_def)

lemma tid_text: "0 < g \<Longrightarrow> g < 2 ^ 31 \<Longrightarrow> length (fmt_space 5 g @ '' '') < 32 \<and> CHR 0x00 \<notin> set (fmt_space 5 g @ '' '')"
  using length_decimal [of 10 "nat g"] by (auto simp: nat_less_iff fmt_space_def to_string_def)

text \<open>The id is read once and its text stays: every later call finds both.\<close>

lemma tid_ok:
  assumes "local_ok g l"
  shows "\<exists>l'. tid g l = (g, l') \<and> local_ok g l' \<and> t_tid l' = g \<and> t_name l' = t_name l \<and> tid h l' = (g, l')"
proof (cases "t_tid l = 0")
  case True
  have g: "0 < g" "g < 2 ^ 31" "length (t_tid_str l) = 32" using assms by (simp_all add: local_ok_def)
  note fits = tid_text [OF g(1,2)]
  let ?l = "snd (tid g l)"
  have l: "t_tid ?l = g" "t_tid_str ?l = fst (snprintf_to (fmt_space 5 g @ '' '') (t_tid_str l))"
    "t_tid_str_len ?l = snd (snprintf_to (fmt_space 5 g @ '' '') (t_tid_str l))" "t_name ?l = t_name l"
    using True by (simp_all add: tid_def CacheTid_def split_beta Let_def)
  have "fst (tid g l) = g" using True by (simp add: tid_def CacheTid_def split_beta Let_def)
  moreover have "local_ok g ?l"
    using snprintf_to_fits [of "fmt_space 5 g @ '' ''" "t_tid_str l"] fits g l by (simp add: local_ok_def)
  moreover have "tid h ?l = (g, ?l)" using l(1) g(1) by (simp add: tid_def [of h])
  ultimately show ?thesis using l(1,4) by (metis prod.collapse)
next
  case False
  then show ?thesis using assms by (auto simp: tid_def local_ok_def)
qed

end
