(* ===== verification/Threads.thy ===== *)
theory Threads
  imports BlockingQueue CurrentThread
begin

section \<open>\<open>base/Atomic\<close>, \<open>base/Memory\<close>, \<open>base/Thread\<close>\<close>

text \<open>
  An atomic is its value: each operation is one indivisible step, whose result and new value
  are given. A \<open>Thread\<close> starts its function in a new thread and waits on a latch until that
  thread has stored its id; the interleavings of the two are a step relation.
\<close>

subsection \<open>Atomics\<close>

definition atomic_Get :: "'w :: len word \<Rightarrow> 'w word" where
  "atomic_Get value = value"

definition atomic_Set :: "'w :: len word \<Rightarrow> 'w word \<Rightarrow> 'w word \<times> 'w word" where
  "atomic_Set newvalue value = (value, newvalue)"

definition GetAndAdd :: "'w :: len word \<Rightarrow> 'w word \<Rightarrow> 'w word \<times> 'w word" where
  "GetAndAdd x value = (value, value + x)"

definition AddAndGet :: "'w :: len word \<Rightarrow> 'w word \<Rightarrow> 'w word \<times> 'w word" where
  "AddAndGet x value = (value + x, value + x)"

definition pre_incr :: "'w :: len word \<Rightarrow> 'w word \<times> 'w word" where "pre_incr = AddAndGet 1"

definition post_incr :: "'w :: len word \<Rightarrow> 'w word \<times> 'w word" where "post_incr = GetAndAdd 1"

definition pre_decr :: "'w :: len word \<Rightarrow> 'w word \<times> 'w word" where "pre_decr = AddAndGet (- 1)"

definition post_decr :: "'w :: len word \<Rightarrow> 'w word \<times> 'w word" where "post_decr = GetAndAdd (- 1)"

text \<open>\<open>AtomicBool\<close> is an \<open>AtomicInt32\<close> that holds 0 or 1.\<close>

definition new_AtomicBool :: "bool \<Rightarrow> 32 word" where
  "new_AtomicBool value = (if value then snd (atomic_Set 1 0) else snd (atomic_Set 0 0))"

definition SetTrue :: "32 word \<Rightarrow> 32 word" where "SetTrue v = snd (atomic_Set 1 v)"

definition SetFalse :: "32 word \<Rightarrow> 32 word" where "SetFalse v = snd (atomic_Set 0 v)"

definition atomic_bool_Get :: "32 word \<Rightarrow> bool" where "atomic_bool_Get v \<longleftrightarrow> atomic_Get v = 1"

lemmas atomic_defs = atomic_Get_def atomic_Set_def GetAndAdd_def AddAndGet_def pre_incr_def post_incr_def pre_decr_def
  post_decr_def new_AtomicBool_def SetTrue_def SetFalse_def atomic_bool_Get_def

lemma atomic_bool_reads:
  "atomic_bool_Get (new_AtomicBool b) = b" "atomic_bool_Get (SetTrue v)" "\<not> atomic_bool_Get (SetFalse v)"
  by (simp_all add: atomic_defs)

text \<open>Threads that count with \<open>++\<close> in any order get different numbers until the type wraps.\<close>

fun post_incrs :: "nat \<Rightarrow> 'w :: len word \<Rightarrow> 'w word list \<times> 'w word" where
  "post_incrs 0 v = ([], v)"
| "post_incrs (Suc n) v = (let (r, v) = post_incr v; (rs, v) = post_incrs n v in (r # rs, v))"

lemma post_incrs_eq: "post_incrs n v = (map (\<lambda>i. v + of_nat i) [0..<n], v + of_nat n)"
proof (induction n arbitrary: v)
  case (Suc n)
  have "map (\<lambda>i. v + of_nat i) [0..<Suc n] = v # map (\<lambda>i. v + 1 + of_nat i) [0..<n]"
    by (simp add: upt_conv_Cons map_Suc_upt [symmetric] comp_def algebra_simps del: upt_Suc)
  then show ?case by (simp add: Suc atomic_defs Let_def algebra_simps del: upt_Suc)
qed simp

lemma post_incrs_distinct:
  assumes "n \<le> 2 ^ LENGTH('w)"
  shows "distinct (fst (post_incrs n (v :: 'w :: len word)))"
proof -
  have "inj_on (\<lambda>i. v + of_nat i) {..<n}"
  proof (rule inj_onI)
    fix i j
    assume "i \<in> {..<n}" "j \<in> {..<n}" "v + of_nat i = v + (of_nat j :: 'w word)"
    with assms show "i = j" by (auto simp: word_of_nat_eq_iff take_bit_nat_eq_self)
  qed
  then show ?thesis by (simp add: post_incrs_eq distinct_map lessThan_atLeast0)
qed

subsection \<open>Pointers that observe, and calls at the end of a scope\<close>

definition Release_ptr :: "'a option \<Rightarrow> 'a option \<times> 'a option" where
  "Release_ptr ptr = (ptr, None)"

definition Reset_ptr :: "'a option \<Rightarrow> 'a option \<Rightarrow> 'a option" where
  "Reset_ptr new ptr = new"

definition deref_ptr :: "'a option \<Rightarrow> 'a res" where
  "deref_ptr ptr = (case ptr of Some x \<Rightarrow> Inr x | None \<Rightarrow> Inl Undefined)"

text \<open>The rest of the scope, then the functor of the \<open>ExitCaller\<close>.\<close>

definition with_exit :: "('s \<Rightarrow> 's) \<Rightarrow> ('s \<Rightarrow> 'r \<times> 's) \<Rightarrow> 's \<Rightarrow> 'r \<times> 's" where
  "with_exit at_exit scope s = (let (r, s) = scope s in (r, at_exit s))"

subsection \<open>A thread\<close>

datatype run_pc = Run_none | Run_begin | Run_tid | Run_counting | Run_counted | Run_func | Run_finished | Run_deleted

datatype start_pc = Start_none | Start_waiting | Start_returned bool

record thread =
  started :: bool
  joined :: bool
  th_tid :: int
  thread_name :: string
  th_latch :: "(int, latch_op, unit, unit) monitor"
  start_at :: start_pc
  run_at :: run_pc
  run_name :: string

definition new_thread :: "string \<Rightarrow> thread" where
  "new_thread name = \<lparr>started = False, joined = False, th_tid = 0, thread_name = name, th_latch = mon_init 1,
     start_at = Start_none, run_at = Run_none, run_name = ''unknown''\<rparr>"

text \<open>\<open>Start\<close>: \<open>pthread_create\<close> answers 0 or an error; then the latch. Thread 0 of the latch
  is the one that calls \<open>Start\<close>, thread 1 the new one.\<close>

definition thread_Start :: "int \<Rightarrow> thread \<Rightarrow> thread res" where
  "thread_Start create t =
     assert_then (\<not> started t)
       (let t = t\<lparr>started := True\<rparr> in
        if create \<noteq> 0 then Inr (t\<lparr>started := False, start_at := Start_returned False\<rparr>)
        else Inr (t\<lparr>run_at := Run_begin, start_at := Start_waiting,
          th_latch := (th_latch t)\<lparr>pcs := (pcs (th_latch t))(0 := Entering Wait_latch)\<rparr>\<rparr>))"

text \<open>\<open>RunInThread\<close> and the end of \<open>StartThread\<close>, one line a step; \<open>g\<close> is the id of the thread.\<close>

definition run_tid :: "int \<Rightarrow> thread \<Rightarrow> thread" where
  "run_tid g t = t\<lparr>th_tid := g, run_at := Run_tid\<rparr>"

definition run_count :: "thread \<Rightarrow> thread" where
  "run_count t = t\<lparr>run_at := Run_counting, th_latch := (th_latch t)\<lparr>pcs := (pcs (th_latch t))(1 := Entering CountDown)\<rparr>\<rparr>"

definition run_func :: "thread \<Rightarrow> thread" where
  "run_func t = t\<lparr>run_name := (if thread_name t = [] then ''default'' else c_str (thread_name t)), run_at := Run_func\<rparr>"

definition run_finish :: "thread \<Rightarrow> thread" where
  "run_finish t = t\<lparr>run_name := ''finished'', run_at := Run_finished\<rparr>"

definition StartThread_end :: "thread \<Rightarrow> thread" where
  "StartThread_end t = t\<lparr>run_at := Run_deleted\<rparr>"

text \<open>\<open>pthread_join\<close> waits for the end of the function; its result is a parameter.\<close>

definition thread_Join :: "int \<Rightarrow> thread \<Rightarrow> (int \<times> thread) res" where
  "thread_Join join t =
     assert_then (started t) (assert_then (\<not> joined t)
       (if run_at t = Run_deleted then Inr (join, t\<lparr>joined := True\<rparr>) else Inl Blocked))"

text \<open>Whether the destructor detaches the thread.\<close>

definition delete_thread :: "thread \<Rightarrow> bool" where
  "delete_thread t \<longleftrightarrow> started t \<and> \<not> joined t"

text \<open>A thread that could not be created cannot be joined.\<close>

lemma failed_start_cannot_join:
  assumes "\<not> started t" "create \<noteq> 0"
  shows "\<exists>t'. thread_Start create t = Inr t' \<and> start_at t' = Start_returned False \<and> thread_Join j t' = Inl Assertion_failed"
  using assms by (simp add: thread_Start_def thread_Join_def)

subsection \<open>Interleavings\<close>

inductive th_step :: "int \<Rightarrow> thread \<Rightarrow> thread \<Rightarrow> bool" for g where
  start: "start_at t = Start_none \<Longrightarrow> thread_Start create t = Inr t' \<Longrightarrow> th_step g t t'"
| wait: "at_gate (pcs (th_latch t) u) = Some op \<Longrightarrow> latch_body op (shared (th_latch t)) = Wait c \<Longrightarrow>
    th_step g t (t\<lparr>th_latch := (th_latch t)\<lparr>pcs := (pcs (th_latch t))(u := Waiting c op)\<rparr>\<rparr>)"
| spurious: "pcs (th_latch t) u = Waiting c op \<Longrightarrow>
    th_step g t (t\<lparr>th_latch := (th_latch t)\<lparr>pcs := (pcs (th_latch t))(u := Woken op)\<rparr>\<rparr>)"
| leave: "at_gate (pcs (th_latch t) u) = Some op \<Longrightarrow> latch_body op (shared (th_latch t)) = Leave q r n \<Longrightarrow>
    notified n ((pcs (th_latch t))(u := Idle)) ps \<Longrightarrow>
    th_step g t (t\<lparr>th_latch := \<lparr>shared = q, pcs = ps, returned = returned (th_latch t) @ [(u, op, r)]\<rparr>,
      start_at := (if u = 0 then Start_returned True else start_at t),
      run_at := (if u = 0 then run_at t else Run_counted)\<rparr>)"
| tid: "run_at t = Run_begin \<Longrightarrow> th_step g t (run_tid g t)"
| count: "run_at t = Run_tid \<Longrightarrow> th_step g t (run_count t)"
| func: "run_at t = Run_counted \<Longrightarrow> th_step g t (run_func t)"
| finish: "run_at t = Run_func \<Longrightarrow> th_step g t (run_finish t)"
| ends: "run_at t = Run_finished \<Longrightarrow> th_step g t (StartThread_end t)"

definition th_reach :: "int \<Rightarrow> string \<Rightarrow> thread \<Rightarrow> bool" where
  "th_reach g name t \<longleftrightarrow> (th_step g)\<^sup>*\<^sup>* (new_thread name) t"

text \<open>What the new thread still has to do before it has counted down.\<close>

fun run_left :: "run_pc \<Rightarrow> nat" where
  "run_left Run_begin = 3"
| "run_left Run_tid = 2"
| "run_left Run_counting = 1"
| "run_left pc = 0"

text \<open>The operation a thread is in, wherever it stands in it.\<close>

fun latch_op_of :: "(latch_op, unit) thread_pc \<Rightarrow> latch_op option" where
  "latch_op_of Idle = None"
| "latch_op_of (Entering op) = Some op"
| "latch_op_of (Waiting c op) = Some op"
| "latch_op_of (Woken op) = Some op"

definition th_inv :: "int \<Rightarrow> thread \<Rightarrow> bool" where
  "th_inv g t \<longleftrightarrow>
     latch_op_of (pcs (th_latch t) 0) = (if start_at t = Start_waiting then Some Wait_latch else None) \<and>
     latch_op_of (pcs (th_latch t) 1) = (if run_at t = Run_counting then Some CountDown else None) \<and>
     (\<forall>u > 1. pcs (th_latch t) u = Idle) \<and>
     (shared (th_latch t) = (if run_at t = Run_none \<or> 0 < run_left (run_at t) then 1 else 0)) \<and>
     (run_at t \<noteq> Run_none \<and> run_at t \<noteq> Run_begin \<longrightarrow> th_tid t = g) \<and>
     (started t \<longleftrightarrow> run_at t \<noteq> Run_none) \<and> (started t \<longleftrightarrow> start_at t \<in> {Start_waiting, Start_returned True}) \<and>
     (start_at t = Start_returned True \<longrightarrow> run_left (run_at t) = 0)"

lemmas th_defs = thread_Start_def run_tid_def run_count_def run_func_def run_finish_def StartThread_end_def

lemma latch_op_of_None [simp]: "latch_op_of pc = None \<longleftrightarrow> pc = Idle"
  by (cases pc) auto

lemma latch_op_of_gate: "at_gate pc = Some op \<Longrightarrow> latch_op_of pc = Some op"
  by (cases pc) auto

lemma latch_op_of_notified: "notified n ps ps' \<Longrightarrow> latch_op_of (ps' u) = latch_op_of (ps u)"
  using notified_pc [of n ps ps' u] by auto

lemma latch_gate:
  assumes "th_inv g t" "latch_op_of (pcs (th_latch t) u) = Some op"
  shows "u = 0 \<and> op = Wait_latch \<and> start_at t = Start_waiting \<or> u = 1 \<and> op = CountDown \<and> run_at t = Run_counting"
proof -
  have "u = 0 \<or> u = 1 \<or> 1 < u" by linarith
  with assms show ?thesis by (auto simp: th_inv_def split: if_splits)
qed

lemma th_inv_step:
  assumes "th_step g t t'" "th_inv g t"
  shows "th_inv g t'"
  using assms(1)
proof cases
  case (leave u op q r n ps)
  have pc: "latch_op_of (ps v) = latch_op_of (((pcs (th_latch t))(u := Idle)) v)" for v
    by (rule latch_op_of_notified [OF leave(4)])
  have idle: "ps v = Idle \<longleftrightarrow> latch_op_of (ps v) = None" for v by simp
  from latch_gate [OF assms(2) latch_op_of_gate [OF leave(2)]] leave(1,3) assms(2) show ?thesis
    by (auto simp: th_inv_def pc idle Let_def simp del: latch_op_of_None split: if_splits)
next
  case (wait u op c)
  from latch_gate [OF assms(2) latch_op_of_gate [OF wait(2)]] wait(1) assms(2) show ?thesis
    by (auto simp: th_inv_def)
next
  case (spurious u c op)
  from latch_gate [OF assms(2), of u op] spurious assms(2) show ?thesis
    by (auto simp: th_inv_def)
next
  case (start create)
  with assms(2) show ?thesis by (auto simp: th_inv_def th_defs assert_then_Inr_iff Let_def split: if_splits)
qed (use assms(2) in \<open>auto simp: th_inv_def th_defs\<close>)

text \<open>The latch runs as a monitor.\<close>

lemma th_step_latch:
  assumes "th_step g t t'" "th_inv g t"
  shows "(mon_step latch_body)\<^sup>*\<^sup>* (th_latch t) (th_latch t')"
  using assms(1)
proof cases
  case (start create)
  then have "pcs (th_latch t) 0 = Idle" using assms(2) by (simp add: th_inv_def)
  with mon_step.call [of "th_latch t" 0 latch_body Wait_latch] start show ?thesis
    by (auto simp: thread_Start_def assert_then_Inr_iff Let_def split: if_splits)
next
  case count
  then have "pcs (th_latch t) 1 = Idle" using assms(2) by (simp add: th_inv_def)
  with mon_step.call [of "th_latch t" 1 latch_body CountDown] count show ?thesis by (auto simp: run_count_def)
next
  case (wait u op c)
  with mon_step.wait [of "th_latch t" u op latch_body c] show ?thesis by auto
next
  case (spurious u c op)
  with mon_step.spurious [of "th_latch t" u c op latch_body] show ?thesis by auto
next
  case (leave u op q r n ps)
  with mon_step.leave [of "th_latch t" u op latch_body q r n ps] show ?thesis by auto
qed (auto simp: th_defs)

lemma th_reach_ok: "th_reach g name t \<Longrightarrow> th_inv g t \<and> mon_reach latch_body 1 (th_latch t)"
  unfolding th_reach_def
proof (induction rule: rtranclp_induct)
  case base
  show ?case by (simp add: th_inv_def new_thread_def mon_init_def mon_reach_def)
next
  case (step t t')
  with th_inv_step [OF step(2)] th_step_latch [OF step(2)] show ?case by (auto simp: mon_reach_def)
qed

lemma run_left_step:
  assumes "th_step g t t'" "th_inv g t" "started t"
  shows "run_left (run_at t') \<le> run_left (run_at t)"
  using assms(1)
proof cases
  case (leave u op q r n ps)
  from latch_gate [OF assms(2) latch_op_of_gate [OF leave(2)]] leave(1) show ?thesis by auto
qed (use assms(2,3) in \<open>auto simp: th_defs assert_then_Inr_iff\<close>)

lemma start_goes_on:
  assumes "th_inv g t" "mon_reach latch_body 1 (th_latch t)" "start_at t = Start_waiting"
  shows "\<exists>t'. th_step g t t' \<and> (start_at t' = Start_returned True \<or> run_left (run_at t') < run_left (run_at t))"
proof (cases "run_at t = Run_none \<or> 0 < run_left (run_at t)")
  case False
  then have z: "shared (th_latch t) = 0" and op: "latch_op_of (pcs (th_latch t) 0) = Some Wait_latch"
    using assms(1,3) by (auto simp: th_inv_def)
  with latch.free_nobody_waits [OF assms(2) TrueI, of 0] have "at_gate (pcs (th_latch t) 0) = Some Wait_latch"
    by (cases "pcs (th_latch t) 0") auto
  from th_step.leave [OF this, of 0 "()" No_notice "(pcs (th_latch t))(0 := Idle)" g] z show ?thesis by fastforce
next
  case True
  moreover have "run_at t \<noteq> Run_none" using assms(1,3) by (auto simp: th_inv_def)
  ultimately have "run_at t = Run_begin \<or> run_at t = Run_tid \<or> run_at t = Run_counting" by (cases "run_at t") auto
  then show ?thesis
  proof (elim disjE)
    assume "run_at t = Run_begin"
    from th_step.tid [OF this, of g] this show ?thesis by (auto simp: run_tid_def)
  next
    assume "run_at t = Run_tid"
    from th_step.count [OF this, of g] this show ?thesis by (auto simp: run_count_def)
  next
    assume c: "run_at t = Run_counting"
    then have op: "latch_op_of (pcs (th_latch t) 1) = Some CountDown" using assms(1) by (simp add: th_inv_def)
    have "pcs (th_latch t) 1 \<noteq> Waiting d CountDown" for d
      using latch.mon_okD(3) [OF latch.mon_reach_ok [OF assms(2) TrueI], of 1 d CountDown] by auto
    with op have g: "at_gate (pcs (th_latch t) 1) = Some CountDown" by (cases "pcs (th_latch t) 1") auto
    have "\<exists>n. latch_body CountDown (shared (th_latch t)) = Leave (shared (th_latch t) - 1) () n \<and>
        (\<exists>ps. notified n ((pcs (th_latch t))(1 := Idle)) ps)"
      by (auto simp: Let_def)
    with th_step.leave [OF g] c show ?thesis by fastforce
  qed
qed

subsection \<open>Properties\<close>

text \<open>
  C36: \<open>Thread::Start\<close> returns only once the new thread runs and has stored its id, and it does
  return: in every state the two threads can reach while it waits, a step brings the new
  thread closer to counting down or lets \<open>Start\<close> return, and no step goes back.
\<close>

theorem thread_start_handshake:
  assumes "th_reach g name t"
  shows "(start_at t = Start_returned True \<longrightarrow> th_tid t = g \<and> run_at t \<noteq> Run_none \<and> run_left (run_at t) = 0) \<and>
    (start_at t = Start_waiting \<longrightarrow>
      (\<exists>t'. th_step g t t' \<and> (start_at t' = Start_returned True \<or> run_left (run_at t') < run_left (run_at t)))) \<and>
    (\<forall>t'. th_step g t t' \<longrightarrow> started t \<longrightarrow> run_left (run_at t') \<le> run_left (run_at t))"
proof -
  from th_reach_ok [OF assms] have inv: "th_inv g t" and m: "mon_reach latch_body 1 (th_latch t)" by auto
  have "th_tid t = g \<and> run_at t \<noteq> Run_none \<and> run_left (run_at t) = 0" if "start_at t = Start_returned True"
    using inv that by (auto simp: th_inv_def)
  with start_goes_on [OF inv m] run_left_step [OF _ inv] show ?thesis by blast
qed

definition demo_thread :: thread where
  "demo_thread = (new_thread ''worker'')\<lparr>started := True, run_at := Run_tid, start_at := Start_waiting, th_tid := 77,
     th_latch := \<lparr>shared = 1, pcs = (\<lambda>u. Idle)(0 := Entering Wait_latch), returned = []\<rparr>\<rparr>"

lemma demo_thread_reach: "th_reach 77 ''worker'' demo_thread"
proof -
  let ?t0 = "new_thread ''worker''"
  obtain t1 where t1: "thread_Start 0 ?t0 = Inr t1" "run_tid 77 t1 = demo_thread"
    by (simp add: thread_Start_def run_tid_def new_thread_def mon_init_def demo_thread_def)
  have "th_step 77 ?t0 t1" by (rule th_step.start [OF _ t1(1)]) (simp add: new_thread_def)
  moreover have "run_at t1 = Run_begin" using t1(1) by (auto simp: thread_Start_def new_thread_def)
  from th_step.tid [OF this, of 77] have "th_step 77 t1 demo_thread" by (simp add: t1(2))
  ultimately show ?thesis unfolding th_reach_def by (meson converse_rtranclp_into_rtranclp rtranclp.rtrancl_refl)
qed

theorem thread_start_handshake_witness:
  "\<exists>t'. th_step 77 demo_thread t' \<and> (start_at t' = Start_returned True \<or> run_left (run_at t') < 2)"
proof -
  have "start_at demo_thread = Start_waiting" "run_left (run_at demo_thread) = 2" by (simp_all add: demo_thread_def)
  with thread_start_handshake [OF demo_thread_reach] show ?thesis by auto
qed

end
