(* ===== verification/Logger.thy ===== *)
theory Logger
  imports LogStream CurrentThread
begin

section \<open>\<open>log/Logger\<close>: one line of the log\<close>

text \<open>
  A statement \<open>LOG_INFO << a << b;\<close> makes a temporary \<open>Logger\<close>, puts the items into its
  stream and destroys it, which hands the line to the output function. The answers of the
  system (\<open>gettimeofday\<close>, \<open>localtime_r\<close>, \<open>gettid\<close>, \<open>strerror_r\<close>) and the old contents of
  its arrays are a record; the output and flush functions act on a state of their own.
\<close>

subsection \<open>Levels\<close>

datatype log_level = TRACE | DEBUG | INFO | WARN | ERROR | FATAL | LOG_LEVELS_NUM

fun level_num :: "log_level \<Rightarrow> nat" where
  "level_num TRACE = 0"
| "level_num DEBUG = 1"
| "level_num INFO = 2"
| "level_num WARN = 3"
| "level_num ERROR = 4"
| "level_num FATAL = 5"
| "level_num LOG_LEVELS_NUM = 6"

instantiation log_level :: linorder
begin

definition less_eq_log_level :: "log_level \<Rightarrow> log_level \<Rightarrow> bool" where
  "less_eq_log_level a b \<longleftrightarrow> level_num a \<le> level_num b"

definition less_log_level :: "log_level \<Rightarrow> log_level \<Rightarrow> bool" where
  "less_log_level a b \<longleftrightarrow> level_num a < level_num b"

instance
proof
  fix a b :: log_level
  assume "a \<le> b" "b \<le> a"
  then show "a = b" by (cases a; cases b) (simp_all add: less_eq_log_level_def)
qed (auto simp: less_eq_log_level_def less_log_level_def)

end

definition LogLevelName :: "string list" where
  "LogLevelName = [''TRACE '', ''DEBUG '', ''INFO  '', ''WARN  '', ''ERROR '', ''FATAL '']"

subsection \<open>The answers of the system\<close>

record tm =
  tm_year :: int
  tm_mon :: int
  tm_mday :: int
  tm_hour :: int
  tm_min :: int
  tm_sec :: int

record 'd log_env =
  env_now :: "int \<times> int"
  env_localtime :: "int \<Rightarrow> tm"
  env_gettid :: int
  env_strerror :: "int \<Rightarrow> string"
  env_fmt :: "'d \<Rightarrow> string"
  env_timebuf :: string
  env_mem :: string

subsection \<open>A logger\<close>

text \<open>\<open>T(str, len)\<close> reads \<open>str\<close> to its NUL and checks the length; then it is appended.\<close>

definition T_put :: "string \<Rightarrow> nat \<Rightarrow> fixbuf \<Rightarrow> fixbuf res" where
  "T_put str len b =
     (if CHR 0x00 \<in> set str then assert_then (length (c_str str) = len) (Append str len b) else Inl Undefined)"

definition log_time_text :: "tm \<Rightarrow> int \<Rightarrow> string" where
  "log_time_text tm microseconds =
     fmt_space 4 (tm_year tm + 1900) @ fmt_zero 2 (tm_mon tm + 1) @ fmt_zero 2 (tm_mday tm) @ '' '' @
     fmt_zero 2 (tm_hour tm) @ '':'' @ fmt_zero 2 (tm_min tm) @ '':'' @ fmt_zero 2 (tm_sec tm) @ ''.'' @
     fmt_zero 6 microseconds @ '' ''"

definition FormatTime :: "'d log_env \<Rightarrow> fixbuf \<Rightarrow> fixbuf res" where
  "FormatTime E b =
     (let (seconds, microseconds) = env_now E;
          (t_timebuf, len) = snprintf_to (log_time_text (env_localtime E seconds) microseconds) (env_timebuf E)
      in assert_then (len = 25) (T_put t_timebuf 25 b))"

record logger =
  lg_stream :: fixbuf
  lg_filename :: string
  lg_line :: "32 word"
  lg_level :: log_level

text \<open>What stands behind the last slash, if there is one.\<close>

definition base_name :: "string \<Rightarrow> string" where
  "base_name filename = rev (takeWhile (\<lambda>c. c \<noteq> CHR ''/'') (rev filename))"

definition new_Logger ::
  "'d log_env \<Rightarrow> thread_local \<Rightarrow> string \<Rightarrow> 32 word \<Rightarrow> log_level \<Rightarrow> string option \<Rightarrow> 32 word \<Rightarrow>
     (logger \<times> thread_local) res" where
  "new_Logger E l filename line level func saved_errno =
     res_bind (FormatTime E (new_fixbuf (env_mem E))) (\<lambda>b.
     let l = snd (tid (env_gettid E) l) in
     res_bind (T_put (t_tid_str l) (nat (t_tid_str_len l)) b) (\<lambda>b.
     res_bind (if level_num level < length LogLevelName
               then T_put (LogLevelName ! level_num level @ [CHR 0x00]) 6 b else Inl Undefined) (\<lambda>b.
     res_bind (if saved_errno \<noteq> 0
               then stream_puts (env_fmt E) [LCStr (Some (env_strerror E (sint saved_errno))), LCStr (Some '' (errno=''),
                 LInt saved_errno, LCStr (Some '') '')] b
               else Inr b) (\<lambda>b.
     res_bind (case func of Some f \<Rightarrow> stream_puts (env_fmt E) [LCStr (Some f), LCStr (Some '' '')] b | None \<Rightarrow> Inr b) (\<lambda>b.
     Inr (\<lparr>lg_stream = b, lg_filename = base_name filename, lg_line = line, lg_level = level\<rparr>, l))))))"

record 's log_global =
  g_loglevel :: log_level
  g_output :: "string \<Rightarrow> 's \<Rightarrow> 's"
  g_flush :: "'s \<Rightarrow> 's"

datatype 's log_end = Goes_on 's | Aborts 's

definition delete_Logger :: "'d log_env \<Rightarrow> 's log_global \<Rightarrow> logger \<Rightarrow> 's \<Rightarrow> 's log_end res" where
  "delete_Logger E G lg s =
     res_bind (stream_puts (env_fmt E) [LCStr (Some '' - ''), LCStr (Some (lg_filename lg)), LChar CHR '':'',
       LInt (lg_line lg), LChar CHR 0x0A] (lg_stream lg)) (\<lambda>b.
     let s = g_output G (fb_text b) s in
     if lg_level lg = FATAL then Inr (Aborts (g_flush G s)) else Inr (Goes_on s))"

subsection \<open>The global settings, and where a line goes by default\<close>

definition Level :: "'s log_global \<Rightarrow> log_level" where "Level G = g_loglevel G"

definition SetLevel :: "log_level \<Rightarrow> 's log_global \<Rightarrow> 's log_global" where
  "SetLevel level G = G\<lparr>g_loglevel := level\<rparr>"

definition SetOutput :: "(string \<Rightarrow> 's \<Rightarrow> 's) \<Rightarrow> 's log_global \<Rightarrow> 's log_global" where
  "SetOutput out G = G\<lparr>g_output := out\<rparr>"

definition SetFlush :: "('s \<Rightarrow> 's) \<Rightarrow> 's log_global \<Rightarrow> 's log_global" where
  "SetFlush flush G = G\<lparr>g_flush := flush\<rparr>"

text \<open>\<open>stdout\<close>: what its buffer holds and what has left it.\<close>

record std_out =
  so_buffered :: string
  so_written :: string

definition DefaultOutput :: "string \<Rightarrow> std_out \<Rightarrow> std_out" where
  "DefaultOutput msg f = f\<lparr>so_buffered := so_buffered f @ msg\<rparr>"

definition DefaultFlush :: "std_out \<Rightarrow> std_out" where
  "DefaultFlush f = \<lparr>so_buffered = [], so_written = so_written f @ so_buffered f\<rparr>"

definition log_defaults :: "std_out log_global" where
  "log_defaults = \<lparr>g_loglevel = INFO, g_output = DefaultOutput, g_flush = DefaultFlush\<rparr>"

subsection \<open>The statements\<close>

datatype log_macro =
  LOG_TRACE | LOG_DEBUG | LOG_INFO | LOG_WARN | LOG_ERROR | LOG_FATAL | LOG_SYSERR | LOG_SYSFATAL

fun macro_level :: "log_macro \<Rightarrow> log_level" where
  "macro_level LOG_TRACE = TRACE"
| "macro_level LOG_DEBUG = DEBUG"
| "macro_level LOG_INFO = INFO"
| "macro_level LOG_WARN = WARN"
| "macro_level LOG_ERROR = ERROR"
| "macro_level LOG_FATAL = FATAL"
| "macro_level LOG_SYSERR = ERROR"
| "macro_level LOG_SYSFATAL = FATAL"

text \<open>The first three test the level and name the function, the last two give \<open>errno\<close>.\<close>

definition macro_checked :: "log_macro \<Rightarrow> bool" where
  "macro_checked m \<longleftrightarrow> m \<in> {LOG_TRACE, LOG_DEBUG, LOG_INFO}"

definition macro_errno :: "log_macro \<Rightarrow> bool" where
  "macro_errno m \<longleftrightarrow> m \<in> {LOG_SYSERR, LOG_SYSFATAL}"

definition log_statement ::
  "'d log_env \<Rightarrow> 's log_global \<Rightarrow> log_macro \<Rightarrow> string \<Rightarrow> 32 word \<Rightarrow> string \<Rightarrow> 32 word \<Rightarrow> 'd log_arg list \<Rightarrow>
     thread_local \<Rightarrow> 's \<Rightarrow> (thread_local \<times> 's log_end) res" where
  "log_statement E G m filename line func errno items l s =
     (if macro_checked m \<and> \<not> Level G \<le> macro_level m then Inr (l, Goes_on s)
      else
        res_bind (new_Logger E l filename line (macro_level m) (if macro_checked m then Some func else None)
          (if macro_errno m then errno else 0)) (\<lambda>(lg, l).
        res_bind (stream_puts (env_fmt E) items (lg_stream lg)) (\<lambda>b.
        res_bind (delete_Logger E G (lg\<lparr>lg_stream := b\<rparr>) s) (\<lambda>e. Inr (l, e)))))"

subsection \<open>The line as a list of items\<close>

definition line_items ::
  "'d log_env \<Rightarrow> log_macro \<Rightarrow> string \<Rightarrow> 32 word \<Rightarrow> string \<Rightarrow> 32 word \<Rightarrow> 'd log_arg list \<Rightarrow> 'd log_arg list" where
  "line_items E m filename line func errno items =
     [LString (log_time_text (env_localtime E (fst (env_now E))) (snd (env_now E))),
      LString (fmt_space 5 (env_gettid E) @ '' ''), LString (LogLevelName ! level_num (macro_level m))] @
     (if macro_errno m \<and> errno \<noteq> 0
      then [LCStr (Some (env_strerror E (sint errno))), LCStr (Some '' (errno=''), LInt errno, LCStr (Some '') '')] else []) @
     (if macro_checked m then [LCStr (Some func), LCStr (Some '' '')] else []) @ items @
     [LCStr (Some '' - ''), LCStr (Some (base_name filename)), LChar CHR '':'', LInt line, LChar CHR 0x0A]"

definition tm_ok :: "tm \<Rightarrow> bool" where
  "tm_ok tm \<longleftrightarrow> 0 \<le> tm_year tm + 1900 \<and> tm_year tm + 1900 < 10000 \<and> 0 \<le> tm_mon tm \<and> tm_mon tm < 12 \<and>
     0 < tm_mday tm \<and> tm_mday tm \<le> 31 \<and> 0 \<le> tm_hour tm \<and> tm_hour tm < 24 \<and> 0 \<le> tm_min tm \<and> tm_min tm < 60 \<and>
     0 \<le> tm_sec tm \<and> tm_sec tm \<le> 60"

definition log_env_ok :: "'d log_env \<Rightarrow> bool" where
  "log_env_ok E \<longleftrightarrow> tm_ok (env_localtime E (fst (env_now E))) \<and> 0 \<le> snd (env_now E) \<and> snd (env_now E) < 1000000 \<and>
     (\<forall>d. length (env_fmt E d) < 32) \<and> length (env_timebuf E) = 64 \<and> length (env_mem E) = kSmallBuffer"

lemma log_time_text_ok: "tm_ok tm \<Longrightarrow> 0 \<le> u \<Longrightarrow> u < 1000000 \<Longrightarrow> length (log_time_text tm u) = 25 \<and> CHR 0x00 \<notin> set (log_time_text tm u)"
  by (simp add: log_time_text_def tm_ok_def length_fmt_zero length_fmt_space)

lemma T_put_text:
  assumes "CHR 0x00 \<in> set str" "c_str str = t"
  shows "T_put str (length t) b = stream_put fmt (LString t) b"
proof -
  have t: "take (length t) str = t" unfolding assms(2) [symmetric] c_str_def by (rule takeWhile_eq_take [symmetric])
  have "length t \<le> length str" using assms(2) length_takeWhile_le [of _ str] by (auto simp: c_str_def)
  with t show ?thesis using assms by (simp add: T_put_def Append_def mem_read_def Base.slice_def)
qed

lemma stream_puts_append:
  "stream_puts fmt (as @ bs) b = res_bind (stream_puts fmt as b) (stream_puts fmt bs)"
proof (induction as arbitrary: b)
  case (Cons a as)
  then show ?case by (cases "stream_put fmt a b") simp_all
qed simp

text \<open>The part of the line that the constructor writes.\<close>

definition head_items :: "'d log_env \<Rightarrow> log_level \<Rightarrow> string option \<Rightarrow> 32 word \<Rightarrow> 'd log_arg list" where
  "head_items E level func errno =
     [LString (log_time_text (env_localtime E (fst (env_now E))) (snd (env_now E))),
      LString (fmt_space 5 (env_gettid E) @ '' ''), LString (LogLevelName ! level_num level)] @
     (if errno \<noteq> 0
      then [LCStr (Some (env_strerror E (sint errno))), LCStr (Some '' (errno=''), LInt errno, LCStr (Some '') '')] else []) @
     (case func of Some f \<Rightarrow> [LCStr (Some f), LCStr (Some '' '')] | None \<Rightarrow> [])"

lemma FormatTime_eq:
  assumes "log_env_ok E"
  shows "FormatTime E b = stream_put (env_fmt E) (LString (log_time_text (env_localtime E (fst (env_now E))) (snd (env_now E)))) b"
proof -
  let ?t = "log_time_text (env_localtime E (fst (env_now E))) (snd (env_now E))"
  have t: "length ?t = 25" "CHR 0x00 \<notin> set ?t" using log_time_text_ok assms by (auto simp: log_env_ok_def)
  with assms have "length ?t < length (env_timebuf E)" by (simp add: log_env_ok_def)
  note p = snprintf_to_fits [OF this t(2)]
  let ?b = "fst (snprintf_to ?t (env_timebuf E))"
  have "CHR 0x00 \<in> set ?b"
  proof (rule ccontr)
    assume "CHR 0x00 \<notin> set ?b"
    then have "c_str ?b = ?b" by (rule c_str_id)
    with p(2,3) t(1) assms show False by (simp add: log_env_ok_def)
  qed
  from T_put_text [OF this p(2), of b "env_fmt E"] p(1) t(1) show ?thesis
    by (simp add: FormatTime_def split_beta Let_def)
qed

lemma level_name_put:
  assumes "level \<noteq> LOG_LEVELS_NUM"
  shows "level_num level < length LogLevelName"
    "T_put (LogLevelName ! level_num level @ [CHR 0x00]) 6 b = stream_put fmt (LString (LogLevelName ! level_num level)) b"
proof -
  have n: "length (LogLevelName ! level_num level) = 6" "CHR 0x00 \<notin> set (LogLevelName ! level_num level)"
    using assms by (cases level; simp add: LogLevelName_def)+
  show "level_num level < length LogLevelName" using assms by (cases level) (simp_all add: LogLevelName_def)
  show "T_put (LogLevelName ! level_num level @ [CHR 0x00]) 6 b = stream_put fmt (LString (LogLevelName ! level_num level)) b"
    using T_put_text [OF _ c_str_terminated [OF n(2)], of "[]" b fmt] n(1) by simp
qed

lemma tid_put:
  assumes "local_ok g l" "t_tid l = g"
  shows "T_put (t_tid_str l) (nat (t_tid_str_len l)) b = stream_put fmt (LString (fmt_space 5 g @ '' '')) b"
proof -
  have l: "0 < g" "g < 2 ^ 31" "length (t_tid_str l) = 32" "c_str (t_tid_str l) = fmt_space 5 g @ '' ''"
    "t_tid_str_len l = int (length (fmt_space 5 g @ '' ''))"
    using assms by (auto simp: local_ok_def)
  have "CHR 0x00 \<in> set (t_tid_str l)"
  proof (rule ccontr)
    assume "CHR 0x00 \<notin> set (t_tid_str l)"
    from c_str_id [OF this] l(3,4) tid_text [OF l(1,2)] show False by simp
  qed
  moreover have "nat (t_tid_str_len l) = length (fmt_space 5 g @ '' '')" unfolding l(5) by (rule nat_int)
  ultimately show ?thesis using T_put_text [OF _ l(4), of b fmt] by simp
qed

lemma new_Logger_eq:
  assumes "log_env_ok E" "local_ok (env_gettid E) l" "level \<noteq> LOG_LEVELS_NUM"
  shows "new_Logger E l filename line level func errno =
    res_bind (stream_puts (env_fmt E) (head_items E level func errno) (new_fixbuf (env_mem E))) (\<lambda>b.
      Inr (\<lparr>lg_stream = b, lg_filename = base_name filename, lg_line = line, lg_level = level\<rparr>, snd (tid (env_gettid E) l)))"
proof -
  from tid_ok [OF assms(2)] obtain l' where l': "tid (env_gettid E) l = (env_gettid E, l')" "local_ok (env_gettid E) l'"
    "t_tid l' = env_gettid E" by blast
  show ?thesis
    unfolding new_Logger_def FormatTime_eq [OF assms(1)] head_items_def stream_puts_append
    using level_name_put(1) [OF assms(3)] level_name_put(2) [OF assms(3), where fmt = "env_fmt E"] tid_put [OF l'(2,3), where fmt = "env_fmt E"]
    by (simp add: l'(1) res_bind_assoc split: option.split)
qed

lemma macro_level_ok [simp]: "macro_level m \<noteq> LOG_LEVELS_NUM"
  by (cases m) simp_all

lemma line_items_eq:
  "line_items E m filename line func errno items =
     head_items E (macro_level m) (if macro_checked m then Some func else None) (if macro_errno m then errno else 0) @ items @
     [LCStr (Some '' - ''), LCStr (Some (base_name filename)), LChar CHR '':'', LInt line, LChar CHR 0x0A]"
  by (simp add: line_items_def head_items_def)

text \<open>A statement that logs is its items put into an empty stream, and the line handed on.\<close>

lemma log_statement_eq:
  assumes "log_env_ok E" "local_ok (env_gettid E) l" "\<not> (macro_checked m \<and> \<not> Level G \<le> macro_level m)"
  shows "log_statement E G m filename line func errno items l s =
    res_bind (stream_puts (env_fmt E) (line_items E m filename line func errno items) (new_fixbuf (env_mem E))) (\<lambda>b.
      Inr (snd (tid (env_gettid E) l),
        if macro_level m = FATAL then Aborts (g_flush G (g_output G (fb_text b) s)) else Goes_on (g_output G (fb_text b) s)))"
  unfolding log_statement_def if_not_P [OF assms(3)] new_Logger_eq [OF assms(1,2) macro_level_ok] line_items_eq stream_puts_append
  by (cases "macro_level m = FATAL") (simp_all add: delete_Logger_def res_bind_assoc Let_def)

subsection \<open>Properties\<close>


definition demo_env :: "nat log_env" where
  "demo_env = \<lparr>env_now = (1577836800, 42),
     env_localtime = (\<lambda>t. \<lparr>tm_year = 120, tm_mon = 0, tm_mday = 1, tm_hour = 8, tm_min = 0, tm_sec = 0\<rparr>),
     env_gettid = 77, env_strerror = (\<lambda>e. ''No such file''), env_fmt = (\<lambda>d. ''1.5''),
     env_timebuf = replicate 64 (CHR 0x00), env_mem = replicate kSmallBuffer (CHR 0x00)\<rparr>"

definition demo_line :: string where
  "demo_line = ''20200101 08:00:00.000042    77 FATAL No such file (errno=2) open - a.cc:12'' @ [CHR 0x0A]"

lemma demo_line_items:
  "concat (map (arg_text (env_fmt demo_env)) (line_items demo_env LOG_SYSFATAL ''x/a.cc'' 12 ''main'' 2 [LCStr (Some ''open'')])) =
     demo_line"
  by code_simp


text \<open>What the end of the line loses: with no byte left for a string, none of it is written.\<close>

lemma full_line_loses_its_end:
  assumes "length t = kSmallBuffer - 1"
  shows "log_text kSmallBuffer fmt [LCStr (Some '' - ''), LCStr (Some (CHR ''a'' # file)), LChar CHR '':'', LInt line, LChar CHR 0x0A] t = t"
  using assms by (simp add: log_append_def c_text_def c_str_def kSmallBuffer_def)

end
