(* ===== verification/Config.thy ===== *)
theory Config
  imports Text
begin

section \<open>\<open>util/Config\<close>: the configuration file\<close>

text \<open>
  The parser works on one line at a time, a C string of at most 1023 characters as \<open>fgets\<close>
  delivers it; the pointer of \<open>LineParser\<close> is the rest of the line. Reading past the
  terminating NUL does not occur: \<open>Skip(1)\<close> only follows a character that matched.
\<close>

subsection \<open>Characters\<close>

text \<open>\<open>isspace\<close> and \<open>tolower\<close> in the C locale.\<close>

definition is_space :: "char \<Rightarrow> bool" where
  "is_space c \<longleftrightarrow> c = CHR '' '' \<or> (9 :: nat) \<le> of_char c \<and> (of_char c :: nat) \<le> 13"

definition to_lower :: "char \<Rightarrow> char" where
  "to_lower c = (if (65 :: nat) \<le> of_char c \<and> (of_char c :: nat) \<le> 90 then char_of ((of_char c :: nat) + 32) else c)"

definition MakeKey :: "string \<Rightarrow> string \<Rightarrow> string" where
  "MakeKey sec nam = map to_lower (sec @ ''.'' @ nam)"

subsection \<open>\<open>LineParser\<close>\<close>

definition SkipSpace :: "string \<Rightarrow> string" where
  "SkipSpace line = dropWhile is_space line"

definition Strip :: "string \<Rightarrow> string" where
  "Strip s = rev (dropWhile is_space (rev (dropWhile is_space s)))"

text \<open>\<open>*line_\<close>, with the terminating NUL.\<close>

definition char_at :: "string \<Rightarrow> char" where
  "char_at line = (case line of [] \<Rightarrow> CHR 0x00 | c # s \<Rightarrow> c)"

definition Peek :: "string \<Rightarrow> char \<times> string" where
  "Peek line = (let l = SkipSpace line in (char_at l, l))"

definition Match :: "char \<Rightarrow> string \<Rightarrow> bool \<times> string" where
  "Match c line = (let l = SkipSpace line in (char_at l = c, l))"

text \<open>Each \<open>Till\<close> returns its text and the new pointer.\<close>

definition Till :: "char \<Rightarrow> string \<Rightarrow> string \<times> string" where
  "Till c line =
     (let l = SkipSpace line; e = dropWhile (\<lambda>x. x \<noteq> c) l in
      if e = [] then ([], l) else (Strip (takeWhile (\<lambda>x. x \<noteq> c) l), e))"

definition TillEnd :: "string \<Rightarrow> string \<times> string" where
  "TillEnd line =
     (let l = SkipSpace line; P = (\<lambda>x. \<not> is_space x \<and> x \<noteq> CHR ''#'') in
      (Strip (takeWhile P l), dropWhile P l))"

definition TillSpace :: "string \<Rightarrow> string \<times> string" where
  "TillSpace line =
     (let l = SkipSpace line; P = (\<lambda>x. \<not> is_space x) in (Strip (takeWhile P l), dropWhile P l))"

subsection \<open>\<open>Parse\<close>\<close>

record parse_state =
  ps_section :: string
  ps_name :: string
  ps_config :: "string \<rightharpoonup> string list"
  ps_line_num :: nat
  ps_error :: bool

definition push_value :: "string \<Rightarrow> string \<Rightarrow> (string \<rightharpoonup> string list) \<Rightarrow> (string \<rightharpoonup> string list)" where
  "push_value key v conf = conf(key \<mapsto> (case conf key of None \<Rightarrow> [] | Some vs \<Rightarrow> vs) @ [v])"

definition parse_section :: "string \<Rightarrow> parse_state \<Rightarrow> parse_state" where
  "parse_section l s =
     (let (sec, l') = Till CHR '']'' (drop 1 l) in
      s\<lparr>ps_section := sec, ps_error := \<not> fst (Match CHR '']'' l'), ps_name := []\<rparr>)"

definition parse_continuation :: "string \<Rightarrow> parse_state \<Rightarrow> parse_state" where
  "parse_continuation l s =
     (if ps_name s \<noteq> []
      then s\<lparr>ps_config := push_value (MakeKey (ps_section s) (ps_name s)) (fst (TillEnd l)) (ps_config s)\<rparr>
      else s\<lparr>ps_error := True\<rparr>)"

definition parse_entry :: "string \<Rightarrow> parse_state \<Rightarrow> parse_state" where
  "parse_entry l s =
     (let (nam, l1) = Till CHR ''='' l; (eq, l2) = Match CHR ''='' l1;
          (nam, ok, l3) = (if eq then (nam, True, l2)
             else let (nam', l1') = Till CHR '':'' l; (eq', l2') = Match CHR '':'' l1' in (nam', eq', l2'))
      in if ok
         then s\<lparr>ps_name := nam,
                ps_config := push_value (MakeKey (ps_section s) nam) (fst (TillSpace (drop 1 l3))) (ps_config s)\<rparr>
         else s\<lparr>ps_name := nam, ps_error := True\<rparr>)"

definition parse_line :: "string \<Rightarrow> parse_state \<Rightarrow> parse_state" where
  "parse_line raw s0 =
     (let s = s0\<lparr>ps_line_num := ps_line_num s0 + 1\<rparr>; line = c_str raw; (c, l) = Peek line in
      if c = CHR ''#'' \<or> c = CHR 0x00 then s
      else if c = CHR ''['' then parse_section l s
      else if is_space (char_at line) then parse_continuation l s
      else parse_entry l s)"

text \<open>\<open>fgets(line, n + 1, file)\<close>: up to \<open>n\<close> characters, to the end of the line; and the rest.\<close>

fun get_line :: "nat \<Rightarrow> string \<Rightarrow> string \<times> string" where
  "get_line 0 file = ([], file)"
| "get_line (Suc n) [] = ([], [])"
| "get_line (Suc n) (c # file) =
     (if c = CHR 0x0A then ([c], file) else let (l, rest) = get_line n file in (c # l, rest))"

definition MAXLINE :: nat where "MAXLINE = 1024"

lemma get_line_append: "fst (get_line n s) @ snd (get_line n s) = s"
  by (induction n s rule: get_line.induct) (auto simp: split_beta Let_def)

lemma get_line_progress: "0 < n \<Longrightarrow> s \<noteq> [] \<Longrightarrow> length (snd (get_line n s)) < length s"
proof -
  assume "0 < n" "s \<noteq> []"
  then have "fst (get_line n s) \<noteq> []" by (cases n; cases s) (auto simp: split_beta Let_def)
  moreover have "length s = length (fst (get_line n s)) + length (snd (get_line n s))"
    by (metis get_line_append length_append)
  ultimately show ?thesis by simp
qed

function parse_loop :: "string \<Rightarrow> parse_state \<Rightarrow> parse_state" where
  "parse_loop file s =
     (if ps_error s \<or> file = [] then s
      else parse_loop (snd (get_line (MAXLINE - 1) file)) (parse_line (fst (get_line (MAXLINE - 1) file)) s))"
  by auto
termination
  by (relation "measure (\<lambda>(file, s). length file)") (auto simp: MAXLINE_def intro: get_line_progress)

declare parse_loop.simps [simp del]

record config =
  cfg_filename :: string
  cfg_config :: "string \<rightharpoonup> string list"

text \<open>The file is its content, or \<open>None\<close> when it cannot be opened.\<close>

definition Parse :: "string \<Rightarrow> string option \<Rightarrow> config \<Rightarrow> int \<times> config" where
  "Parse filename file cfg =
     (let cfg = cfg\<lparr>cfg_filename := filename\<rparr> in
      case file of
        None \<Rightarrow> (- 1, cfg)
      | Some bytes \<Rightarrow>
          let s = parse_loop bytes \<lparr>ps_section = [], ps_name = [], ps_config = cfg_config cfg, ps_line_num = 0, ps_error = False\<rparr>
          in (if ps_error s then int (ps_line_num s) else 0, cfg\<lparr>cfg_config := ps_config s\<rparr>))"

subsection \<open>Lookups\<close>

text \<open>\<open>front()\<close> of an empty list is undefined behaviour.\<close>

definition GetString :: "string \<Rightarrow> string \<Rightarrow> string \<Rightarrow> config \<Rightarrow> string res" where
  "GetString sec nam def cfg =
     (case cfg_config cfg (MakeKey sec nam) of
        None \<Rightarrow> Inr def
      | Some [] \<Rightarrow> Inl Undefined
      | Some (v # vs) \<Rightarrow> Inr v)"

definition GetList :: "string \<Rightarrow> string \<Rightarrow> config \<Rightarrow> string list" where
  "GetList sec nam cfg = (case cfg_config cfg (MakeKey sec nam) of None \<Rightarrow> [] | Some vs \<Rightarrow> vs)"

definition GetBool :: "string \<Rightarrow> string \<Rightarrow> bool \<Rightarrow> config \<Rightarrow> bool res" where
  "GetBool sec nam def cfg =
     res_bind (GetString sec nam [] cfg) (\<lambda>s.
     let b = map to_lower s in
     Inr (if b = ''true'' \<or> b = ''yes'' \<or> b = ''on'' \<or> b = ''1'' then True
          else if b = ''false'' \<or> b = ''no'' \<or> b = ''off'' \<or> b = ''0'' then False
          else def))"

text \<open>\<open>strtol(begin, &end, 0)\<close>: the value and the number of characters up to \<open>end\<close>; a
  number out of range is clipped.\<close>

definition digit_of :: "char \<Rightarrow> nat" where
  "digit_of c = (if is_digit c then digit_value c
     else if (97 :: nat) \<le> of_char (to_lower c) \<and> (of_char (to_lower c) :: nat) \<le> 122 then of_char (to_lower c) - 87 else 99)"

definition strtol_digits :: "nat \<Rightarrow> string \<Rightarrow> nat \<times> nat" where
  "strtol_digits base s =
     (let ds = takeWhile (\<lambda>c. digit_of c < base) s in (foldl (\<lambda>n c. base * n + digit_of c) 0 ds, length ds))"

definition clip_long :: "int \<Rightarrow> int" where
  "clip_long n = max (- (2 ^ 63)) (min (2 ^ 63 - 1) n)"

definition strtol :: "string \<Rightarrow> int \<times> nat" where
  "strtol s =
     (let ws = takeWhile is_space s; s1 = dropWhile is_space s;
          (neg, k, s2) = (case s1 of c # t \<Rightarrow>
             if c = CHR ''-'' then (True, 1, t) else if c = CHR ''+'' then (False, 1, t) else (False, 0, s1) | [] \<Rightarrow> (False, 0, s1));
          hex = (2 < length s2 \<and> hd s2 = CHR ''0'' \<and> to_lower (s2 ! 1) = CHR ''x'' \<and> digit_of (s2 ! 2) < 16);
          (n, len) = (if hex then (let (n, j) = strtol_digits 16 (drop 2 s2) in (n, j + 2))
             else if s2 \<noteq> [] \<and> hd s2 = CHR ''0'' then strtol_digits 8 s2 else strtol_digits 10 s2)
      in if len = 0 then (0, 0) else (clip_long (if neg then - int n else int n), length ws + k + len))"

definition GetInt :: "string \<Rightarrow> string \<Rightarrow> int \<Rightarrow> config \<Rightarrow> int res" where
  "GetInt sec nam def cfg =
     res_bind (GetString sec nam [] cfg) (\<lambda>s. let (val, len) = strtol (c_str s) in Inr (if 0 < len then val else def))"

text \<open>\<open>strtod\<close> is a parameter: the value and the number of characters up to \<open>end\<close>.\<close>

definition GetDouble :: "(string \<Rightarrow> 'd \<times> nat) \<Rightarrow> string \<Rightarrow> string \<Rightarrow> 'd \<Rightarrow> config \<Rightarrow> 'd res" where
  "GetDouble strtod sec nam def cfg =
     res_bind (GetString sec nam [] cfg) (\<lambda>s. let (val, len) = strtod (c_str s) in Inr (if 0 < len then val else def))"

subsection \<open>Lines that are wrong\<close>

text \<open>A \<open>#\<close> inside a value is part of it on the line of the name and cuts it on a
  continuation line.\<close>

lemma continuation_cuts_hash:
  "fst (TillSpace ''4#4 '') = ''4#4''" "fst (TillEnd ''4#4 '') = ''4''"
  by code_simp+

text \<open>What makes a line an error, without the parser: an open section, a continuation of
  nothing, an entry with neither of its separators.\<close>

definition bad_line :: "string \<Rightarrow> string \<Rightarrow> bool" where
  "bad_line nam raw \<longleftrightarrow>
     (let line = c_str raw; l = SkipSpace line in
      l \<noteq> [] \<and> hd l \<noteq> CHR ''#'' \<and>
      (if hd l = CHR ''['' then CHR '']'' \<notin> set (tl l)
       else if is_space (hd line) then nam = []
       else CHR ''='' \<notin> set l \<and> CHR '':'' \<notin> set l))"

lemma SkipSpace_hd: "SkipSpace s = c # t \<Longrightarrow> \<not> is_space c"
  unfolding SkipSpace_def by (metis hd_dropWhile list.distinct(1) list.sel(1))

lemma SkipSpace_idem: "\<not> is_space c \<Longrightarrow> SkipSpace (c # s) = c # s"
  by (simp add: SkipSpace_def)

lemma SkipSpace_skip [simp]: "SkipSpace (SkipSpace s) = SkipSpace s"
  by (simp add: SkipSpace_def)

lemma set_SkipSpace: "\<not> is_space c \<Longrightarrow> c \<in> set (SkipSpace s) \<longleftrightarrow> c \<in> set s"
  unfolding SkipSpace_def by (metis UnE set_append set_dropWhileD set_takeWhileD takeWhile_dropWhile_id)

text \<open>Whether a \<open>Till\<close> finds its character, as the \<open>Match\<close> after it tells.\<close>

lemma Match_Till:
  assumes "\<not> is_space c" "c \<noteq> CHR 0x00"
  shows "fst (Match c (snd (Till c l))) \<longleftrightarrow> c \<in> set l"
proof (cases "c \<in> set l")
  case True
  then have "c \<in> set (SkipSpace l)" using set_SkipSpace [OF assms(1)] by simp
  then have "dropWhile (\<lambda>x. x \<noteq> c) (SkipSpace l) \<noteq> []" by auto
  then obtain t where "dropWhile (\<lambda>x. x \<noteq> c) (SkipSpace l) = c # t"
    by (metis (mono_tags, lifting) hd_dropWhile list.exhaust list.sel(1))
  with \<open>dropWhile _ _ \<noteq> []\<close> True assms(1) show ?thesis
    by (simp add: Till_def Match_def Let_def SkipSpace_idem char_at_def del: dropWhile_eq_Nil_conv)
next
  case False
  then have no: "c \<notin> set (SkipSpace l)" using set_SkipSpace [OF assms(1)] by simp
  then have "dropWhile (\<lambda>x. x \<noteq> c) (SkipSpace l) = []" by auto
  moreover have "char_at (SkipSpace l) \<noteq> c" using no assms(2) by (auto simp: char_at_def split: list.splits)
  ultimately show ?thesis using False by (simp add: Till_def Match_def Let_def)
qed

lemma nul_not_in_c_str: "CHR 0x00 \<notin> set (c_str s)"
  by (auto simp: c_str_def dest: set_takeWhileD)

lemma special_not_space: "\<not> is_space (CHR ''='')" "\<not> is_space (CHR '':'')" "\<not> is_space (CHR '']'')"
    "\<not> is_space (CHR ''['')" "\<not> is_space (CHR ''#'')"
  by (simp_all add: is_space_def)

lemma parse_entry_error:
  assumes "\<not> ps_error s"
  shows "ps_error (parse_entry l s) \<longleftrightarrow> CHR ''='' \<notin> set l \<and> CHR '':'' \<notin> set l"
  using assms Match_Till [of "CHR ''=''" l] Match_Till [of "CHR '':''" l] special_not_space
  by (auto simp: parse_entry_def Let_def split_beta)

lemma parse_section_error: "ps_error (parse_section l s) \<longleftrightarrow> CHR '']'' \<notin> set (drop 1 l)"
  using Match_Till [of "CHR '']''" "drop 1 l"] special_not_space
  by (auto simp: parse_section_def Let_def split_beta)

lemma parse_line_error:
  assumes "\<not> ps_error s"
  shows "ps_error (parse_line raw s) \<longleftrightarrow> bad_line (ps_name s) raw"
proof (cases "SkipSpace (c_str raw)")
  case Nil
  then show ?thesis using assms by (simp add: parse_line_def bad_line_def Peek_def char_at_def Let_def)
next
  case (Cons c t)
  have "c \<noteq> CHR 0x00"
  proof -
    have "c \<in> set (c_str raw)" using Cons set_SkipSpace [OF SkipSpace_hd [OF Cons], of "c_str raw"] by simp
    then show ?thesis using nul_not_in_c_str by metis
  qed
  moreover obtain d u where "c_str raw = d # u" using Cons by (cases "c_str raw") (auto simp: SkipSpace_def)
  ultimately show ?thesis
    using assms Cons
    by (auto simp: parse_line_def bad_line_def Peek_def char_at_def Let_def parse_section_error
        parse_entry_error parse_continuation_def)
qed

text \<open>The lines of a file, as \<open>fgets\<close> cuts them.\<close>

function file_lines :: "string \<Rightarrow> string list" where
  "file_lines file =
     (if file = [] then []
      else fst (get_line (MAXLINE - 1) file) # file_lines (snd (get_line (MAXLINE - 1) file)))"
  by auto
termination
  by (relation "measure length") (auto simp: MAXLINE_def intro: get_line_progress)

declare file_lines.simps [simp del]

fun run_lines :: "string list \<Rightarrow> parse_state \<Rightarrow> parse_state" where
  "run_lines [] s = s"
| "run_lines (l # ls) s = (if ps_error s then s else run_lines ls (parse_line l s))"

lemma run_lines_error: "ps_error s \<Longrightarrow> run_lines ls s = s"
  by (cases ls) auto

lemma parse_loop_lines: "parse_loop bytes s = run_lines (file_lines bytes) s"
proof (induction bytes s rule: parse_loop.induct)
  case (1 bytes s)
  then show ?case
    by (subst parse_loop.simps, subst file_lines.simps) (simp add: run_lines_error)
qed

lemma parse_line_num: "ps_line_num (parse_line raw s) = ps_line_num s + 1"
  by (simp add: parse_line_def parse_section_def parse_continuation_def parse_entry_def Let_def split_beta)

text \<open>The run stops at the first wrong line, or goes through all lines.\<close>

lemma run_lines_split:
  assumes "\<not> ps_error s"
  shows "(if ps_error (run_lines ls s)
     then \<exists>pre l post. ls = pre @ l # post \<and> \<not> ps_error (run_lines pre s) \<and>
        bad_line (ps_name (run_lines pre s)) l \<and> ps_line_num (run_lines ls s) = ps_line_num s + length pre + 1
     else \<forall>pre l post. ls = pre @ l # post \<longrightarrow> \<not> bad_line (ps_name (run_lines pre s)) l)"
  using assms
proof (induction ls arbitrary: s)
  case (Cons x xs)
  let ?t = "parse_line x s"
  show ?case
  proof (cases "ps_error ?t")
    case True
    then have bad: "bad_line (ps_name s) x" using parse_line_error [OF Cons.prems] by simp
    have "run_lines (x # xs) s = ?t" using True Cons.prems by (simp add: run_lines_error)
    then show ?thesis using True bad Cons.prems parse_line_num
      by (intro if_P [THEN iffD2] iffD2 [OF if_P]) (auto intro!: exI [of _ "[]"])
  next
    case False
    have run: "run_lines (x # ys) s = run_lines ys ?t" for ys using Cons.prems by simp
    note IH = Cons.IH [OF False]
    show ?thesis
    proof (cases "ps_error (run_lines (x # xs) s)")
      case True
      with IH run obtain pre l post where "xs = pre @ l # post" "\<not> ps_error (run_lines pre ?t)"
          "bad_line (ps_name (run_lines pre ?t)) l" "ps_line_num (run_lines xs ?t) = ps_line_num ?t + length pre + 1"
        by auto
      with True run show ?thesis by (auto simp: parse_line_num intro!: exI [of _ "x # pre"])
    next
      case nerr: False
      have "\<not> bad_line (ps_name (run_lines pre s)) l" if "x # xs = pre @ l # post" for pre l post
      proof (cases pre)
        case Nil
        with that parse_line_error [OF Cons.prems] False show ?thesis by auto
      next
        case (Cons y ys)
        with that IH nerr run show ?thesis by auto
      qed
      with nerr show ?thesis by auto
    qed
  qed
qed simp

subsection \<open>The table\<close>

definition table_ok :: "(string \<rightharpoonup> string list) \<Rightarrow> bool" where
  "table_ok conf \<longleftrightarrow> (\<forall>k vs. conf k = Some vs \<longrightarrow> vs \<noteq> [])"

lemma push_value_ok: "table_ok conf \<Longrightarrow> table_ok (push_value k v conf)"
  by (auto simp: table_ok_def push_value_def)

lemma parse_line_ok: "table_ok (ps_config s) \<Longrightarrow> table_ok (ps_config (parse_line raw s))"
  by (auto simp: parse_line_def parse_section_def parse_continuation_def parse_entry_def Let_def split_beta
      intro: push_value_ok)

lemma run_lines_ok: "table_ok (ps_config s) \<Longrightarrow> table_ok (ps_config (run_lines ls s))"
  by (induction ls arbitrary: s) (auto intro: parse_line_ok)

lemma Parse_table_ok: "table_ok (cfg_config cfg) \<Longrightarrow> table_ok (cfg_config (snd (Parse f file cfg)))"
  by (auto simp: Parse_def Let_def parse_loop_lines intro: run_lines_ok split: option.splits)

subsection \<open>Writing a configuration\<close>

text \<open>
  A document is a list of sections with their entries, each a name and its values, the
  first on the line of the name and the others on lines of their own. Its words are not
  empty and free of blanks and of the characters with a meaning.
\<close>

type_synonym document = "(string \<times> (string \<times> string list) list) list"

definition plain_char :: "char \<Rightarrow> bool" where
  "plain_char c \<longleftrightarrow> \<not> is_space c \<and> c \<notin> set (CHR 0x00 # ''#[]=:'')"

definition word_ok :: "string \<Rightarrow> bool" where
  "word_ok w \<longleftrightarrow> w \<noteq> [] \<and> (\<forall>c \<in> set w. plain_char c) \<and> length w \<le> 500"

definition entry_ok :: "string \<times> string list \<Rightarrow> bool" where
  "entry_ok e \<longleftrightarrow> word_ok (fst e) \<and> snd e \<noteq> [] \<and> (\<forall>v \<in> set (snd e). word_ok v)"

definition doc_ok :: "document \<Rightarrow> bool" where
  "doc_ok doc \<longleftrightarrow> (\<forall>(sec, es) \<in> set doc. word_ok sec \<and> (\<forall>e \<in> set es. entry_ok e))"

definition NL :: char where "NL = CHR 0x0A"

definition section_line :: "string \<Rightarrow> string" where
  "section_line sec = CHR ''['' # sec @ '']''"

definition entry_lines :: "string \<times> string list \<Rightarrow> string list" where
  "entry_lines e = (fst e @ CHR ''='' # hd (snd e)) # map (\<lambda>v. CHR '' '' # v) (tl (snd e))"

definition doc_lines :: "document \<Rightarrow> string list" where
  "doc_lines doc = concat (map (\<lambda>(sec, es). section_line sec # concat (map entry_lines es)) doc)"

definition print_doc :: "document \<Rightarrow> string" where
  "print_doc doc = concat (map (\<lambda>l. l @ [NL]) (doc_lines doc))"

text \<open>The values of a name of a section, in the order of the document.\<close>

definition doc_entries :: "document \<Rightarrow> (string \<times> string list) list" where
  "doc_entries doc = concat (map (\<lambda>(sec, es). map (\<lambda>(nam, vs). (MakeKey sec nam, vs)) es) doc)"

definition doc_values :: "string \<Rightarrow> string \<Rightarrow> document \<Rightarrow> string list" where
  "doc_values sec nam doc = concat (map snd (filter (\<lambda>(k, vs). k = MakeKey sec nam) (doc_entries doc)))"

lemma NL_space: "is_space NL"
  by (simp add: NL_def is_space_def)

lemma plain_charD:
  assumes "plain_char c"
  shows "\<not> is_space c \<and> c \<noteq> CHR 0x00 \<and> c \<noteq> CHR ''#'' \<and> c \<noteq> CHR ''['' \<and>
    c \<noteq> CHR '']'' \<and> c \<noteq> CHR ''='' \<and> c \<noteq> CHR '':'' \<and> c \<noteq> NL"
proof -
  have "c \<notin> set (CHR 0x00 # ''#[]=:'')" "\<not> is_space c" using assms unfolding plain_char_def by blast+
  moreover from this(2) have "c \<noteq> NL" using NL_space by metis
  ultimately show ?thesis by simp
qed

lemma plain_not_space: "plain_char c \<Longrightarrow> \<not> is_space c"
  by (simp add: plain_char_def)

lemma word_cons: "word_ok w \<Longrightarrow> \<exists>c t. w = c # t \<and> plain_char c"
  unfolding word_ok_def by (cases w) simp_all

lemma Strip_word: "\<forall>c \<in> set w. plain_char c \<Longrightarrow> Strip w = w"
proof -
  assume "\<forall>c \<in> set w. plain_char c"
  then have w: "\<forall>c \<in> set w. \<not> is_space c" using plain_not_space by blast
  then have "w = [] \<or> \<not> is_space (hd w)" by (cases w) simp_all
  moreover have "rev w = [] \<or> \<not> is_space (hd (rev w))"
    using w hd_in_set [of "rev w"] by (cases "rev w = []") simp_all
  ultimately have "dropWhile is_space w = w" "dropWhile is_space (rev w) = rev w"
    by (simp_all only: dropWhile_eq_self_iff)
  then show ?thesis by (simp add: Strip_def)
qed

lemma SkipSpace_word: "word_ok w \<Longrightarrow> SkipSpace (w @ s) = w @ s"
  using word_cons [of w] plain_not_space by (auto simp: SkipSpace_def)

lemma takeWhile_word:
  assumes "\<forall>x \<in> set w. P x" "\<not> P d"
  shows "takeWhile P (w @ d # s) = w" "dropWhile P (w @ d # s) = d # s"
  using assms by simp_all

lemma Till_word:
  assumes "word_ok w" "d \<in> {CHR '']'', CHR ''=''}"
  shows "Till d (w @ d # s) = (w, d # s)"
proof -
  have "\<forall>x \<in> set w. x \<noteq> d" using assms by (auto simp: word_ok_def dest: plain_charD)
  then have "takeWhile (\<lambda>x. x \<noteq> d) (w @ d # s) = w" "dropWhile (\<lambda>x. x \<noteq> d) (w @ d # s) = d # s"
    using takeWhile_word [of w "\<lambda>x. x \<noteq> d" d s] by simp_all
  then show ?thesis using assms(1) by (simp add: Till_def SkipSpace_word Let_def Strip_word word_ok_def)
qed

lemma TillSpace_word:
  assumes "word_ok w"
  shows "fst (TillSpace (w @ [NL])) = w" "fst (TillEnd (w @ [NL])) = w"
proof -
  have w: "\<forall>x \<in> set w. plain_char x" using assms by (simp add: word_ok_def)
  have "takeWhile (\<lambda>x. \<not> is_space x) (w @ [NL]) = w"
    by (rule takeWhile_word) (use w NL_space in \<open>auto dest: plain_charD\<close>)
  then show "fst (TillSpace (w @ [NL])) = w"
    using assms w by (simp add: TillSpace_def SkipSpace_word Let_def Strip_word)
  have "takeWhile (\<lambda>x. \<not> is_space x \<and> x \<noteq> CHR ''#'') (w @ [NL]) = w"
    by (rule takeWhile_word) (use w NL_space in \<open>auto dest: plain_charD\<close>)
  then show "fst (TillEnd (w @ [NL])) = w"
    using assms w by (simp add: TillEnd_def SkipSpace_word Let_def Strip_word)
qed

lemma c_str_words: "\<forall>c \<in> set w. plain_char c \<or> c \<in> set ''[]= '' \<or> c = NL \<Longrightarrow> c_str w = w"
  by (rule c_str_id) (auto simp: NL_def dest: plain_charD)

subsection \<open>Reading it back\<close>

lemma parse_section_line:
  assumes "word_ok sec" "\<not> ps_error s"
  shows "parse_line (section_line sec @ [NL]) s =
    s\<lparr>ps_section := sec, ps_name := [], ps_line_num := ps_line_num s + 1\<rparr>"
proof -
  have "c_str (section_line sec @ [NL]) = section_line sec @ [NL]"
    by (rule c_str_words) (use assms(1) in \<open>auto simp: section_line_def word_ok_def\<close>)
  moreover have "Till (CHR '']'') (sec @ CHR '']'' # [NL]) = (sec, CHR '']'' # [NL])"
    using Till_word [OF assms(1)] by simp
  ultimately show ?thesis
    using assms(2) special_not_space
    by (simp add: parse_line_def Peek_def Let_def section_line_def SkipSpace_idem char_at_def parse_section_def
        Match_def)
qed

lemma parse_entry_line:
  assumes "word_ok nam" "word_ok v" "\<not> ps_error s"
  shows "parse_line ((nam @ CHR ''='' # v) @ [NL]) s =
    s\<lparr>ps_name := nam, ps_config := push_value (MakeKey (ps_section s) nam) v (ps_config s), ps_line_num := ps_line_num s + 1\<rparr>"
proof -
  let ?l = "nam @ CHR ''='' # v @ [NL]"
  have l: "c_str ?l = ?l" by (rule c_str_words) (use assms(1,2) in \<open>auto simp: word_ok_def\<close>)
  obtain c t where c: "nam = c # t" "plain_char c" using word_cons [OF assms(1)] by blast
  have "SkipSpace ?l = ?l" using assms(1) by (rule SkipSpace_word)
  moreover have "Till (CHR ''='') ?l = (nam, CHR ''='' # v @ [NL])" using Till_word [OF assms(1)] by simp
  ultimately show ?thesis
    using l c assms(3) special_not_space TillSpace_word(1) [OF assms(2)] plain_charD [OF c(2)]
    by (simp add: parse_line_def Peek_def Let_def char_at_def parse_entry_def Match_def SkipSpace_idem)
qed

lemma parse_value_line:
  assumes "word_ok v" "\<not> ps_error s" "ps_name s \<noteq> []"
  shows "parse_line ((CHR '' '' # v) @ [NL]) s =
    s\<lparr>ps_config := push_value (MakeKey (ps_section s) (ps_name s)) v (ps_config s), ps_line_num := ps_line_num s + 1\<rparr>"
proof -
  let ?l = "CHR '' '' # v @ [NL]"
  have l: "c_str ?l = ?l" by (rule c_str_words) (use assms(1) in \<open>auto simp: word_ok_def\<close>)
  obtain c t where c: "v = c # t" "plain_char c" using word_cons [OF assms(1)] by blast
  have "SkipSpace ?l = v @ [NL]" using SkipSpace_word [OF assms(1)] by (simp add: SkipSpace_def is_space_def)
  then show ?thesis
    using l c assms(2,3) TillSpace_word(2) [OF assms(1)] plain_charD [OF c(2)]
    by (simp add: parse_line_def Peek_def Let_def char_at_def parse_continuation_def is_space_def)
qed

text \<open>The effect of an entry and of a document on the state of the parser.\<close>

definition push_values :: "string \<Rightarrow> string list \<Rightarrow> (string \<rightharpoonup> string list) \<Rightarrow> (string \<rightharpoonup> string list)" where
  "push_values k vs conf = fold (push_value k) vs conf"

lemma run_values:
  assumes "\<forall>v \<in> set vs. word_ok v" "\<not> ps_error s" "ps_name s \<noteq> []"
  shows "run_lines (map (\<lambda>v. (CHR '' '' # v) @ [NL]) vs @ ls) s =
    run_lines ls (s\<lparr>ps_config := push_values (MakeKey (ps_section s) (ps_name s)) vs (ps_config s),
      ps_line_num := ps_line_num s + length vs\<rparr>)"
  using assms
proof (induction vs arbitrary: s)
  case (Cons v vs)
  let ?s = "s\<lparr>ps_config := push_value (MakeKey (ps_section s) (ps_name s)) v (ps_config s), ps_line_num := ps_line_num s + 1\<rparr>"
  have "parse_line ((CHR '' '' # v) @ [NL]) s = ?s" using Cons.prems by (intro parse_value_line) simp_all
  with Cons.prems Cons.IH [of ?s] show ?case by (simp add: push_values_def)
qed (simp add: push_values_def)

lemma run_entry:
  assumes "entry_ok e" "\<not> ps_error s"
  shows "run_lines (map (\<lambda>l. l @ [NL]) (entry_lines e) @ ls) s =
    run_lines ls (s\<lparr>ps_name := fst e, ps_config := push_values (MakeKey (ps_section s) (fst e)) (snd e) (ps_config s),
      ps_line_num := ps_line_num s + length (snd e)\<rparr>)"
proof -
  obtain v vs where vs: "snd e = v # vs" "word_ok v" "\<forall>v \<in> set vs. word_ok v" "word_ok (fst e)"
    using assms(1) by (cases "snd e") (auto simp: entry_ok_def)
  let ?s = "parse_line ((fst e @ CHR ''='' # v) @ [NL]) s"
  have "fst e \<noteq> []" using vs(4) by (simp add: word_ok_def)
  with run_values [OF vs(3), of ?s ls] assms(2) vs(1) show ?thesis
    by (simp add: parse_entry_line [OF vs(4,2) assms(2), simplified] entry_lines_def comp_def push_values_def)
qed

fun entries_effect :: "(string \<times> string list) list \<Rightarrow> parse_state \<Rightarrow> parse_state" where
  "entries_effect [] s = s"
| "entries_effect (e # es) s = entries_effect es
     (s\<lparr>ps_name := fst e, ps_config := push_values (MakeKey (ps_section s) (fst e)) (snd e) (ps_config s),
        ps_line_num := ps_line_num s + length (snd e)\<rparr>)"

lemma entries_effect_keeps: "ps_error (entries_effect es s) = ps_error s" "ps_section (entries_effect es s) = ps_section s"
    "ps_config (entries_effect es s) =
       fold (\<lambda>(k, vs). push_values k vs) (map (\<lambda>(nam, vs). (MakeKey (ps_section s) nam, vs)) es) (ps_config s)"
  by (induction es s rule: entries_effect.induct) (auto simp: split_beta)

lemma run_entries:
  "\<forall>e \<in> set es. entry_ok e \<Longrightarrow> \<not> ps_error s \<Longrightarrow>
   run_lines (map (\<lambda>l. l @ [NL]) (concat (map entry_lines es)) @ ls) s = run_lines ls (entries_effect es s)"
proof (induction es arbitrary: s)
  case (Cons e es)
  then show ?case using run_entry [of e s "map (\<lambda>l. l @ [NL]) (concat (map entry_lines es)) @ ls"] by simp
qed simp

lemma run_doc:
  "doc_ok doc \<Longrightarrow> \<not> ps_error s \<Longrightarrow> \<exists>s'. run_lines (map (\<lambda>l. l @ [NL]) (doc_lines doc)) s = s' \<and> \<not> ps_error s' \<and>
     ps_config s' = fold (\<lambda>(k, vs). push_values k vs) (doc_entries doc) (ps_config s)"
proof (induction doc arbitrary: s)
  case (Cons d doc)
  obtain sec es where d: "d = (sec, es)" by fastforce
  let ?s = "s\<lparr>ps_section := sec, ps_name := [], ps_line_num := ps_line_num s + 1\<rparr>"
  have ok: "word_ok sec" "\<forall>e \<in> set es. entry_ok e" "doc_ok doc" using Cons.prems(1) by (auto simp: doc_ok_def d)
  from run_entries [OF ok(2), of ?s "map (\<lambda>l. l @ [NL]) (doc_lines doc)"] parse_section_line [OF ok(1) Cons.prems(2)]
  have run: "run_lines (map (\<lambda>l. l @ [NL]) (doc_lines (d # doc))) s =
      run_lines (map (\<lambda>l. l @ [NL]) (doc_lines doc)) (entries_effect es ?s)"
    using Cons.prems(2) by (simp add: doc_lines_def d)
  have "\<not> ps_error (entries_effect es ?s)" using Cons.prems(2) by (simp add: entries_effect_keeps)
  from Cons.IH [OF ok(3) this] run show ?case
    by (simp add: doc_entries_def d entries_effect_keeps)
qed (simp add: doc_lines_def doc_entries_def)

lemma get_line_NL: "NL \<notin> set l \<Longrightarrow> length l < n \<Longrightarrow> get_line n (l @ NL # rest) = (l @ [NL], rest)"
  by (induction n l rule: get_line.induct) (auto simp: NL_def)

lemma file_lines_NL:
  "\<forall>l \<in> set ls. NL \<notin> set l \<and> length l < 1023 \<Longrightarrow>
   file_lines (concat (map (\<lambda>l. l @ [NL]) ls)) = map (\<lambda>l. l @ [NL]) ls"
proof (induction ls)
  case (Cons l ls)
  have "get_line 1023 (l @ NL # concat (map (\<lambda>l. l @ [NL]) ls)) = (l @ [NL], concat (map (\<lambda>l. l @ [NL]) ls))"
    using Cons.prems by (intro get_line_NL) auto
  with Cons show ?case by (subst file_lines.simps) (simp add: MAXLINE_def)
qed (simp add: file_lines.simps)

lemma word_no_NL: "word_ok w \<Longrightarrow> NL \<notin> set w \<and> length w \<le> 500"
  unfolding word_ok_def using plain_charD by blast

lemma NL_not_special: "NL \<noteq> CHR '' ''" "NL \<noteq> CHR ''[''" "NL \<noteq> CHR '']''" "NL \<noteq> CHR ''=''"
  by (simp_all add: NL_def)

lemma doc_lines_ok:
  assumes "doc_ok doc" "l \<in> set (doc_lines doc)"
  shows "NL \<notin> set l \<and> length l < 1023"
proof -
  obtain sec es where d: "(sec, es) \<in> set doc" "l = section_line sec \<or> (\<exists>e \<in> set es. l \<in> set (entry_lines e))"
    using assms(2) by (auto simp: doc_lines_def)
  have ok: "word_ok sec" "\<forall>e \<in> set es. entry_ok e" using assms(1) d(1) by (auto simp: doc_ok_def)
  from d(2) show ?thesis
  proof
    assume "l = section_line sec"
    then show ?thesis using word_no_NL [OF ok(1)] NL_not_special by (simp add: section_line_def)
  next
    assume "\<exists>e \<in> set es. l \<in> set (entry_lines e)"
    then obtain e where e: "e \<in> set es" "l \<in> set (entry_lines e)" by blast
    with ok(2) have nam: "word_ok (fst e)" "snd e \<noteq> []" "\<forall>v \<in> set (snd e). word_ok v" by (auto simp: entry_ok_def)
    have "l = fst e @ CHR ''='' # hd (snd e) \<or> (\<exists>v \<in> set (snd e). l = CHR '' '' # v)"
      using e(2) nam(2) by (cases "snd e") (auto simp: entry_lines_def)
    then show ?thesis
    proof
      assume l: "l = fst e @ CHR ''='' # hd (snd e)"
      have "word_ok (hd (snd e))" using nam(2,3) by simp
      from word_no_NL [OF this] word_no_NL [OF nam(1)] show ?thesis using l NL_not_special by simp
    next
      assume "\<exists>v \<in> set (snd e). l = CHR '' '' # v"
      then obtain v where "v \<in> set (snd e)" "l = CHR '' '' # v" by blast
      with word_no_NL [of v] nam(3) NL_not_special show ?thesis by simp
    qed
  qed
qed

definition conf_list :: "string \<Rightarrow> (string \<rightharpoonup> string list) \<Rightarrow> string list" where
  "conf_list k conf = (case conf k of None \<Rightarrow> [] | Some vs \<Rightarrow> vs)"

lemma conf_list_push: "conf_list k (push_value k' v conf) = conf_list k conf @ (if k = k' then [v] else [])"
  by (auto simp: conf_list_def push_value_def split: option.splits)

lemma conf_list_pushes: "conf_list k (push_values k' vs conf) = conf_list k conf @ (if k = k' then vs else [])"
  unfolding push_values_def by (induction vs arbitrary: conf) (auto simp: conf_list_push)

lemma conf_list_entries: "conf_list k (fold (\<lambda>(k, vs). push_values k vs) es conf) =
    conf_list k conf @ concat (map snd (filter (\<lambda>(k', vs). k' = k) es))"
  by (induction es arbitrary: conf) (auto simp: conf_list_pushes)

lemma GetList_conf_list: "GetList sec nam cfg = conf_list (MakeKey sec nam) (cfg_config cfg)"
  by (simp add: GetList_def conf_list_def)

lemma GetString_conf_list:
  "table_ok (cfg_config cfg) \<Longrightarrow>
   GetString sec nam def cfg = Inr (case GetList sec nam cfg of [] \<Rightarrow> def | v # vs \<Rightarrow> v)"
  by (auto simp: GetString_def GetList_def table_ok_def split: option.splits list.splits)

lemma empty_table_ok: "table_ok Map.empty"
  by (simp add: table_ok_def)

subsection \<open>Properties\<close>


definition no_config :: config where
  "no_config = \<lparr>cfg_filename = [], cfg_config = Map.empty\<rparr>"


text \<open>
  C30: A configuration survives being written: printing a document of sections, names and
  values and parsing the text succeeds, and every lookup gives the values the document
  has for that section and name, in order, its continuation lines included.
\<close>

theorem Parse_print_roundtrip:
  assumes "doc_ok doc"
  shows "\<exists>cfg. Parse f (Some (print_doc doc)) no_config = (0, cfg) \<and> GetList sec nam cfg = doc_values sec nam doc \<and>
    GetString sec nam def cfg = Inr (case doc_values sec nam doc of [] \<Rightarrow> def | v # vs \<Rightarrow> v)"
proof -
  let ?s = "\<lparr>ps_section = [], ps_name = [], ps_config = Map.empty, ps_line_num = 0, ps_error = False\<rparr>"
  have "file_lines (print_doc doc) = map (\<lambda>l. l @ [NL]) (doc_lines doc)"
    unfolding print_doc_def using doc_lines_ok [OF assms] by (intro file_lines_NL) blast
  moreover obtain s' where s': "run_lines (map (\<lambda>l. l @ [NL]) (doc_lines doc)) ?s = s'" "\<not> ps_error s'"
      "ps_config s' = fold (\<lambda>(k, vs). push_values k vs) (doc_entries doc) Map.empty"
    using run_doc [OF assms, of ?s] by auto
  ultimately have p: "Parse f (Some (print_doc doc)) no_config = (0, \<lparr>cfg_filename = f, cfg_config = ps_config s'\<rparr>)"
    by (simp add: Parse_def Let_def parse_loop_lines no_config_def)
  let ?cfg = "\<lparr>cfg_filename = f, cfg_config = ps_config s'\<rparr>"
  have "table_ok (ps_config s')" using run_lines_ok [of ?s] s'(1) empty_table_ok by auto
  moreover have "GetList sec nam ?cfg = doc_values sec nam doc"
    by (simp add: GetList_conf_list s'(3) conf_list_entries doc_values_def) (simp add: conf_list_def)
  ultimately show ?thesis using p GetString_conf_list [of ?cfg] by simp
qed

theorem Parse_print_roundtrip_witness:
  "\<exists>cfg. Parse ''f'' (Some (print_doc [(''log'', [(''level'', [''INFO'']), (''sinks'', [''a'', ''b''])])])) no_config = (0, cfg) \<and>
     GetList ''LOG'' ''Sinks'' cfg = [''a'', ''b'']"
proof -
  let ?doc = "[(''log'', [(''level'', [''INFO'']), (''sinks'', [''a'', ''b''])])]"
  have ok: "doc_ok ?doc" by (simp add: doc_ok_def entry_ok_def word_ok_def plain_char_def is_space_def)
  have "doc_values ''LOG'' ''Sinks'' ?doc = [''a'', ''b'']" by code_simp
  with Parse_print_roundtrip [OF ok, of "''f''" "''LOG''" "''Sinks''"] show ?thesis by auto
qed


end
