(* ===== verification/Daemon.thy ===== *)
theory Daemon
  imports Config Threads
begin

section \<open>\<open>util/Daemon\<close>: one instance by a pid file\<close>

text \<open>
  The state is what the functions leave behind: the files, the descriptors of the process, the
  signals it sent, and how often it opened a file and forked. What the kernel answers is a
  record of functions of those counts. A function returns, or the process exits; after a
  \<open>fork\<close> the model follows the process in which the call gave the answer.
\<close>

subsection \<open>The system\<close>

datatype kill_answer = Sent | Not_permitted | No_process

record daemon_os =
  os_open :: "nat \<Rightarrow> string \<Rightarrow> int"
  os_lock :: "nat \<Rightarrow> bool"
  os_write :: "nat \<Rightarrow> int"
  os_read_ok :: bool
  os_kill :: "nat \<Rightarrow> int \<Rightarrow> kill_answer"
  os_fork :: "nat \<Rightarrow> int"
  os_getpid :: "nat \<Rightarrow> int"
  os_getppid :: int
  os_stack :: string

record daemon_world =
  dw_file :: "string \<rightharpoonup> string"
  dw_fd :: "int \<rightharpoonup> string"
  dw_opens :: nat
  dw_forks :: nat
  dw_kills :: "(int \<times> int) list"
  dw_session :: bool
  dw_at_exit :: "string option"

datatype 'r daemon_end = Returned 'r daemon_world | Exited int daemon_world

text \<open>\<open>open\<close> for reading finds the file or the device, or fails; for writing it makes the file
  empty. Both give a descriptor or a negative number.\<close>

definition dev_null :: string where "dev_null = ''/dev/null''"

definition open_read :: "daemon_os \<Rightarrow> string \<Rightarrow> daemon_world \<Rightarrow> int \<times> daemon_world" where
  "open_read K path w =
     (let fd = os_open K (dw_opens w) path; w' = w\<lparr>dw_opens := dw_opens w + 1\<rparr> in
      if fd < 0 \<or> (path \<noteq> dev_null \<and> dw_file w path = None) then (- 1, w')
      else (fd, w'\<lparr>dw_fd := (dw_fd w')(fd \<mapsto> path)\<rparr>))"

definition open_write :: "daemon_os \<Rightarrow> string \<Rightarrow> daemon_world \<Rightarrow> int \<times> daemon_world" where
  "open_write K path w =
     (let fd = os_open K (dw_opens w) path; w' = w\<lparr>dw_opens := dw_opens w + 1\<rparr> in
      if fd < 0 then (- 1, w')
      else (fd, w'\<lparr>dw_fd := (dw_fd w')(fd \<mapsto> path), dw_file := (dw_file w')(path \<mapsto> [])\<rparr>))"

definition close_fd :: "int \<Rightarrow> daemon_world \<Rightarrow> daemon_world" where
  "close_fd fd w = w\<lparr>dw_fd := (dw_fd w)(fd := None)\<rparr>"

definition dup2 :: "int \<Rightarrow> int \<Rightarrow> daemon_world \<Rightarrow> daemon_world" where
  "dup2 fd fd' w = w\<lparr>dw_fd := (dw_fd w)(fd' := dw_fd w fd)\<rparr>"

definition unlink :: "string \<Rightarrow> daemon_world \<Rightarrow> daemon_world" where
  "unlink path w = w\<lparr>dw_file := (dw_file w)(path := None)\<rparr>"

definition kill :: "daemon_os \<Rightarrow> int \<Rightarrow> int \<Rightarrow> daemon_world \<Rightarrow> kill_answer \<times> daemon_world" where
  "kill K pid sig w = (os_kill K (length (dw_kills w)) pid, w\<lparr>dw_kills := dw_kills w @ [(pid, sig)]\<rparr>)"

definition fork :: "daemon_os \<Rightarrow> daemon_world \<Rightarrow> int \<times> daemon_world" where
  "fork K w = (os_fork K (dw_forks w), w\<lparr>dw_forks := dw_forks w + 1\<rparr>)"

text \<open>\<open>exit\<close> runs the function-local static, if \<open>Start\<close> has made it.\<close>

definition proc_exit :: "int \<Rightarrow> daemon_world \<Rightarrow> 'r daemon_end" where
  "proc_exit code w = Exited code (case dw_at_exit w of Some path \<Rightarrow> unlink path w | None \<Rightarrow> w)"

text \<open>\<open>atoi\<close>: the leading number, clipped to \<open>long\<close> and cut to \<open>int\<close>.\<close>

definition atoi_digits :: "string \<Rightarrow> int" where
  "atoi_digits s = int (undecimal (takeWhile is_digit s))"

definition atoi :: "string \<Rightarrow> int" where
  "atoi s =
     (let s = dropWhile is_space s;
          n = (case s of c # t \<Rightarrow>
              if c = CHR ''-'' then - atoi_digits t else if c = CHR ''+'' then atoi_digits t else atoi_digits s | [] \<Rightarrow> 0)
      in sint (word_of_int (clip_long n) :: 32 word))"

subsection \<open>The pid file\<close>

definition WritePidFile :: "daemon_os \<Rightarrow> string \<Rightarrow> daemon_world \<Rightarrow> bool \<times> daemon_world" where
  "WritePidFile K pidfile w =
     (let (fd, w) = open_write K pidfile w in
      if fd < 0 \<or> \<not> os_lock K (dw_opens w) then (False, w)
      else with_exit (close_fd fd) (\<lambda>w.
        let pid = c_str (fst (snprintf_to (to_string (os_getpid K (dw_forks w))) (replicate 16 (CHR 0x00))));
            len = int (length pid);
            n = min (os_write K (dw_opens w)) len;
            w = w\<lparr>dw_file := (dw_file w)(pidfile \<mapsto> take (nat n) pid)\<rparr>
        in (n = len, w)) w)"

definition GetPidFromFile :: "daemon_os \<Rightarrow> string \<Rightarrow> daemon_world \<Rightarrow> int \<times> daemon_world" where
  "GetPidFromFile K pidfile w =
     (let buf = os_stack K; (fd, w) = open_read K pidfile w in
      if fd < 0 then (- 1, w)
      else with_exit (close_fd fd) (\<lambda>w.
        let bytes = take 16 (the (dw_file w pidfile)) in
        if \<not> os_read_ok K \<or> bytes = [] then (- 1, w)
        else (atoi (c_str ((copy_in bytes 0 buf)[15 := CHR 0x00])), w)) w)"

subsection \<open>Starting, stopping, restarting\<close>

definition SIGQUIT :: int where "SIGQUIT = 3"

text \<open>The end of \<open>Start\<close>, in the last process.\<close>

definition Start_daemon :: "daemon_os \<Rightarrow> string \<Rightarrow> daemon_world \<Rightarrow> bool daemon_end" where
  "Start_daemon K pidfile w =
     (let (ok, w) = WritePidFile K pidfile w in
      if \<not> ok then Returned False w
      else
        let (fd, w) = open_read K dev_null w;
            (r, w) = with_exit (close_fd fd) (\<lambda>w.
              if 0 \<le> fd then
                let w = dup2 fd 2 (dup2 fd 1 (dup2 fd 0 w)) in
                (True, w\<lparr>dw_at_exit := (case dw_at_exit w of None \<Rightarrow> Some pidfile | p \<Rightarrow> p)\<rparr>)
              else (False, w)) w
        in Returned r w)"

definition Start_forks :: "daemon_os \<Rightarrow> string \<Rightarrow> daemon_world \<Rightarrow> bool daemon_end" where
  "Start_forks K pidfile w =
     (let (pid, w) = fork K w in
      if pid < 0 then Returned False w
      else if 0 < pid then proc_exit 0 w
      else
        let w = w\<lparr>dw_session := True\<rparr>; (pid, w) = fork K w in
        if pid < 0 then Returned False w
        else if 0 < pid then proc_exit 0 w
        else Start_daemon K pidfile w)"

definition daemon_Start :: "daemon_os \<Rightarrow> string \<Rightarrow> daemon_world \<Rightarrow> bool daemon_end" where
  "daemon_Start K pidfile w =
     (let (pid, w) = GetPidFromFile K pidfile w;
          (exists, w) = (if 0 < pid then let (a, w) = kill K pid 0 w in (a = Sent \<or> a = Not_permitted, w) else (False, w))
      in
      if exists then Returned False w
      else if os_getppid K = 1 then Returned False w
      else Start_forks K pidfile w)"

fun Stop_loop :: "daemon_os \<Rightarrow> int \<Rightarrow> string \<Rightarrow> nat \<Rightarrow> daemon_world \<Rightarrow> bool \<times> daemon_world" where
  "Stop_loop K pid pidfile 0 w = (False, w)"
| "Stop_loop K pid pidfile (Suc i) w =
     (let (a, w) = kill K pid SIGQUIT w in
      if a \<noteq> Sent then (True, unlink pidfile w) else Stop_loop K pid pidfile i w)"

definition daemon_Stop :: "daemon_os \<Rightarrow> string \<Rightarrow> daemon_world \<Rightarrow> bool \<times> daemon_world" where
  "daemon_Stop K pidfile w =
     (let (pid, w) = GetPidFromFile K pidfile w in
      if pid \<le> 0 then (False, w)
      else
        let (a, w) = kill K pid SIGQUIT w in
        if a \<noteq> Sent then (False, w) else Stop_loop K pid pidfile 500 w)"

definition daemon_Restart :: "daemon_os \<Rightarrow> string \<Rightarrow> daemon_world \<Rightarrow> bool daemon_end" where
  "daemon_Restart K pidfile w =
     (let (pid, w) = GetPidFromFile K pidfile w in
      if 0 < pid then
        let (a, w) = kill K pid 0 w in
        if a = Sent then
          let (ok, w) = daemon_Stop K pidfile w in
          if \<not> ok then Returned False w else daemon_Start K pidfile w
        else if a = Not_permitted then Returned False w
        else daemon_Start K pidfile w
      else daemon_Start K pidfile w)"

text \<open>\<open>basename\<close> of \<open>libgen.h\<close>, and \<open>getenv("_")\<close>, which may give no string.\<close>

definition posix_basename :: "string option \<Rightarrow> string" where
  "posix_basename path =
     (case path of
        None \<Rightarrow> ''.''
      | Some p \<Rightarrow>
          if p = [] then ''.''
          else let q = dropWhile (\<lambda>c. c = CHR ''/'') (rev p) in
            if q = [] then ''/'' else rev (takeWhile (\<lambda>c. c \<noteq> CHR ''/'') q))"

definition daemon_Process :: "daemon_os \<Rightarrow> string option \<Rightarrow> string option \<Rightarrow> daemon_world \<Rightarrow> unit daemon_end" where
  "daemon_Process K env cmd w =
     (let program = posix_basename env; pidfile = program @ ''.pid'';
          finish = (\<lambda>e. case e of Returned r w \<Rightarrow> if r then Returned () w else proc_exit 1 w | Exited c w \<Rightarrow> Exited c w)
      in
      if cmd = None \<or> cmd = Some ''start'' then finish (daemon_Start K pidfile w)
      else if cmd = Some ''stop'' then
        let (ok, w) = daemon_Stop K pidfile w in if ok then proc_exit 0 w else proc_exit 1 w
      else if cmd = Some ''restart'' then finish (daemon_Restart K pidfile w)
      else proc_exit 1 w)"

subsection \<open>Reading the number back\<close>

lemmas dw_defs = open_read_def open_write_def close_fd_def dup2_def unlink_def kill_def fork_def with_exit_def

lemma is_digit_not_space: "is_digit c \<Longrightarrow> \<not> is_space c"
  by (auto simp: is_digit_def is_space_def)

lemma atoi_decimal:
  "atoi (decimal n @ s) = sint (word_of_int (clip_long (int (undecimal (decimal n @ takeWhile is_digit s)))) :: 32 word)"
proof -
  obtain c t where ct: "decimal n = c # t" by (cases "decimal n") auto
  have d: "is_digit x" if "x \<in> set (decimal n)" for x by (rule decimal_digits [OF that])
  then have c: "is_digit c" "\<not> is_space c" by (simp_all add: ct is_digit_not_space)
  then have sign: "c \<noteq> CHR ''-''" "c \<noteq> CHR ''+''" by (auto simp: is_digit_def)
  have "takeWhile is_digit (decimal n @ s) = decimal n @ takeWhile is_digit s"
    using d by simp
  then show ?thesis using c(2) sign by (simp add: atoi_def atoi_digits_def ct Let_def)
qed

lemma sint_of_small: "0 \<le> i \<Longrightarrow> i < 2 ^ 31 \<Longrightarrow> sint (word_of_int (clip_long i) :: 32 word) = i"
proof -
  assume i: "0 \<le> i" "i < 2 ^ 31"
  then have "clip_long i = i" by (simp add: clip_long_def)
  with i show ?thesis by (simp add: signed_take_bit_int_eq_self sint_sbintrunc')
qed

lemma atoi_pid: "0 < p \<Longrightarrow> p < 2 ^ 31 \<Longrightarrow> (s = [] \<or> \<not> is_digit (hd s)) \<Longrightarrow> atoi (decimal (nat p) @ s) = p"
  using atoi_decimal [of "nat p" s] by (cases s) (simp_all add: sint_of_small)

lemma length_pid: "0 < p \<Longrightarrow> p < 2 ^ 31 \<Longrightarrow> length (decimal (nat p)) \<le> 10"
  using length_decimal [of 10 "nat p"] by (simp add: nat_less_iff)

lemma c_str_append: "CHR 0x00 \<notin> set s \<Longrightarrow> c_str (s @ t) = s @ c_str t"
  by (induction s) (auto simp: c_str_def)

text \<open>The buffer after the read: the digits, then what was on the stack, with a NUL at its end.\<close>

lemma pid_buffer:
  assumes "length d \<le> 15" "CHR 0x00 \<notin> set d" "length buf = 16"
  shows "c_str ((copy_in (take 16 d) 0 buf)[15 := CHR 0x00]) = d @ c_str (take (15 - length d) (drop (length d) buf))"
proof -
  have "(copy_in (take 16 d) 0 buf)[15 := CHR 0x00] = d @ take (15 - length d) (drop (length d) buf) @ [CHR 0x00]"
    using assms(1,3) by (simp add: copy_in_def list_update_append upd_conv_take_nth_drop)
  moreover have "c_str (x @ [CHR 0x00]) = c_str x" for x by (induction x) (auto simp: c_str_def)
  ultimately show ?thesis using c_str_append [OF assms(2)] by simp
qed

lemma WritePidFile_ok:
  assumes "0 < os_getpid K (dw_forks w)" "os_getpid K (dw_forks w) < 2 ^ 31"
  shows "\<exists>w'. WritePidFile K pidfile w =
      (0 \<le> os_open K (dw_opens w) pidfile \<and> os_lock K (dw_opens w + 1) \<and>
         int (length (decimal (nat (os_getpid K (dw_forks w))))) \<le> os_write K (dw_opens w + 1), w') \<and>
    dw_forks w' = dw_forks w \<and> dw_at_exit w' = dw_at_exit w \<and> dw_kills w' = dw_kills w \<and> dw_session w' = dw_session w \<and>
    dw_opens w' = dw_opens w + 1 \<and>
    (fst (WritePidFile K pidfile w) \<longrightarrow>
       dw_file w' = (dw_file w)(pidfile \<mapsto> decimal (nat (os_getpid K (dw_forks w)))) \<and>
       dw_fd w' = (dw_fd w)(os_open K (dw_opens w) pidfile := None))"
proof -
  let ?p = "os_getpid K (dw_forks w)"
  have d: "to_string ?p = decimal (nat ?p)" using assms by (simp add: to_string_def)
  have "length (to_string ?p) < length (replicate 16 (CHR 0x00))" "CHR 0x00 \<notin> set (to_string ?p)"
    using length_pid [OF assms] by (simp_all add: d)
  from snprintf_to_fits(2) [OF this]
  have "c_str (fst (snprintf_to (to_string ?p) (replicate 16 (CHR 0x00)))) = decimal (nat ?p)" by (simp add: d)
  then show ?thesis
    by (auto simp: WritePidFile_def dw_defs Let_def split_beta min_def)
qed

lemma GetPidFromFile_frame:
  "\<exists>w'. GetPidFromFile K pidfile w = (fst (GetPidFromFile K pidfile w), w') \<and> dw_file w' = dw_file w \<and> dw_forks w' = dw_forks w \<and>
     dw_kills w' = dw_kills w \<and> dw_session w' = dw_session w \<and> dw_at_exit w' = dw_at_exit w \<and> dw_opens w' = dw_opens w + 1"
  by (auto simp: GetPidFromFile_def dw_defs Let_def split_beta)

lemma Stop_loop_ok:
  assumes "Stop_loop K pid pidfile n w = (r, w')"
  shows "(\<exists>m \<le> n. dw_kills w' = dw_kills w @ replicate m (pid, SIGQUIT)) \<and>
    dw_file w' = (if r then (dw_file w)(pidfile := None) else dw_file w) \<and>
    (r \<longrightarrow> dw_kills w' \<noteq> [] \<and> os_kill K (length (dw_kills w') - 1) pid \<noteq> Sent)"
  using assms
proof (induction n arbitrary: w)
  case (Suc n)
  let ?a = "os_kill K (length (dw_kills w)) pid"
  show ?case
  proof (cases "?a = Sent")
    case True
    with Suc.prems have "Stop_loop K pid pidfile n (w\<lparr>dw_kills := dw_kills w @ [(pid, SIGQUIT)]\<rparr>) = (r, w')"
      by (simp add: kill_def)
    from Suc.IH [OF this] obtain m where m: "m \<le> n"
      "dw_kills w' = dw_kills w @ (pid, SIGQUIT) # replicate m (pid, SIGQUIT)"
      "dw_file w' = (if r then (dw_file w)(pidfile := None) else dw_file w)"
      "r \<longrightarrow> os_kill K (length (dw_kills w') - 1) pid \<noteq> Sent"
      by auto
    then show ?thesis by (auto intro!: exI [of _ "Suc m"])
  next
    case False
    with Suc.prems show ?thesis by (auto simp: kill_def unlink_def intro!: exI [of _ 1])
  qed
qed simp

definition occupied :: "daemon_os \<Rightarrow> string \<Rightarrow> daemon_world \<Rightarrow> bool" where
  "occupied K pidfile w \<longleftrightarrow>
     (let pid = fst (GetPidFromFile K pidfile w) in 0 < pid \<and> os_kill K (length (dw_kills w)) pid \<noteq> No_process)"

lemma daemon_Start_eq:
  "\<exists>w'. daemon_Start K pidfile w =
      (if occupied K pidfile w \<or> os_getppid K = 1 then Returned False w' else Start_forks K pidfile w') \<and>
    dw_file w' = dw_file w \<and> dw_forks w' = dw_forks w \<and> dw_session w' = dw_session w \<and> dw_at_exit w' = dw_at_exit w \<and>
    dw_opens w' = dw_opens w + 1"
proof -
  from GetPidFromFile_frame [of K pidfile w] obtain pid w' where
    w': "GetPidFromFile K pidfile w = (pid, w')" "dw_file w' = dw_file w"
      "dw_forks w' = dw_forks w" "dw_kills w' = dw_kills w" "dw_session w' = dw_session w" "dw_at_exit w' = dw_at_exit w"
      "dw_opens w' = dw_opens w + 1"
    by metis
  have k: "a = Sent \<or> a = Not_permitted \<longleftrightarrow> a \<noteq> No_process" for a by (cases a) simp_all
  show ?thesis
  proof (cases "0 < pid")
    case True
    with w' show ?thesis
      by (intro exI [of _ "w'\<lparr>dw_kills := dw_kills w' @ [(pid, 0)]\<rparr>"])
        (simp add: daemon_Start_def occupied_def kill_def k)
  next
    case False
    with w' show ?thesis by (intro exI [of _ w']) (simp add: daemon_Start_def occupied_def)
  qed
qed

lemma Start_daemon_ok:
  assumes "0 < os_getpid K (dw_forks w)" "os_getpid K (dw_forks w) < 2 ^ 31" "\<forall>n path. 2 < os_open K n path" "\<forall>n. os_lock K n"
    "\<forall>n. 16 \<le> os_write K n" "dw_at_exit w = None"
  shows "\<exists>w'. Start_daemon K pidfile w = Returned True w' \<and>
    dw_file w' = (dw_file w)(pidfile \<mapsto> decimal (nat (os_getpid K (dw_forks w)))) \<and> dw_forks w' = dw_forks w \<and>
    dw_session w' = dw_session w \<and> dw_at_exit w' = Some pidfile \<and> (\<forall>fd \<in> {0, 1, 2}. dw_fd w' fd = Some dev_null)"
proof -
  have "0 \<le> os_open K n path" for n path using assms(3) by (meson less_imp_le less_trans zero_less_numeral)
  moreover have "int (length (decimal (nat (os_getpid K (dw_forks w))))) \<le> os_write K n" for n
    using length_pid [OF assms(1,2)] assms(5) [rule_format, of n] by linarith
  ultimately obtain w1 where w1: "WritePidFile K pidfile w = (True, w1)" "dw_forks w1 = dw_forks w" "dw_at_exit w1 = None"
      "dw_session w1 = dw_session w" "dw_file w1 = (dw_file w)(pidfile \<mapsto> decimal (nat (os_getpid K (dw_forks w))))"
    using WritePidFile_ok [OF assms(1,2), of pidfile] assms(4,6) by auto
  have fd: "2 < os_open K (dw_opens w1) dev_null" using assms(3) by blast
  let ?fd = "os_open K (dw_opens w1) dev_null"
  let ?w2 = "w1\<lparr>dw_opens := dw_opens w1 + 1, dw_fd := (dw_fd w1)(?fd \<mapsto> dev_null)\<rparr>"
  have null: "open_read K dev_null w1 = (?fd, ?w2)" using fd by (simp add: open_read_def Let_def)
  let ?w3 = "dup2 ?fd 2 (dup2 ?fd 1 (dup2 ?fd 0 ?w2))"
  have std: "dw_fd (close_fd ?fd ?w3) i = Some dev_null" if "i \<in> {0, 1, 2}" for i
    using that fd by (auto simp: close_fd_def dup2_def)
  have w3: "dw_file ?w3 = dw_file w1" "dw_forks ?w3 = dw_forks w1" "dw_session ?w3 = dw_session w1" "dw_at_exit ?w3 = None"
    using w1(3) by (simp_all add: dup2_def)
  have "Start_daemon K pidfile w = Returned True (close_fd ?fd (?w3\<lparr>dw_at_exit := Some pidfile\<rparr>))"
    using fd w3(4) by (simp add: Start_daemon_def w1(1) null with_exit_def)
  moreover have "dw_fd (close_fd ?fd (?w3\<lparr>dw_at_exit := Some pidfile\<rparr>)) = dw_fd (close_fd ?fd ?w3)"
    by (simp add: close_fd_def)
  ultimately show ?thesis
    using w1 w3 std by (intro exI [of _ "close_fd ?fd (?w3\<lparr>dw_at_exit := Some pidfile\<rparr>)"]) (simp add: close_fd_def)
qed

lemma Start_forks_eq:
  assumes "dw_at_exit w = None"
  shows "\<exists>v. Start_forks K pidfile w =
      (if os_fork K (dw_forks w) < 0 \<or> os_fork K (dw_forks w) = 0 \<and> os_fork K (dw_forks w + 1) < 0 then Returned False v
       else if 0 < os_fork K (dw_forks w) \<or> 0 < os_fork K (dw_forks w + 1) then Exited 0 v
       else Start_daemon K pidfile v) \<and>
    dw_file v = dw_file w \<and> dw_at_exit v = None \<and>
    (os_fork K (dw_forks w) = 0 \<longrightarrow> dw_forks v = dw_forks w + 2 \<and> dw_session v)"
  using assms by (auto simp: Start_forks_def fork_def proc_exit_def Let_def)

text \<open>A lock that is refused: the file has been emptied already, and its descriptor stays open.\<close>

lemma refused_lock_empties_file:
  assumes "0 \<le> os_open K (dw_opens w) pidfile" "\<not> os_lock K (dw_opens w + 1)"
  shows "\<exists>w'. WritePidFile K pidfile w = (False, w') \<and> dw_file w' pidfile = Some [] \<and>
    dw_fd w' (os_open K (dw_opens w) pidfile) = Some pidfile"
  using assms by (simp add: WritePidFile_def open_write_def Let_def)

text \<open>Examples: a kernel that grants its calls, and a process that ends at the third signal.\<close>

definition demo_os :: "string \<Rightarrow> daemon_os" where
  "demo_os stack = \<lparr>os_open = (\<lambda>n path. 5), os_lock = (\<lambda>n. True), os_write = (\<lambda>n. 16), os_read_ok = True,
     os_kill = (\<lambda>n pid. if n < 3 then Sent else No_process), os_fork = (\<lambda>n. 0), os_getpid = (\<lambda>n. 42),
     os_getppid = 1000, os_stack = stack\<rparr>"

definition demo_world :: "(string \<rightharpoonup> string) \<Rightarrow> daemon_world" where
  "demo_world files = \<lparr>dw_file = files, dw_fd = (\<lambda>fd. None), dw_opens = 0, dw_forks = 0, dw_kills = [],
     dw_session = False, dw_at_exit = None\<rparr>"

lemma decimal_42: "decimal 42 = ''42''" "to_string 42 = ''42''" "atoi ''427'' = 427" "atoi ''42'' = 42"
  by code_simp+

lemma demo_buffers:
  "c_str ((copy_in ''42'' 0 (replicate 3 CHR ''7'' @ replicate 13 (CHR 0x00)))[15 := CHR 0x00]) = ''427''"
  "c_str ((copy_in ''42'' 0 (replicate 16 (CHR 0x00)))[15 := CHR 0x00]) = ''42''"
  by code_simp+

text \<open>A digit on the stack becomes part of the number.\<close>

lemma pid_file_reads_stack:
  "fst (GetPidFromFile (demo_os (replicate 3 CHR ''7'' @ replicate 13 (CHR 0x00))) ''d.pid''
     (demo_world [''d.pid'' \<mapsto> decimal 42])) = 427"
  by (simp add: GetPidFromFile_def dw_defs demo_os_def demo_world_def decimal_42 demo_buffers dev_null_def)

subsection \<open>Properties\<close>

text \<open>
  The number in the pid file. What \<open>WritePidFile\<close> wrote is the decimal process id; what
  \<open>GetPidFromFile\<close> makes of it is that number only if the byte that happens to follow it in
  the uninitialised buffer is not a digit, because nothing ends the text after the bytes read.
\<close>

lemma pid_file_roundtrip:
  assumes "WritePidFile K pidfile w = (True, w1)" "0 < os_getpid K (dw_forks w)" "os_getpid K (dw_forks w) < 2 ^ 31"
    and "dw_file w2 pidfile = dw_file w1 pidfile" "pidfile \<noteq> dev_null" "0 \<le> os_open L (dw_opens w2) pidfile" "os_read_ok L"
      "length (os_stack L) = 16"
  shows "let p = os_getpid K (dw_forks w); d = decimal (nat p); rest = drop (length d) (os_stack L) in
    dw_file w1 pidfile = Some d \<and>
    fst (GetPidFromFile L pidfile w2) = atoi (d @ c_str (take (15 - length d) rest)) \<and>
    (\<not> is_digit (hd rest) \<longrightarrow> fst (GetPidFromFile L pidfile w2) = p)"
proof -
  let ?p = "os_getpid K (dw_forks w)" and ?d = "decimal (nat (os_getpid K (dw_forks w)))"
  let ?rest = "drop (length ?d) (os_stack L)"
  have f: "dw_file w1 pidfile = Some ?d" using WritePidFile_ok [OF assms(2,3), of pidfile] assms(1) by auto
  have n: "length ?d \<le> 15" using length_pid [OF assms(2,3)] by simp
  have get: "fst (GetPidFromFile L pidfile w2) = atoi (?d @ c_str (take (15 - length ?d) ?rest))"
    using pid_buffer [OF n _ assms(8)] f assms(4-7) by (simp add: GetPidFromFile_def dw_defs Let_def)
  have "atoi (?d @ c_str (take (15 - length ?d) ?rest)) = ?p" if "\<not> is_digit (hd ?rest)"
  proof (rule atoi_pid [OF assms(2,3)])
    show "c_str (take (15 - length ?d) ?rest) = [] \<or> \<not> is_digit (hd (c_str (take (15 - length ?d) ?rest)))"
      using that by (cases ?rest; cases "15 - length ?d") (auto simp: c_str_def)
  qed
  with f get show ?thesis by (simp add: Let_def)
qed





end
