(* ===== verification/DaemonExample.thy ===== *)
theory DaemonExample
  imports Daemon Logger
begin

section \<open>\<open>example/daemon\<close>: the settings of a daemon\<close>

text \<open>
  What \<open>main\<close> of the example does between becoming a daemon and starting its threads: it
  reads the configuration file, takes the name of the log file, the level and the size at
  which to roll from it, and sets the level of the log. \<open>file\<close> is the content of
  \<open>daemon.conf\<close>, or \<open>None\<close> when it cannot be opened; a fatal log line aborts.
\<close>

text \<open>The variable \<open>level\<close> has no value when the name is none of the six.\<close>

definition level_of :: "string \<Rightarrow> log_level res" where
  "level_of loglevel =
     (if loglevel = ''TRACE'' then Inr TRACE
      else if loglevel = ''DEBUG'' then Inr DEBUG
      else if loglevel = ''INFO'' then Inr INFO
      else if loglevel = ''WARN'' then Inr WARN
      else if loglevel = ''ERROR'' then Inr ERROR
      else if loglevel = ''FATAL'' then Inr FATAL
      else Inl Undefined)"

definition daemon_settings ::
  "string option \<Rightarrow> string \<Rightarrow> 's log_global \<Rightarrow> (string \<times> int \<times> 's log_global) res" where
  "daemon_settings file argv0 G =
     (let (r, config) = Parse ''daemon.conf'' file \<lparr>cfg_filename = [], cfg_config = (\<lambda>k. None)\<rparr> in
      if r \<noteq> 0 then Inl Aborted
      else
        res_bind (GetString [] ''logfile'' (posix_basename (Some argv0)) config) (\<lambda>logfile.
        res_bind (GetString [] ''loglevel'' ''INFO'' config) (\<lambda>loglevel.
        res_bind (GetInt [] ''rollsize'' (1 * 1024 * 1024 * 1024) config) (\<lambda>rollsize.
        res_bind (level_of loglevel) (\<lambda>level. Inr (logfile, rollsize, SetLevel level G))))))"

text \<open>No file: the daemon aborts. An empty one: its own name, a gigabyte, and the level \<open>INFO\<close>.\<close>

lemma daemon_settings_no_file: "daemon_settings None argv0 G = Inl Aborted"
  by (simp add: daemon_settings_def Parse_def)

lemma daemon_settings_empty_file:
  "daemon_settings (Some []) argv0 G = Inr (posix_basename (Some argv0), 1073741824, SetLevel INFO G)"
proof -
  have "strtol (c_str []) = (0, 0)" by code_simp
  then show ?thesis
    by (simp add: daemon_settings_def Parse_def parse_loop.simps GetString_def GetInt_def level_of_def)
qed

text \<open>Each level is known by the name it has in the log.\<close>

lemma level_of_name:
  "level_of loglevel = Inr level \<longleftrightarrow> level \<noteq> LOG_LEVELS_NUM \<and> loglevel = takeWhile (\<lambda>c. c \<noteq> CHR '' '') (LogLevelName ! level_num level)"
  by (cases level) (auto simp: level_of_def LogLevelName_def)

lemma level_of_unknown: "level_of ''Debug'' = Inl Undefined"
  by (simp add: level_of_def)

end
