(* ===== verification/Util.thy ===== *)
theory Util
  imports Text
begin

section \<open>\<open>base/Util\<close>: formatting, descriptor flags, reading and writing in full\<close>

text \<open>
  The answers of \<open>read\<close> and \<open>write\<close> are a list the loops consume, one per call; a loop
  that is not answered any more waits for ever. A call takes or delivers at most what it
  is asked for, whatever the answer offers.
\<close>

unbundle bit_operations_syntax

subsection \<open>\<open>util::Format\<close>\<close>

text \<open>
  \<open>vsnprintf(p, size, ...)\<close> of a text \<open>txt\<close>: it stores at most \<open>size - 1\<close> characters and a NUL
  and returns the length of the whole text; \<open>None\<close> is an output error, its result -1.
\<close>

definition kFormatSmall :: nat where "kFormatSmall = 500"

definition kFormatLarge :: nat where "kFormatLarge = 30000"

fun Format_try :: "nat list \<Rightarrow> string option \<Rightarrow> string res" where
  "Format_try [] txt = Inl Undefined"
| "Format_try (bufsize # sizes) txt =
     (case txt of
        None \<Rightarrow> Inl Undefined
      | Some t \<Rightarrow>
          if bufsize \<le> length t
          then (if sizes \<noteq> [] then Format_try sizes txt else Inr (c_str (take (bufsize - 1) t)))
          else Inr (c_str t))"

definition Format :: "string option \<Rightarrow> string res" where
  "Format = Format_try [kFormatSmall, kFormatLarge]"

subsection \<open>Descriptor flags\<close>

text \<open>\<open>fcntl\<close> on a kernel state: reading the two words of flags of a descriptor and setting
  them; -1, all bits set, is a failure.\<close>

record 'k fcntl_calls =
  getfl :: "int \<Rightarrow> 'k \<Rightarrow> 32 word"
  setfl :: "int \<Rightarrow> 32 word \<Rightarrow> 'k \<Rightarrow> 32 word \<times> 'k"
  getfd :: "int \<Rightarrow> 'k \<Rightarrow> 32 word"
  setfd :: "int \<Rightarrow> 32 word \<Rightarrow> 'k \<Rightarrow> 32 word \<times> 'k"

definition O_NONBLOCK :: "32 word" where "O_NONBLOCK = 2048"

definition FD_CLOEXEC :: "32 word" where "FD_CLOEXEC = 1"

definition AddFdFlag :: "'k fcntl_calls \<Rightarrow> int \<Rightarrow> 32 word \<Rightarrow> 'k \<Rightarrow> 32 word \<times> 'k" where
  "AddFdFlag K fd flag k = setfl K fd (getfl K fd k OR flag) k"

definition SetNonBlockAndCloseOnExec :: "'k fcntl_calls \<Rightarrow> int \<Rightarrow> 'k \<Rightarrow> 32 word \<times> 'k" where
  "SetNonBlockAndCloseOnExec K fd k =
     (let (ret, k1) = AddFdFlag K fd O_NONBLOCK k in
      if ret \<noteq> 0 then (ret, k1) else setfd K fd (getfd K fd k1 OR FD_CLOEXEC) k1)"

subsection \<open>Writing\<close>

datatype io_errno = EINTR | EWOULDBLOCK | Other_error

datatype write_result = Wrote nat | Write_fails io_errno

text \<open>The loop with what is left and the sum so far; the bytes the kernel took are returned too.\<close>

fun writen_loop :: "string \<Rightarrow> nat \<Rightarrow> write_result list \<Rightarrow> (int \<times> string) res" where
  "writen_loop p writesum answers =
     (if p = [] then Inr (int writesum, [])
      else case answers of
          [] \<Rightarrow> Inl Blocked
        | Write_fails e # as \<Rightarrow> if e = EINTR then writen_loop p writesum as else Inr (- 1, [])
        | Wrote n # as \<Rightarrow>
            let n = min n (length p) in
            res_bind (writen_loop (drop n p) (writesum + n) as) (\<lambda>(r, took). Inr (r, take n p @ took)))"

declare writen_loop.simps [simp del]

definition Writen :: "string \<Rightarrow> write_result list \<Rightarrow> (int \<times> string) res" where
  "Writen buf answers = writen_loop buf 0 answers"

definition WriteFd :: "string \<Rightarrow> write_result list \<Rightarrow> (int \<times> string) res" where
  "WriteFd buf answers = Writen buf answers"

subsection \<open>Reading\<close>

datatype read_result = Got string | Read_fails io_errno

fun readn_loop :: "nat \<Rightarrow> string \<Rightarrow> read_result list \<Rightarrow> (int \<times> string) res" where
  "readn_loop nleft got answers =
     (if nleft = 0 then Inr (int (length got), got)
      else case answers of
          [] \<Rightarrow> Inl Blocked
        | Read_fails e # as \<Rightarrow>
            if e = EINTR then readn_loop nleft got as
            else if e = EWOULDBLOCK then Inr (int (length got), got)
            else Inr (- 1, got)
        | Got d # as \<Rightarrow>
            let d = take nleft d in
            if d = [] then Inr (int (length got), got) else readn_loop (nleft - length d) (got @ d) as)"

declare readn_loop.simps [simp del]

definition Readn :: "nat \<Rightarrow> read_result list \<Rightarrow> (int \<times> string) res" where
  "Readn n answers = readn_loop n [] answers"

text \<open>\<open>ReadFd\<close> appends to the string it is given, in pieces of at most 4096 bytes.\<close>

fun ReadFd_loop :: "nat \<Rightarrow> string \<Rightarrow> read_result list \<Rightarrow> (int \<times> string) res" where
  "ReadFd_loop readsum buf [] = Inl Blocked"
| "ReadFd_loop readsum buf (Read_fails e # as) =
     (if e = EINTR then ReadFd_loop readsum buf as
      else if e = EWOULDBLOCK then Inr (int readsum, buf) else Inr (- 1, buf))"
| "ReadFd_loop readsum buf (Got d # as) =
     (let d = take 4096 d in
      if d = [] then Inr (int readsum, buf) else ReadFd_loop (readsum + length d) (buf @ d) as)"

definition ReadFd_string :: "string \<Rightarrow> read_result list \<Rightarrow> (int \<times> string) res" where
  "ReadFd_string buf answers = ReadFd_loop 0 buf answers"

subsection \<open>References\<close>

text \<open>What the answers come to, for a call that may ask for everything: the bytes that
  arrive (the number of bytes that can be written) and how that ends.\<close>

datatype ending = Ended | Failed | Unanswered

fun arriving :: "nat \<Rightarrow> read_result list \<Rightarrow> string \<times> ending" where
  "arriving limit [] = ([], Unanswered)"
| "arriving limit (Read_fails e # as) =
     (if e = EINTR then arriving limit as else ([], if e = EWOULDBLOCK then Ended else Failed))"
| "arriving limit (Got d # as) =
     (if d = [] then ([], Ended) else let (bytes, e) = arriving limit as in (take limit d @ bytes, e))"

fun taking :: "write_result list \<Rightarrow> nat \<times> ending" where
  "taking [] = (0, Unanswered)"
| "taking (Write_fails e # as) = (if e = EINTR then taking as else (0, Failed))"
| "taking (Wrote n # as) = (let (k, e) = taking as in (n + k, e))"

definition read_outcome :: "string \<Rightarrow> ending \<Rightarrow> string \<Rightarrow> (int \<times> string) res" where
  "read_outcome bytes e buf =
     (case e of
        Ended \<Rightarrow> Inr (int (length bytes), buf @ bytes)
      | Failed \<Rightarrow> Inr (- 1, buf @ bytes)
      | Unanswered \<Rightarrow> Inl Blocked)"

lemma readn_loop_eq:
  "(\<forall>d. Got d \<in> set as \<longrightarrow> length d \<le> limit) \<Longrightarrow>
   readn_loop n got as =
     (let (bytes, e) = arriving limit as in
      if n \<le> length bytes then Inr (int (length got + n), got @ take n bytes)
      else case e of
          Ended \<Rightarrow> Inr (int (length got + length bytes), got @ bytes)
        | Failed \<Rightarrow> Inr (- 1, got @ bytes)
        | Unanswered \<Rightarrow> Inl Blocked)"
proof (induction as arbitrary: n got)
  case Nil
  then show ?case by (simp add: readn_loop.simps)
next
  case (Cons a as)
  then have limit: "\<forall>d. Got d \<in> set as \<longrightarrow> length d \<le> limit" by simp
  show ?case
  proof (cases "n = 0")
    case True
    then show ?thesis by (simp add: readn_loop.simps split_beta)
  next
    case False
    show ?thesis
    proof (cases a)
      case (Got d)
      have "length d \<le> limit" using Cons.prems Got by simp
      then have t: "take limit d = d" by simp
      obtain bytes e where b: "arriving limit as = (bytes, e)" by fastforce
      show ?thesis
      proof (cases "length d < n")
        case True
        then show ?thesis using Cons.IH [OF limit, of "n - length d" "got @ d"] False Got t b
          by (subst readn_loop.simps) (auto simp: ac_simps split: ending.splits)
      next
        case nd: False
        then have "readn_loop (n - length (take n d)) (got @ take n d) as = Inr (int (length got + n), got @ take n d)"
          by (subst readn_loop.simps) (simp add: min_def)
        then show ?thesis using nd False Got t b by (subst readn_loop.simps) auto
      qed
    next
      case (Read_fails e)
      then show ?thesis using Cons.IH [OF limit, of n got] False by (subst readn_loop.simps) simp
    qed
  qed
qed

lemma ReadFd_loop_eq:
  "ReadFd_loop k buf as = (let (bytes, e) = arriving 4096 as in
     case e of Ended \<Rightarrow> Inr (int (k + length bytes), buf @ bytes) | Failed \<Rightarrow> Inr (- 1, buf @ bytes) | Unanswered \<Rightarrow> Inl Blocked)"
  by (induction k buf as rule: ReadFd_loop.induct) (auto simp: split_beta Let_def split: ending.splits)

lemma writen_loop_eq:
  "writen_loop p w as =
     (let (k, e) = taking as in
      if length p \<le> k then Inr (int (w + length p), p)
      else case e of Unanswered \<Rightarrow> Inl Blocked | _ \<Rightarrow> Inr (- 1, take k p))"
proof (induction as arbitrary: p w)
  case Nil
  then show ?case by (simp add: writen_loop.simps)
next
  case (Cons a as)
  show ?case
  proof (cases "p = []")
    case True
    then show ?thesis by (simp add: writen_loop.simps split_beta)
  next
    case False
    show ?thesis
    proof (cases a)
      case (Wrote n)
      obtain k e where k: "taking as = (k, e)" by fastforce
      have "take n p @ take k (drop n p) = take (n + k) p" by (simp add: take_add)
      then show ?thesis using Cons.IH [of "drop n p" "w + min n (length p)"] False Wrote k
        by (subst writen_loop.simps)
          (cases "n \<le> length p"; auto simp: min_def split: ending.splits)
    next
      case (Write_fails e)
      then show ?thesis using Cons.IH [of p w] False by (subst writen_loop.simps) simp
    qed
  qed
qed

lemma taking_ending: "snd (taking as) \<noteq> Ended"
  by (induction as rule: taking.induct) (auto simp: split_beta)

subsection \<open>Properties\<close>

text \<open>
  C33: Reading in full delivers what arrives. \<open>Readn\<close> gives the first \<open>n\<close> bytes when as many
  arrive before the end of the stream or \<open>EWOULDBLOCK\<close>, and all that arrived otherwise; an
  interrupted call changes nothing; \<open>ReadFd\<close> appends everything to its string. Either
  returns -1 only when a call failed, and waits only while it is not answered.
\<close>

theorem Readn_ReadFd_spec:
  assumes "\<forall>d. Got d \<in> set as \<longrightarrow> length d \<le> limit"
  shows "Readn n as = (let (bytes, e) = arriving limit as in
      if n \<le> length bytes then Inr (int n, take n bytes) else read_outcome bytes e []) \<and>
    ReadFd_string buf as = (let (bytes, e) = arriving 4096 as in read_outcome bytes e buf)"
proof
  show "Readn n as = (let (bytes, e) = arriving limit as in
      if n \<le> length bytes then Inr (int n, take n bytes) else read_outcome bytes e [])"
    using readn_loop_eq [OF assms, of n "[]"]
    by (simp add: Readn_def read_outcome_def split_beta split: ending.splits)
  show "ReadFd_string buf as = (let (bytes, e) = arriving 4096 as in read_outcome bytes e buf)"
    by (simp add: ReadFd_string_def ReadFd_loop_eq read_outcome_def split_beta split: ending.splits)
qed

theorem Readn_ReadFd_spec_witness:
  "Readn 4 [Got ''ab'', Read_fails EINTR, Got ''cde''] = Inr (4, ''abcd'')"
proof -
  have "\<forall>d. Got d \<in> set [Got ''ab'', Read_fails EINTR, Got ''cde''] \<longrightarrow> length d \<le> 3" by auto
  from Readn_ReadFd_spec [OF this, of 4] show ?thesis by simp
qed

text \<open>
  Writing in full is all or an error. \<open>Writen\<close> returns the length exactly when the
  kernel takes all of the bytes, and -1 when a call fails first, \<open>EWOULDBLOCK\<close> included: then
  a part may have been written, and how much is not told.
\<close>

lemma Writen_spec:
  "Writen buf as = (let (k, e) = taking as in
     if length buf \<le> k then Inr (int (length buf), buf)
     else if e = Unanswered then Inl Blocked else Inr (- 1, take k buf))"
  using taking_ending [of as]
  by (auto simp: Writen_def writen_loop_eq split_beta split: ending.splits)

text \<open>
  \<open>Format\<close> gives the whole text of up to 29999 characters, and the first 29999 of a
  longer one; the second attempt with the large buffer is made exactly when it is needed.
\<close>

lemma Format_spec: "Format (Some t) = Inr (c_str (take 29999 t))"
  by (simp add: Format_def kFormatSmall_def kFormatLarge_def)

end
